(* ===== verification/Prelude.thy ===== *)
theory Prelude
  imports Main "HOL-Library.Word"
begin

text \<open>
  Shared vocabulary of the development: the outcome of a kernel operation (a value, a
  \<open>panic\<close>, a \<open>sleep\<close> that nothing in the modelled step can end, a loop
  whose fuel ran out, or undefined behaviour), machine words and their arithmetic on natural numbers, and byte
  addressed memory with little-endian loads and stores.
\<close>

unbundle bit_operations_syntax

section \<open>Outcomes\<close>

text \<open>
  \<open>Ok\<close> is a normal return, \<open>Panic\<close> is a call of \<open>panic()\<close> (which never
  returns), \<open>Sleeps\<close> is a call of \<open>sleep()\<close> on a condition only another process
  can establish, \<open>NoFuel\<close> is a loop that did not end within the fuel of the model,
  \<open>Undef\<close> is an access out of the bounds of an array, undefined in C.
\<close>

datatype 'a outcome = Ok 'a | Panic string | Sleeps | NoFuel | Undef

primrec bindO :: "'a outcome \<Rightarrow> ('a \<Rightarrow> 'b outcome) \<Rightarrow> 'b outcome" where
  "bindO (Ok x) f = f x"
| "bindO (Panic e) f = Panic e"
| "bindO Sleeps f = Sleeps"
| "bindO NoFuel f = NoFuel"
| "bindO Undef f = Undef"

named_theorems outcome_iff \<open>characterisations of a successful outcome\<close>

lemma bindO_Ok_iff [outcome_iff]: "bindO m f = Ok y \<longleftrightarrow> (\<exists>x. m = Ok x \<and> f x = Ok y)"
  by (cases m) auto

lemma bindO_assoc: "bindO (bindO m f) g = bindO m (\<lambda>x. bindO (f x) g)"
  by (cases m) auto

lemma bindO_Ok_right [simp]: "bindO m Ok = m"
  by (cases m) auto

lemma bindO_cong [fundef_cong]:
  "m = m' \<Longrightarrow> (\<And>x. m' = Ok x \<Longrightarrow> f x = f' x) \<Longrightarrow> bindO m f = bindO m' f'"
  by (cases m') auto

lemma if_Ok_iff [outcome_iff]:
  "(if b then Panic e else m) = Ok y \<longleftrightarrow> \<not> b \<and> m = Ok y"
  by auto

definition is_Ok :: "'a outcome \<Rightarrow> bool" where
  "is_Ok m \<longleftrightarrow> (case m of Ok _ \<Rightarrow> True | _ \<Rightarrow> False)"

lemma is_Ok_simps [simp]:
  "is_Ok (Ok x)" "\<not> is_Ok (Panic e)" "\<not> is_Ok Sleeps" "\<not> is_Ok NoFuel" "\<not> is_Ok Undef"
  by (auto simp: is_Ok_def)

lemma is_Ok_iff: "is_Ok m \<longleftrightarrow> (\<exists>x. m = Ok x)"
  by (cases m) auto

section \<open>Machine words\<close>

type_synonym byte = "8 word"
type_synonym addr = "64 word"
type_synonym uint32 = "32 word"
type_synonym uint64 = "64 word"

text \<open>Arithmetic of 64-bit words read as natural numbers.\<close>

lemma unat_64_less: "unat (x :: 64 word) < 18446744073709551616"
  using unsigned_less [of x] by simp

lemma unat_32_less: "unat (x :: 32 word) < 4294967296"
  using unsigned_less [of x] by simp

lemma unat_8_less: "unat (x :: 8 word) < 256"
  using unsigned_less [of x] by simp

lemma unat_add_64:
  "unat (a + b :: 64 word) = (if unat a + unat b < 18446744073709551616 then unat a + unat b
     else unat a + unat b - 18446744073709551616)"
  using unat_plus_if' [of a b] by simp

lemma unat_sub_64:
  "unat (a - b :: 64 word) = (if unat b \<le> unat a then unat a - unat b
     else unat a + 18446744073709551616 - unat b)"
  using unat_sub_if' [of a b] by simp

lemma unat_mod_64: "unat (a mod b :: 64 word) = unat a mod unat b"
  by (rule unat_mod)

lemma word_mod_eq_0_iff: "(a :: 64 word) mod b = 0 \<longleftrightarrow> unat a mod unat b = 0"
  by (metis unat_0_iff unat_mod)

lemma unat_of_nat_64: "n < 18446744073709551616 \<Longrightarrow> unat (of_nat n :: 64 word) = n"
  by (simp add: unat_of_nat)

lemma of_nat_unat_64 [simp]: "(of_nat (unat (a :: 64 word)) :: 64 word) = a"
  by simp

lemma and_not_mask_eq: "(a :: 64 word) AND NOT (mask n) = push_bit n (drop_bit n a)"
  by (rule bit_word_eqI) (auto simp: bit_simps)

lemma unat_and_not_mask:
  "unat ((a :: 64 word) AND NOT (mask n)) = unat a div 2 ^ n * 2 ^ n"
proof -
  have "unat a div 2 ^ n * 2 ^ n < 2 ^ 64"
    by (rule le_less_trans [of _ "unat a"]) (use unat_64_less [of a] in simp_all)
  moreover have "unat (push_bit n (drop_bit n a)) = take_bit 64 (push_bit n (unat (drop_bit n a)))"
    by (simp only: unsigned_push_bit_eq) simp
  moreover have "\<dots> = unat a div 2 ^ n * 2 ^ n mod 2 ^ 64"
    unfolding unat_drop_bit_eq by (simp only: push_bit_eq_mult drop_bit_eq_div take_bit_eq_mod)
  ultimately show ?thesis by (simp only: and_not_mask_eq mod_less)
qed

section \<open>Little-endian encoding\<close>

text \<open>
  RISC-V is little endian: \<open>le_bytes n w\<close> are the \<open>n\<close> bytes a store of \<open>w\<close>
  writes, \<open>le_word\<close> is the value a load of those bytes reads.
\<close>

definition le_bytes :: "nat \<Rightarrow> 'a::len word \<Rightarrow> byte list" where
  "le_bytes n w = map (\<lambda>i. ucast (drop_bit (8 * i) w)) [0..<n]"

primrec le_word :: "byte list \<Rightarrow> 'a::len word" where
  "le_word [] = 0"
| "le_word (b # bs) = ucast b OR push_bit 8 (le_word bs)"

lemma length_le_bytes [simp]: "length (le_bytes n w) = n"
  by (simp add: le_bytes_def)

lemma nth_le_bytes [simp]: "i < n \<Longrightarrow> le_bytes n w ! i = ucast (drop_bit (8 * i) w)"
  by (simp add: le_bytes_def)

lemma bit_le_word:
  "bit (le_word bs :: 'a::len word) k \<longleftrightarrow>
     k < LENGTH('a) \<and> k div 8 < length bs \<and> bit (bs ! (k div 8)) (k mod 8)"
proof (induction bs arbitrary: k)
  case Nil
  then show ?case by simp
next
  case (Cons b bs)
  show ?case
  proof (cases "k < 8")
    case True
    then show ?thesis by (auto simp: bit_simps dest: bit_imp_le_length)
  next
    case False
    then have d: "k div 8 = Suc ((k - 8) div 8)" "(k - 8) mod 8 = k mod 8"
      by (auto simp: le_div_geq le_mod_geq)
    have "\<not> bit b k" using False bit_imp_le_length [of b k] by auto
    with False d Cons.IH [of "k - 8"] show ?thesis
      by (auto simp: bit_simps)
  qed
qed

lemma le_word_le_bytes [simp]:
  assumes "LENGTH('a::len) \<le> 8 * n"
  shows "le_word (le_bytes n (w :: 'a word)) = w"
proof (rule bit_word_eqI)
  fix k assume k: "k < LENGTH('a)"
  with assms have "k div 8 < n" by linarith
  with k show "bit (le_word (le_bytes n w) :: 'a word) k = bit w k"
    by (simp add: bit_le_word bit_simps)
qed

lemma le_bytes_le_word [simp]:
  assumes "length bs = n" "8 * n \<le> LENGTH('a::len)"
  shows "le_bytes n (le_word bs :: 'a word) = bs"
proof (rule nth_equalityI)
  show "length (le_bytes n (le_word bs :: 'a word)) = length bs"
    using assms by simp
next
  fix i assume "i < length (le_bytes n (le_word bs :: 'a word))"
  then have i: "i < n" by simp
  show "le_bytes n (le_word bs :: 'a word) ! i = bs ! i"
  proof (rule bit_word_eqI)
    fix k assume k: "k < LENGTH(8)"
    then have "(8 * i + k) div 8 = i" "(8 * i + k) mod 8 = k" by auto
    with i k assms show "bit (le_bytes n (le_word bs :: 'a word) ! i) k = bit (bs ! i) k"
      by (auto simp: bit_simps bit_le_word)
  qed
qed

section \<open>Byte-addressed memory\<close>

type_synonym memory = "addr \<Rightarrow> byte"

definition load_bytes :: "memory \<Rightarrow> addr \<Rightarrow> nat \<Rightarrow> byte list" where
  "load_bytes m a n = map (\<lambda>i. m (a + of_nat i)) [0..<n]"

definition store_bytes :: "memory \<Rightarrow> addr \<Rightarrow> byte list \<Rightarrow> memory" where
  "store_bytes m a bs = (\<lambda>x. if unat (x - a) < length bs then bs ! unat (x - a) else m x)"

definition load64 :: "memory \<Rightarrow> addr \<Rightarrow> uint64" where
  "load64 m a = le_word (load_bytes m a 8)"

definition store64 :: "memory \<Rightarrow> addr \<Rightarrow> uint64 \<Rightarrow> memory" where
  "store64 m a v = store_bytes m a (le_bytes 8 v)"

text \<open>\<open>in_range x a n\<close>: the byte at \<open>x\<close> is one of the \<open>n\<close> bytes from \<open>a\<close>.\<close>

definition in_range :: "addr \<Rightarrow> addr \<Rightarrow> nat \<Rightarrow> bool" where
  "in_range x a n \<longleftrightarrow> unat (x - a) < n"

lemma length_load_bytes [simp]: "length (load_bytes m a n) = n"
  by (simp add: load_bytes_def)

lemma nth_load_bytes [simp]: "i < n \<Longrightarrow> load_bytes m a n ! i = m (a + of_nat i)"
  by (simp add: load_bytes_def)

lemma load_store_bytes [simp]:
  assumes "length bs < 18446744073709551616"
  shows "load_bytes (store_bytes m a bs) a (length bs) = bs"
  using assms by (auto intro!: nth_equalityI simp: store_bytes_def unat_of_nat_64)

lemma load_bytes_cong:
  "(\<And>i. i < n \<Longrightarrow> m (a + of_nat i) = m' (a + of_nat i)) \<Longrightarrow> load_bytes m a n = load_bytes m' a n"
  by (simp add: load_bytes_def)

lemma load64_cong:
  "(\<And>i. i < 8 \<Longrightarrow> m (a + of_nat i) = m' (a + of_nat i)) \<Longrightarrow> load64 m a = load64 m' a"
  unfolding load64_def by (simp cong: load_bytes_cong)

lemma load64_store64_same [simp]: "load64 (store64 m a v) a = v"
  using load_store_bytes [of "le_bytes 8 v" m a]
  by (simp add: load64_def store64_def)

lemma store64_outside: "\<not> in_range x a 8 \<Longrightarrow> store64 m a v x = m x"
  by (simp add: store64_def store_bytes_def in_range_def)

text \<open>Two different 8-byte aligned doublewords do not overlap.\<close>

definition aligned8 :: "addr \<Rightarrow> bool" where
  "aligned8 a \<longleftrightarrow> unat a mod 8 = 0"

lemma aligned8_add_less:
  assumes "aligned8 b" "i < 8"
  shows "unat b + i < 18446744073709551616"
proof -
  obtain y where b: "unat b = 8 * y" using assms(1) by (auto simp: aligned8_def elim!: dvdE)
  define K :: nat where "K = 2305843009213693952"
  have K: "18446744073709551616 = 8 * K" by (simp add: K_def)
  have "y < K" using unat_64_less [of b] unfolding K b by simp
  with assms(2) show ?thesis unfolding K b by linarith
qed

lemma aligned8_disjoint:
  assumes "aligned8 a" "aligned8 b" "a \<noteq> b" "i < 8"
  shows "\<not> in_range (b + of_nat i) a 8"
proof -
  obtain x y where a: "unat a = 8 * x" and b: "unat b = 8 * y"
    using assms(1,2) by (auto simp: aligned8_def elim!: dvdE)
  define K :: nat where "K = 2305843009213693952"
  have K: "18446744073709551616 = 8 * K" by (simp add: K_def)
  have lt: "x < K" "y < K" using unat_64_less [of a] unat_64_less [of b] unfolding K a b by simp_all
  have "x \<noteq> y" using assms(3) a b by (auto simp: word_unat_eq_iff)
  moreover have "unat (b + of_nat i) = 8 * y + i"
    using aligned8_add_less [OF assms(2,4)] assms(4) b by (simp add: unat_add_64 unat_of_nat_64)
  ultimately show ?thesis
    using lt assms(4) unfolding in_range_def unat_sub_64 K a by (cases "x \<le> y") auto
qed

lemma load64_store64_other [simp]:
  "aligned8 a \<Longrightarrow> aligned8 b \<Longrightarrow> a \<noteq> b \<Longrightarrow> load64 (store64 m a v) b = load64 m b"
  by (rule load64_cong) (simp add: aligned8_disjoint store64_outside)

lemma load64_store64_if:
  "aligned8 a \<Longrightarrow> aligned8 b \<Longrightarrow>
     load64 (store64 m a v) b = (if a = b then v else load64 m b)"
  by auto

section \<open>Fields of a byte block\<close>

text \<open>The \<open>n\<close>-byte little-endian field at an offset of a block, as C reads and writes struct fields.\<close>

definition get_le :: "nat \<Rightarrow> nat \<Rightarrow> byte list \<Rightarrow> 'a::len word" where
  "get_le n off bs = le_word (take n (drop off bs))"

definition put_bs :: "nat \<Rightarrow> byte list \<Rightarrow> byte list \<Rightarrow> byte list" where
  "put_bs off xs bs = take off bs @ xs @ drop (off + length xs) bs"

definition put_le :: "nat \<Rightarrow> nat \<Rightarrow> 'a::len word \<Rightarrow> byte list \<Rightarrow> byte list" where
  "put_le n off w bs = put_bs off (le_bytes n w) bs"

lemma length_put_bs [simp]: "off + length xs \<le> length bs \<Longrightarrow> length (put_bs off xs bs) = length bs"
  by (simp add: put_bs_def)

lemma length_put_le [simp]: "off + n \<le> length bs \<Longrightarrow> length (put_le n off w bs) = length bs"
  by (simp add: put_le_def)

lemma nth_put_bs:
  "off + length xs \<le> length bs \<Longrightarrow> i < length bs \<Longrightarrow>
     put_bs off xs bs ! i = (if off \<le> i \<and> i < off + length xs then xs ! (i - off) else bs ! i)"
  by (auto simp: put_bs_def nth_append min_def)

lemma take_drop_put_same:
  "off + length xs \<le> length bs \<Longrightarrow> take (length xs) (drop off (put_bs off xs bs)) = xs"
  by (simp add: put_bs_def)

lemma take_drop_put_other:
  assumes "off + length xs \<le> length bs" "off' + n \<le> length bs" "off' + n \<le> off \<or> off + length xs \<le> off'"
  shows "take n (drop off' (put_bs off xs bs)) = take n (drop off' bs)"
  using assms by (intro nth_equalityI) (auto simp: nth_put_bs)

lemma get_put_le_same:
  fixes w :: "'a::len word"
  assumes "off + n \<le> length bs" "LENGTH('a) \<le> 8 * n"
  shows "get_le n off (put_le n off w bs) = w"
  using assms take_drop_put_same [of off "le_bytes n w" bs] by (simp add: get_le_def put_le_def)

lemma get_put_le_other:
  assumes "off + m \<le> length bs" "off' + n \<le> length bs" "off' + n \<le> off \<or> off + m \<le> off'"
  shows "get_le n off' (put_le m off w bs) = get_le n off' bs"
  using assms take_drop_put_other [of off "le_bytes m w" bs off' n] by (simp add: get_le_def put_le_def)

end
