(* ===== verification/Ring.thy ===== *)
theory Ring
  imports Prelude
begin

text \<open>
  Ring buffers with free-running 32-bit counters, the way \<open>kernel/pipe.c\<close> and
  \<open>kernel/console.c\<close> use them: slot \<open>k % N\<close> holds the byte with number \<open>k\<close>, and \<open>N\<close>
  divides \<open>2 ^ 32\<close>, so the counters may wrap around. The locale states what such a buffer
  promises, a first-in first-out queue.
\<close>

section \<open>Slots\<close>

definition ring_index :: "nat \<Rightarrow> uint32 \<Rightarrow> nat" where
  "ring_index N k = unat (k mod of_nat N)"

definition ring_list :: "nat \<Rightarrow> 'a list \<Rightarrow> uint32 \<Rightarrow> uint32 \<Rightarrow> 'a list" where
  "ring_list N buf r w = map (\<lambda>j. buf ! ring_index N (r + of_nat j)) [0..<unat (w - r)]"

lemma length_ring_list [simp]: "length (ring_list N buf r w) = unat (w - r)"
  by (simp add: ring_list_def)

lemma unat_add_32: "unat (a + b :: 32 word) = (unat a + unat b) mod 4294967296"
  by (simp add: unat_word_ariths)

lemma unat_of_nat_32: "j < 4294967296 \<Longrightarrow> unat (of_nat j :: 32 word) = j"
  by (simp add: unat_of_nat take_bit_nat_eq_self)

definition ring_size :: "nat \<Rightarrow> bool" where
  "ring_size N \<longleftrightarrow> 0 < N \<and> N < 4294967296 \<and> N dvd 4294967296"

lemma ring_index_nat: "ring_size N \<Longrightarrow> ring_index N k = unat k mod N"
  by (simp add: ring_size_def ring_index_def unat_mod unat_of_nat_32)

lemma ring_index_less: "ring_size N \<Longrightarrow> ring_index N k < N"
  by (simp add: ring_index_nat) (simp add: ring_size_def)

lemma ring_index_add:
  "ring_size N \<Longrightarrow> j < N \<Longrightarrow> ring_index N (r + of_nat j) = (unat r + j) mod N"
  by (simp add: ring_index_nat unat_add_32) (simp add: ring_size_def unat_of_nat_32 mod_mod_cancel)

text \<open>Two of the first \<open>N\<close> slots from \<open>r\<close> are different.\<close>

lemma ring_index_inj:
  assumes "ring_size N" "i < N" "j < N"
    and "ring_index N (r + of_nat i) = ring_index N (r + of_nat j)"
  shows "i = j"
proof -
  have "(unat r + i) mod N = (unat r + j) mod N"
    using assms by (simp add: ring_index_add)
  then have "i mod N = j mod N" by (simp add: nat_mod_eq_iff)
  then show ?thesis using assms(2,3) by simp
qed

section \<open>Writing and reading a slot\<close>

lemma ring_put_length:
  assumes "ring_size N" "unat (w - r) < N"
  shows "unat (w + 1 - r :: 32 word) = Suc (unat (w - r))"
proof -
  have "w + 1 - r = (w - r) + 1" by simp
  also have "unat \<dots> = Suc (unat (w - r))"
    using assms by (subst unat_add_32) (simp add: ring_size_def)
  finally show ?thesis .
qed

lemma ring_get_length:
  assumes "r \<noteq> w"
  shows "unat (w - r :: 32 word) = Suc (unat (w - (r + 1)))"
proof -
  have "w - r \<noteq> 0" using assms by simp
  then have "unat ((w - r) - 1) = unat (w - r) - 1" "unat (w - r) \<noteq> 0"
    by (simp_all only: unat_minus_one unat_eq_0 not_False_eq_True)
  moreover have "(w - r) - 1 = w - (r + 1)" by simp
  ultimately show ?thesis by simp
qed

lemma ring_put:
  assumes N: "ring_size N" "length buf = N" and room: "unat (w - r) < N"
  shows "ring_list N (buf[ring_index N w := x]) r (w + 1) = ring_list N buf r w @ [x]"
proof -
  let ?n = "unat (w - r)"
  define n where "n = ?n"
  have w: "ring_index N w = ring_index N (r + of_nat n)" by (simp add: n_def)
  have lt: "n < N" using room by (simp add: n_def)
  have "buf[ring_index N w := x] ! ring_index N (r + of_nat j) =
      (if j = n then x else buf ! ring_index N (r + of_nat j))" if "j \<le> n" for j
  proof (cases "j = n")
    case True
    with ring_index_less [OF N(1)] N(2) w show ?thesis by simp
  next
    case False
    then have "ring_index N w \<noteq> ring_index N (r + of_nat j)"
      using ring_index_inj [OF N(1) lt, of j r] that lt w by auto
    with False show ?thesis by simp
  qed
  then show ?thesis
    using ring_put_length [OF N(1) room] by (simp add: ring_list_def flip: n_def)
qed

lemma ring_get:
  assumes "r \<noteq> w"
  shows "ring_list N buf r w = buf ! ring_index N r # ring_list N buf (r + 1) w"
  unfolding ring_list_def ring_get_length [OF assms]
  by (simp add: upt_conv_Cons map_Suc_upt [symmetric] add.assoc del: upt_Suc)

lemma ring_empty [simp]: "ring_list N buf r r = []"
  by (simp add: ring_list_def)

section \<open>The queue a ring buffer implements\<close>

datatype 'a qop = Put 'a | Get

primrec put_values :: "'a qop list \<Rightarrow> 'a list" where
  "put_values [] = []"
| "put_values (q # ops) = (case q of Put x \<Rightarrow> x # put_values ops | Get \<Rightarrow> put_values ops)"

locale fifo =
  fixes inv :: "'s \<Rightarrow> bool"
    and contents :: "'s \<Rightarrow> 'a list"
    and cap :: nat
    and put :: "'a \<Rightarrow> 's \<Rightarrow> 's"
    and get :: "'s \<Rightarrow> 'a \<times> 's"
  assumes put_law: "inv s \<Longrightarrow> length (contents s) < cap \<Longrightarrow>
      inv (put x s) \<and> contents (put x s) = contents s @ [x]"
    and get_law: "inv s \<Longrightarrow> contents s \<noteq> [] \<Longrightarrow>
      inv (snd (get s)) \<and> contents s = fst (get s) # contents (snd (get s))"
    and cap_law: "inv s \<Longrightarrow> length (contents s) \<le> cap"
begin

text \<open>A sequence of operations: the values read, or \<open>None\<close> when one finds the buffer full or empty.\<close>

primrec run_ops :: "'a qop list \<Rightarrow> 's \<Rightarrow> ('a list \<times> 's) option" where
  "run_ops [] s = Some ([], s)"
| "run_ops (q # ops) s = (case q of
     Put x \<Rightarrow> if length (contents s) < cap then run_ops ops (put x s) else None
   | Get \<Rightarrow> if contents s = [] then None
       else map_option (\<lambda>(out, t). (fst (get s) # out, t)) (run_ops ops (snd (get s))))"

lemma fifo_order:
  "inv s \<Longrightarrow> run_ops ops s = Some (out, t) \<Longrightarrow>
     inv t \<and> contents s @ put_values ops = out @ contents t"
proof (induction ops arbitrary: s out)
  case (Cons q ops)
  show ?case
  proof (cases q)
    case (Put x)
    with Cons.prems have "length (contents s) < cap" "run_ops ops (put x s) = Some (out, t)"
      by (auto split: if_splits)
    with Cons.IH [of "put x s" out] put_law [OF Cons.prems(1)] Put show ?thesis by simp
  next
    case Get
    with Cons.prems obtain out' where o: "contents s \<noteq> []" "run_ops ops (snd (get s)) = Some (out', t)"
      "out = fst (get s) # out'"
      by (auto split: if_splits)
    then have g: "inv (snd (get s))" "contents s = fst (get s) # contents (snd (get s))"
      using get_law [OF Cons.prems(1)] by blast+
    with Cons.IH [OF g(1) o(2)] Get o(3) show ?thesis
      by (subst g(2)) simp
  qed
qed simp

end

end
