(* ===== verification/CString.thy ===== *)
theory CString
  imports Prelude
begin

text \<open>
  \<open>kernel/string.c\<close>: the kernel's byte and string routines over the byte-addressed
  memory. Pointers are 64-bit addresses, \<open>uint n\<close> is a 32-bit word, \<open>int n\<close> a
  mathematical integer; each loop of the C code is one recursive function.
\<close>

section \<open>memset\<close>

function memset_loop :: "memory \<Rightarrow> addr \<Rightarrow> byte \<Rightarrow> nat \<Rightarrow> nat \<Rightarrow> memory" where
  "memset_loop m cdst c i n =
     (if i < n then memset_loop (m(cdst + of_nat i := c)) cdst c (Suc i) n else m)"
  by pat_completeness auto
termination
  by (relation "measure (\<lambda>(m, cdst, c, i, n). n - i)") auto

declare memset_loop.simps [simp del]

definition memset :: "memory \<Rightarrow> addr \<Rightarrow> uint32 \<Rightarrow> uint32 \<Rightarrow> memory" where
  "memset m dst c n = memset_loop m dst (ucast c) 0 (unat n)"

section \<open>memcmp\<close>

fun memcmp_loop :: "memory \<Rightarrow> addr \<Rightarrow> addr \<Rightarrow> nat \<Rightarrow> int" where
  "memcmp_loop m s1 s2 0 = 0"
| "memcmp_loop m s1 s2 (Suc n) =
     (if m s1 \<noteq> m s2 then uint (m s1) - uint (m s2)
      else memcmp_loop m (s1 + 1) (s2 + 1) n)"

definition memcmp :: "memory \<Rightarrow> addr \<Rightarrow> addr \<Rightarrow> uint32 \<Rightarrow> int" where
  "memcmp m v1 v2 n = memcmp_loop m v1 v2 (unat n)"

section \<open>memmove\<close>

fun memmove_down :: "memory \<Rightarrow> addr \<Rightarrow> addr \<Rightarrow> nat \<Rightarrow> memory" where
  "memmove_down m d s 0 = m"
| "memmove_down m d s (Suc n) = memmove_down (m(d - 1 := m (s - 1))) (d - 1) (s - 1) n"

fun memmove_up :: "memory \<Rightarrow> addr \<Rightarrow> addr \<Rightarrow> nat \<Rightarrow> memory" where
  "memmove_up m d s 0 = m"
| "memmove_up m d s (Suc n) = memmove_up (m(d := m s)) (d + 1) (s + 1) n"

definition memmove :: "memory \<Rightarrow> addr \<Rightarrow> addr \<Rightarrow> uint32 \<Rightarrow> memory" where
  "memmove m dst src n =
     (if n = 0 then m
      else if src < dst \<and> src + ucast n > dst
        then memmove_down m (dst + ucast n) (src + ucast n) (unat n)
        else memmove_up m dst src (unat n))"

definition memcpy :: "memory \<Rightarrow> addr \<Rightarrow> addr \<Rightarrow> uint32 \<Rightarrow> memory" where
  "memcpy m dst src n = memmove m dst src n"

section \<open>strncmp, strncpy, safestrcpy, strlen\<close>

fun strncmp_loop :: "memory \<Rightarrow> addr \<Rightarrow> addr \<Rightarrow> nat \<Rightarrow> int" where
  "strncmp_loop m p q n =
     (if n > 0 \<and> m p \<noteq> 0 \<and> m p = m q then strncmp_loop m (p + 1) (q + 1) (n - 1)
      else if n = 0 then 0
      else uint (m p) - uint (m q))"

declare strncmp_loop.simps [simp del]

definition strncmp :: "memory \<Rightarrow> addr \<Rightarrow> addr \<Rightarrow> uint32 \<Rightarrow> int" where
  "strncmp m p q n = strncmp_loop m p q (unat n)"

fun zero_fill :: "memory \<Rightarrow> addr \<Rightarrow> nat \<Rightarrow> memory" where
  "zero_fill m s 0 = m"
| "zero_fill m s (Suc n) = zero_fill (m(s := 0)) (s + 1) n"

fun strncpy_loop :: "memory \<Rightarrow> addr \<Rightarrow> addr \<Rightarrow> nat \<Rightarrow> memory" where
  "strncpy_loop m s t 0 = m"
| "strncpy_loop m s t (Suc n) =
     (if m t \<noteq> 0 then strncpy_loop (m(s := m t)) (s + 1) (t + 1) n
      else zero_fill (m(s := m t)) (s + 1) n)"

definition strncpy :: "memory \<Rightarrow> addr \<Rightarrow> addr \<Rightarrow> int \<Rightarrow> memory" where
  "strncpy m s t n = strncpy_loop m s t (nat n)"

text \<open>
  \<open>while(--n > 0 && (*s++ = *t++) != 0); *s = 0;\<close>: the argument \<open>k\<close> is the value
  of \<open>n\<close> after the decrement; after copying the NUL the pointer has moved past it.
\<close>

fun safestrcpy_loop :: "memory \<Rightarrow> addr \<Rightarrow> addr \<Rightarrow> nat \<Rightarrow> memory" where
  "safestrcpy_loop m s t 0 = m(s := 0)"
| "safestrcpy_loop m s t (Suc k) =
     (if m t \<noteq> 0 then safestrcpy_loop (m(s := m t)) (s + 1) (t + 1) k
      else (m(s := m t))(s + 1 := 0))"

definition safestrcpy :: "memory \<Rightarrow> addr \<Rightarrow> addr \<Rightarrow> int \<Rightarrow> memory" where
  "safestrcpy m s t n = (if n \<le> 0 then m else safestrcpy_loop m s t (nat (n - 1)))"

partial_function (option) strlen_loop :: "memory \<Rightarrow> addr \<Rightarrow> nat \<Rightarrow> nat option" where
  "strlen_loop m s n = (if m (s + of_nat n) \<noteq> 0 then strlen_loop m s (Suc n) else Some n)"

definition strlen :: "memory \<Rightarrow> addr \<Rightarrow> nat option" where
  "strlen m s = strlen_loop m s 0"

section \<open>What the loops compute\<close>

lemma unat_offset_eq_iff:
  fixes x a :: addr
  assumes "i < 18446744073709551616"
  shows "x = a + of_nat i \<longleftrightarrow> unat (x - a) = i"
proof
  assume "unat (x - a) = i"
  then have "x - a = of_nat i" by (metis of_nat_unat_64)
  then show "x = a + of_nat i" by (simp add: algebra_simps)
qed (use assms in \<open>simp add: unat_of_nat_64\<close>)

lemma memset_loop_apply:
  assumes "n < 18446744073709551616"
  shows "memset_loop m a c i n x =
    (if i \<le> unat (x - a) \<and> unat (x - a) < n then c else m x)"
  using assms
proof (induction m a c i n rule: memset_loop.induct)
  case (1 m a c i n)
  show ?case
  proof (cases "i < n")
    case True
    have "memset_loop m a c i n x =
        (if Suc i \<le> unat (x - a) \<and> unat (x - a) < n then c else (m(a + of_nat i := c)) x)"
      by (simp only: memset_loop.simps [of m a c i n] True if_True "1.IH" [OF True "1.prems"])
    also have "(m(a + of_nat i := c)) x = (if unat (x - a) = i then c else m x)"
      using True 1 by (simp add: unat_offset_eq_iff)
    finally show ?thesis using True by auto
  next
    case False
    then show ?thesis by (subst memset_loop.simps) auto
  qed
qed

lemma memset_apply:
  "memset m a c n x = (if in_range x a (unat n) then ucast c else m x)"
  using unat_32_less [of n] by (simp add: memset_def memset_loop_apply in_range_def)

text \<open>
  Copying upwards is right unless a destination byte is a source byte read later, copying
  downwards unless it is one read later in the other direction. Stated modulo the address
  space, so that nothing is assumed about wrap-around.
\<close>

lemma memmove_up_apply:
  assumes "n \<le> 18446744073709551616" "\<not> (0 < unat (d - s) \<and> unat (d - s) < n)"
  shows "memmove_up m d s n x = (if unat (x - d) < n then m (x + (s - d)) else m x)"
  using assms
proof (induction n arbitrary: m d s)
  case 0
  then show ?case by simp
next
  case (Suc n)
  let ?m = "m(d := m s)"
  have e: "d + 1 - (s + 1) = d - s" "s + 1 - (d + 1) = s - d" by simp_all
  have IH: "memmove_up ?m (d + 1) (s + 1) n x =
      (if unat (x - (d + 1)) < n then ?m (x + (s - d)) else ?m x)"
    by (rule Suc.IH [of "d + 1" "s + 1" ?m, unfolded e]) (use Suc.prems in auto)
  show ?case
  proof (cases "x = d")
    case True
    have "unat (x - (d + 1)) = 18446744073709551615" using True by (simp add: unsigned_minus_1_eq_mask mask_eq_exp_minus_1)
    with Suc.prems(1) IH True show ?thesis by simp
  next
    case False
    then have u: "unat (x - (d + 1)) = unat (x - d) - 1" "0 < unat (x - d)"
      using unat_minus_one [of "x - d"] by (simp_all add: unat_gt_0 diff_diff_eq)
    have "x + (s - d) \<noteq> d" if "unat (x - d) < Suc n"
    proof
      assume "x + (s - d) = d"
      then have "x - d = d - s" by (simp add: algebra_simps)
      with Suc.prems(2) u(2) that show False by simp
    qed
    with IH False u show ?thesis by auto
  qed
qed

lemma memmove_down_apply:
  assumes "n \<le> 18446744073709551616" "\<not> (0 < unat (s - d) \<and> unat (s - d) < n)"
  shows "memmove_down m d s n x = (if unat (d - 1 - x) < n then m (x + (s - d)) else m x)"
  using assms
proof (induction n arbitrary: m d s)
  case 0
  then show ?case by simp
next
  case (Suc n)
  let ?m = "m(d - 1 := m (s - 1))"
  have e: "s - 1 - (d - 1) = s - d" by simp
  have IH: "memmove_down ?m (d - 1) (s - 1) n x =
      (if unat (d - 1 - 1 - x) < n then ?m (x + (s - d)) else ?m x)"
    by (rule Suc.IH [of "s - 1" "d - 1" ?m, unfolded e]) (use Suc.prems in auto)
  show ?case
  proof (cases "x = d - 1")
    case True
    have "unat (d - 1 - 1 - x) = 18446744073709551615" using True by (simp add: unsigned_minus_1_eq_mask mask_eq_exp_minus_1)
    with Suc.prems(1) IH True show ?thesis by simp
  next
    case False
    then have ne: "d - 1 - x \<noteq> 0" by auto
    have u: "unat (d - 1 - 1 - x) = unat (d - 1 - x) - 1" "0 < unat (d - 1 - x)"
      using unat_minus_one [OF ne] ne by (simp_all add: unat_gt_0 algebra_simps)
    have "x + (s - d) \<noteq> d - 1" if "unat (d - 1 - x) < Suc n"
    proof
      assume "x + (s - d) = d - 1"
      then have "d - 1 - x = s - d" by (simp add: algebra_simps)
      with Suc.prems(2) u(2) that show False by simp
    qed
    with IH False u show ?thesis by auto
  qed
qed

lemma unat_ucast_32_64 [simp]: "unat (ucast (n :: uint32) :: uint64) = unat n"
  by (simp add: unsigned_ucast_eq take_bit_eq_mod) (use unat_32_less [of n] in simp)

lemma load_bytes_at:
  "unat (x - d) < n \<Longrightarrow> load_bytes m s n ! unat (x - d) = m (x + (s - d))"
  by (simp add: algebra_simps)

lemma memmove_eq:
  assumes "unat src + unat n < 18446744073709551616"
  shows "memmove m dst src n = store_bytes m dst (load_bytes m src (unat n))"
proof -
  have n: "unat n < 4294967296" by (rule unat_32_less)
  have end_src: "unat (src + ucast n) = unat src + unat n"
    using assms by (simp add: unat_add_64)
  show ?thesis
  proof (rule ext)
    fix x
    have rhs: "store_bytes m dst (load_bytes m src (unat n)) x =
        (if unat (x - dst) < unat n then m (x + (src - dst)) else m x)"
      by (simp add: store_bytes_def load_bytes_at del: nth_load_bytes)
    show "memmove m dst src n x = store_bytes m dst (load_bytes m src (unat n)) x"
    proof (cases "src < dst \<and> src + ucast n > dst")
      case True
      then have lt: "unat src < unat dst" "unat dst < unat src + unat n"
        using end_src by (simp_all add: word_less_nat_alt)
      let ?d = "dst + ucast n" and ?s = "src + ucast n"
      have e: "?s - ?d = src - dst" by simp
      have "\<not> (0 < unat (?s - ?d) \<and> unat (?s - ?d) < unat n)"
        using lt n unat_64_less [of src] unat_64_less [of dst] unfolding e unat_sub_64 by simp
      then have "memmove_down m ?d ?s (unat n) x =
          (if unat (?d - 1 - x) < unat n then m (x + (src - dst)) else m x)"
        using memmove_down_apply [of "unat n" ?s ?d m x] n unfolding e by simp
      moreover have "unat (?d - 1 - x) < unat n \<longleftrightarrow> unat (x - dst) < unat n"
      proof -
        have "?d - 1 - x = ucast n - 1 - (x - dst)" by simp
        moreover have "unat (ucast n - 1 :: uint64) = unat n - 1"
          using lt n by (subst unat_sub_64) auto
        ultimately have d: "unat (?d - 1 - x) = (if unat (x - dst) \<le> unat n - 1 then unat n - 1 - unat (x - dst)
            else unat n - 1 + 18446744073709551616 - unat (x - dst))"
          by (simp only: unat_sub_64)
        have "unat (x - dst) < 18446744073709551616" by (rule unat_64_less)
        moreover have "0 < unat n" using lt by simp
        moreover have "(if w \<le> N - 1 then N - 1 - w else N - 1 + 18446744073709551616 - w) < N \<longleftrightarrow> w < N"
          if "w < 18446744073709551616" "0 < N" for w N :: nat
          using that by (cases "w \<le> N - 1") (simp_all, linarith+)
        ultimately show ?thesis unfolding d by blast
      qed
      moreover have "n \<noteq> 0" using lt by auto
      ultimately show ?thesis using True rhs by (simp add: memmove_def)
    next
      case False
      then have "\<not> (0 < unat (dst - src) \<and> unat (dst - src) < unat n)"
        using end_src assms unat_64_less [of dst] unfolding unat_sub_64
        by (auto simp: word_less_nat_alt not_less)
      then have "memmove_up m dst src (unat n) x =
          (if unat (x - dst) < unat n then m (x + (src - dst)) else m x)"
        using n by (intro memmove_up_apply) auto
      with False rhs show ?thesis by (auto simp: memmove_def)
    qed
  qed
qed

section \<open>C strings\<close>

text \<open>The string at \<open>p\<close>, read up to its NUL and at most \<open>n\<close> bytes.\<close>

definition cstr :: "memory \<Rightarrow> addr \<Rightarrow> nat \<Rightarrow> byte list" where
  "cstr m p n = takeWhile (\<lambda>b. b \<noteq> 0) (load_bytes m p n)"

lemma load_bytes_Suc: "load_bytes m p (Suc n) = m p # load_bytes m (p + 1) n"
  by (simp add: load_bytes_def upt_conv_Cons ac_simps flip: map_Suc_upt del: upt_Suc)

lemma cstr_0 [simp]: "cstr m p 0 = []"
  by (simp add: cstr_def load_bytes_def)

lemma cstr_Suc: "cstr m p (Suc n) = (if m p = 0 then [] else m p # cstr m (p + 1) n)"
  by (simp add: cstr_def load_bytes_Suc)

lemma strncmp_loop_0: "strncmp_loop m p q n = 0 \<longleftrightarrow> cstr m p n = cstr m q n"
proof (induction n arbitrary: p q)
  case 0
  show ?case by (subst strncmp_loop.simps) simp
next
  case (Suc n)
  show ?case
  proof (cases "m p \<noteq> 0 \<and> m p = m q")
    case True
    with Suc show ?thesis by (subst strncmp_loop.simps) (simp add: cstr_Suc)
  next
    case False
    then have "strncmp_loop m p q (Suc n) = uint (m p) - uint (m q)"
      by (subst strncmp_loop.simps) auto
    moreover have "uint (m p) - uint (m q) = 0 \<longleftrightarrow> m p = m q"
      by (simp add: word_uint_eq_iff)
    ultimately show ?thesis using False by (auto simp: cstr_Suc simp del: eq_iff_diff_eq_0)
  qed
qed

text \<open>Source and destination of a string copy do not overlap.\<close>

definition apart :: "addr \<Rightarrow> addr \<Rightarrow> nat \<Rightarrow> bool" where
  "apart s t n \<longleftrightarrow> (\<forall>i<n. \<forall>j<n. s + of_nat i \<noteq> t + of_nat j)"

lemma apart_Suc:
  assumes "apart s t (Suc n)"
  shows "apart (s + 1) (t + 1) n" "j \<le> n \<Longrightarrow> t + of_nat j \<noteq> s" "j < n \<Longrightarrow> t + 1 + of_nat j \<noteq> s"
proof -
  have a: "s + of_nat i \<noteq> t + of_nat j" if "i \<le> n" "j \<le> n" for i j
    using assms that by (auto simp: apart_def less_Suc_eq_le)
  show "apart (s + 1) (t + 1) n"
    unfolding apart_def using a [of "Suc i" "Suc j" for i j] by (auto simp: ac_simps)
  show "j \<le> n \<Longrightarrow> t + of_nat j \<noteq> s" using a [of 0 j] by auto
  show "j < n \<Longrightarrow> t + 1 + of_nat j \<noteq> s" using a [of 0 "Suc j"] by (auto simp: ac_simps)
qed

lemma cstr_cong: "(\<And>j. j < n \<Longrightarrow> m' (t + of_nat j) = m (t + of_nat j)) \<Longrightarrow> cstr m' t n = cstr m t n"
  unfolding cstr_def by (metis load_bytes_cong)

lemma in_range_Suc:
  assumes "n < 18446744073709551616"
  shows "in_range x a (Suc n) \<longleftrightarrow> x = a \<or> in_range x (a + 1) n"
proof (cases "x = a")
  case False
  then have "unat (x - (a + 1)) = unat (x - a) - 1" "0 < unat (x - a)"
    using unat_minus_one [of "x - a"] by (simp_all add: unat_gt_0 diff_diff_eq)
  then show ?thesis using False by (auto simp: in_range_def)
qed (simp add: in_range_def)

lemma not_in_range_next: "n < 18446744073709551616 \<Longrightarrow> \<not> in_range a (a + 1) n"
  by (simp add: in_range_def unsigned_minus_1_eq_mask mask_eq_exp_minus_1)

lemma zero_fill_apply:
  "n < 18446744073709551616 \<Longrightarrow> zero_fill m s n x = (if in_range x s n then 0 else m x)"
proof (induction n arbitrary: m s)
  case 0
  show ?case by (simp add: in_range_def)
next
  case (Suc n)
  then show ?case by (auto simp: in_range_Suc)
qed

lemma strncpy_loop_outside:
  "n < 18446744073709551616 \<Longrightarrow> \<not> in_range x s n \<Longrightarrow> strncpy_loop m s t n x = m x"
  by (induction n arbitrary: m s t) (auto simp: in_range_Suc zero_fill_apply)

lemma load_bytes_zero: "(\<And>j. j < n \<Longrightarrow> m (s + of_nat j) = 0) \<Longrightarrow> load_bytes m s n = replicate n 0"
  by (auto simp: load_bytes_def intro!: nth_equalityI)

lemma in_range_offset: "j < n \<Longrightarrow> n < 18446744073709551616 \<Longrightarrow> in_range (s + of_nat j) s n"
  by (simp add: in_range_def unat_of_nat_64)

lemma strncpy_loop_bytes:
  "n < 18446744073709551616 \<Longrightarrow> apart s t n \<Longrightarrow>
   load_bytes (strncpy_loop m s t n) s n = cstr m t n @ replicate (n - length (cstr m t n)) 0"
proof (induction n arbitrary: m s t)
  case 0
  show ?case by (simp add: load_bytes_def)
next
  case (Suc n)
  note ap = apart_Suc [OF Suc.prems(2)]
  define m' where "m' = m(s := m t)"
  have n: "n < 18446744073709551616" using Suc.prems(1) by simp
  have tl: "cstr m' (t + 1) n = cstr m (t + 1) n"
    by (rule cstr_cong) (use ap(3) in \<open>auto simp: m'_def\<close>)
  show ?case
  proof (cases "m t = 0")
    case True
    have "load_bytes (zero_fill m' (s + 1) n) (s + 1) n = replicate n 0"
      by (rule load_bytes_zero) (simp add: zero_fill_apply n in_range_offset)
    moreover have "zero_fill m' (s + 1) n s = 0"
      using True n by (simp add: zero_fill_apply not_in_range_next m'_def)
    moreover have "m(s := 0) = m'" using True by (simp add: m'_def)
    ultimately show ?thesis
      using True by (simp add: load_bytes_Suc cstr_Suc)
  next
    case False
    have "strncpy_loop m' (s + 1) (t + 1) n s = m t"
      using n by (simp add: strncpy_loop_outside not_in_range_next m'_def)
    then show ?thesis
      using False Suc.IH [OF n ap(1), of m'] tl by (simp add: load_bytes_Suc cstr_Suc flip: m'_def)
  qed
qed

lemma safestrcpy_loop_outside:
  "k < 18446744073709551615 \<Longrightarrow> \<not> in_range x s (Suc k) \<Longrightarrow> safestrcpy_loop m s t k x = m x"
  by (induction k arbitrary: m s t) (auto simp: in_range_Suc)

lemma safestrcpy_loop_cstr:
  "k < 18446744073709551615 \<Longrightarrow> apart s t (Suc k) \<Longrightarrow>
   cstr (safestrcpy_loop m s t k) s (Suc k) = cstr m t k"
proof (induction k arbitrary: m s t)
  case 0
  show ?case by (simp add: cstr_Suc)
next
  case (Suc k)
  note ap = apart_Suc [OF Suc.prems(2)]
  define m' where "m' = m(s := m t)"
  have k: "k < 18446744073709551615" using Suc.prems(1) by simp
  have tl: "cstr m' (t + 1) k = cstr m (t + 1) k"
    by (rule cstr_cong) (use ap(3) in \<open>auto simp: m'_def\<close>)
  show ?case
  proof (cases "m t = 0")
    case True
    then show ?thesis by (simp add: cstr_Suc)
  next
    case False
    have "safestrcpy_loop m' (s + 1) (t + 1) k s = m t"
      using k not_in_range_next [of "Suc k" s] by (simp add: safestrcpy_loop_outside m'_def)
    then show ?thesis
      using False Suc.IH [OF k ap(1), of m'] tl by (simp add: cstr_Suc [of _ s] cstr_Suc [of m t] flip: m'_def)
  qed
qed

lemma strlen_loop_found:
  assumes "\<And>j. n \<le> j \<Longrightarrow> j < k \<Longrightarrow> m (s + of_nat j) \<noteq> 0" "m (s + of_nat k) = 0" "n \<le> k"
  shows "strlen_loop m s n = Some k"
  using assms
proof (induction "k - n" arbitrary: n)
  case 0
  then show ?case by (subst strlen_loop.simps) auto
next
  case (Suc d)
  then have "strlen_loop m s (Suc n) = Some k" by auto
  with Suc show ?case by (subst strlen_loop.simps) auto
qed

section \<open>Properties\<close>

text \<open>C40: \<open>memmove\<close> copies as if through a buffer: whatever the overlap of the two ranges, the
  destination ends up with the bytes the source had at the call and no other byte changes. Only the
  end of the source may not pass the top of the address space.\<close>

theorem memmove_copies:
  assumes "unat src + unat n < 18446744073709551616"
  shows "memmove m dst src n = store_bytes m dst (load_bytes m src (unat n))"
  using assms by (rule memmove_eq)

theorem memmove_copies_witness:
  "memmove (\<lambda>a. ucast a) 102 100 4 = store_bytes (\<lambda>a. ucast a) 102 [100, 101, 102, 103]"
proof -
  have "load_bytes (\<lambda>a. ucast a) 100 4 = [100, 101, 102, 103 :: byte]" by (simp add: load_bytes_def upt_rec)
  then show ?thesis using memmove_copies [of 100 4 "\<lambda>a. ucast a" 102] by simp
qed

text \<open>\<open>safestrcpy\<close> with a positive \<open>n\<close> writes only inside the \<open>n\<close> bytes of its destination,
  always terminates the copy there, and the copy is the source string cut off after \<open>n - 1\<close>
  characters; with \<open>n \<le> 0\<close> it writes nothing.\<close>

theorem safestrcpy_bounded:
  assumes "n < 2 ^ 31" "apart s t (nat n)"
  shows "(n \<le> 0 \<longrightarrow> safestrcpy m s t n = m) \<and>
     (\<forall>x. \<not> in_range x s (nat n) \<longrightarrow> safestrcpy m s t n x = m x) \<and>
     (0 < n \<longrightarrow> cstr (safestrcpy m s t n) s (nat n) = cstr m t (nat n - 1))"
proof (cases "n \<le> 0")
  case False
  then obtain k where k: "nat n = Suc k" "nat (n - 1) = k" "k < 18446744073709551615"
    using assms(1) by (cases "nat n") auto
  then show ?thesis
    using False safestrcpy_loop_outside [of k] safestrcpy_loop_cstr [of k s t m] assms(2) by (simp add: safestrcpy_def)
qed (simp add: safestrcpy_def)

theorem safestrcpy_bounded_witness:
  "cstr (safestrcpy (\<lambda>a. if a < 105 then ucast a else 0) 200 100 4) 200 4 = [100, 101, 102]"
proof -
  let ?m = "\<lambda>a :: addr. if a < 105 then ucast a else 0 :: byte"
  have c: "i = 0 \<or> i = 1 \<or> i = 2 \<or> i = 3" if "i < 4" for i :: nat using that by auto
  have a: "apart 200 100 (nat 4)" unfolding apart_def by (auto dest!: c)
  have "cstr ?m 100 (nat 4 - 1) = [100, 101, 102]" by (simp add: cstr_Suc numeral_3_eq_3)
  then show ?thesis using safestrcpy_bounded [of 4 200 100 ?m] a by simp
qed

end
