(* ===== verification/Riscv.thy ===== *)
theory Riscv
  imports Prelude
begin

text \<open>
  The constants and macros of \<open>kernel/riscv.h\<close>, \<open>kernel/memlayout.h\<close> and
  \<open>kernel/param.h\<close> that the memory system uses: page rounding, page-table entries,
  the three 9-bit indices of an Sv39 virtual address, and the address-space layout.
\<close>

section \<open>Constants\<close>

definition PGSIZE :: uint64 where "PGSIZE = 4096"
definition PGSHIFT :: nat where "PGSHIFT = 12"

definition PTE_V :: uint64 where "PTE_V = push_bit 0 1"
definition PTE_R :: uint64 where "PTE_R = push_bit 1 1"
definition PTE_W :: uint64 where "PTE_W = push_bit 2 1"
definition PTE_X :: uint64 where "PTE_X = push_bit 3 1"
definition PTE_U :: uint64 where "PTE_U = push_bit 4 1"

definition PXMASK :: uint64 where "PXMASK = 0x1FF"

definition MAXVA :: uint64 where "MAXVA = push_bit (9 + 9 + 9 + 12 - 1) 1"

definition KERNBASE :: uint64 where "KERNBASE = 0x80000000"
definition PHYSTOP :: uint64 where "PHYSTOP = KERNBASE + 128 * 1024 * 1024"
definition TRAMPOLINE :: uint64 where "TRAMPOLINE = MAXVA - PGSIZE"
definition TRAPFRAME :: uint64 where "TRAPFRAME = TRAMPOLINE - PGSIZE"
definition KSTACK :: "nat \<Rightarrow> uint64" where
  "KSTACK p = TRAMPOLINE - (of_nat p + 1) * 2 * PGSIZE"

definition NPROC :: nat where "NPROC = 64"
definition NOFILE :: nat where "NOFILE = 16"
definition NMMAP :: nat where "NMMAP = 64"
definition MMAPBASE :: uint64 where "MMAPBASE = 0x40000000"

lemmas pte_bits = PTE_V_def PTE_R_def PTE_W_def PTE_X_def PTE_U_def

section \<open>Macros\<close>

definition PGROUNDUP :: "uint64 \<Rightarrow> uint64" where
  "PGROUNDUP sz = (sz + PGSIZE - 1) AND NOT (PGSIZE - 1)"

definition PGROUNDDOWN :: "uint64 \<Rightarrow> uint64" where
  "PGROUNDDOWN a = a AND NOT (PGSIZE - 1)"

definition PA2PTE :: "uint64 \<Rightarrow> uint64" where
  "PA2PTE pa = push_bit 10 (drop_bit 12 pa)"

definition PTE2PA :: "uint64 \<Rightarrow> uint64" where
  "PTE2PA pte = push_bit 12 (drop_bit 10 pte)"

definition PTE_FLAGS :: "uint64 \<Rightarrow> uint64" where
  "PTE_FLAGS pte = pte AND 0x3FF"

definition PXSHIFT :: "nat \<Rightarrow> nat" where
  "PXSHIFT level = PGSHIFT + 9 * level"

definition PX :: "nat \<Rightarrow> uint64 \<Rightarrow> uint64" where
  "PX level va = drop_bit (PXSHIFT level) va AND PXMASK"

section \<open>Numeric values\<close>

lemma PGSIZE_minus_1: "PGSIZE - 1 = mask 12"
  by (simp add: PGSIZE_def mask_eq_exp_minus_1)

lemma unat_PGSIZE [simp]: "unat PGSIZE = 4096"
  by (simp add: PGSIZE_def)

lemma unat_PHYSTOP: "unat PHYSTOP = 2281701376"
  by (simp add: PHYSTOP_def KERNBASE_def)

lemma MAXVA_eq: "MAXVA = 274877906944"
  by (simp add: MAXVA_def push_bit_eq_mult)

lemma unat_MAXVA: "unat MAXVA = 274877906944"
  by (simp add: MAXVA_eq)

section \<open>Alignment and rounding\<close>

definition page_aligned :: "addr \<Rightarrow> bool" where
  "page_aligned a \<longleftrightarrow> a mod PGSIZE = 0"

lemma page_aligned_iff: "page_aligned a \<longleftrightarrow> unat a mod 4096 = 0"
  by (simp add: page_aligned_def word_mod_eq_0_iff)

lemma page_aligned_bits: "page_aligned a \<longleftrightarrow> take_bit 12 a = 0"
  by (simp add: page_aligned_def PGSIZE_def take_bit_eq_mod)

lemma page_aligned_bit: "page_aligned a \<Longrightarrow> n < 12 \<Longrightarrow> \<not> bit a n"
  by (metis bit_take_bit_iff bit_0_eq bot_apply bot_bool_def page_aligned_bits)

lemma page_aligned_aligned8: "page_aligned a \<Longrightarrow> aligned8 a"
  unfolding page_aligned_iff aligned8_def mod_eq_0_iff_dvd by (rule dvd_trans) simp_all

lemma unat_PGROUNDDOWN: "unat (PGROUNDDOWN a) = unat a div 4096 * 4096"
  using unat_and_not_mask [of a 12] by (simp add: PGROUNDDOWN_def PGSIZE_minus_1)

lemma PGROUNDDOWN_aligned [simp]: "page_aligned (PGROUNDDOWN a)"
  by (simp add: page_aligned_iff unat_PGROUNDDOWN)

lemma PGROUNDDOWN_le: "PGROUNDDOWN a \<le> a"
  by (simp add: word_le_nat_alt unat_PGROUNDDOWN)

lemma PGROUNDDOWN_id: "page_aligned a \<Longrightarrow> PGROUNDDOWN a = a"
  by (simp add: word_unat_eq_iff unat_PGROUNDDOWN page_aligned_iff mod_eq_0_iff_dvd)

lemma unat_PGROUNDUP:
  assumes "unat a \<le> 18446744073709547520"
  shows "unat (PGROUNDUP a) = (unat a + 4095) div 4096 * 4096"
proof -
  have "PGROUNDUP a = PGROUNDDOWN (a + 4095)"
    by (simp add: PGROUNDUP_def PGROUNDDOWN_def PGSIZE_def add.commute)
  moreover have "unat (a + 4095) = unat a + 4095"
    using assms by (simp add: unat_add_64)
  ultimately show ?thesis by (simp add: unat_PGROUNDDOWN)
qed

lemma PGROUNDUP_aligned [simp]: "page_aligned (PGROUNDUP a)"
  unfolding PGROUNDUP_def PGROUNDDOWN_def [symmetric] by simp

section \<open>Page-table entries\<close>

lemma PTE2PA_aligned [simp]: "page_aligned (PTE2PA pte)"
  unfolding page_aligned_bits PTE2PA_def
  by (rule bit_word_eqI) (auto simp: bit_simps)

lemma take_bit_10_self: "(w :: uint64) < 1024 \<Longrightarrow> take_bit 10 w = w"
  using less_mask_eq [of w 10] by (simp add: take_bit_eq_mask)

lemma PTE2PA_PA2PTE:
  assumes "page_aligned pa" "flags < 1024"
  shows "PTE2PA (PA2PTE pa OR flags) = pa"
proof -
  have f: "take_bit 10 flags = flags"
    using assms(2) by (rule take_bit_10_self)
  have nf: "\<not> bit flags n" if "10 \<le> n" for n
    using f that by (metis bit_take_bit_iff leD)
  have hb: "12 \<le> n \<and> bit pa (12 + (n - 12))" if "bit pa n" for n
    using page_aligned_bit [OF assms(1), of n] that by (cases "n < 12") auto
  show ?thesis
    unfolding PTE2PA_def PA2PTE_def
    by (rule bit_word_eqI) (auto simp: bit_simps nf le_add_diff_inverse dest: hb)
qed

lemma PTE_FLAGS_PA2PTE:
  assumes "flags < 1024"
  shows "PTE_FLAGS (PA2PTE pa OR flags) = flags"
proof -
  have f: "take_bit 10 flags = flags"
    using assms by (rule take_bit_10_self)
  have m: "(0x3FF :: uint64) = mask 10" by (simp add: mask_eq_exp_minus_1)
  show ?thesis
    unfolding PTE_FLAGS_def m PA2PTE_def take_bit_eq_mask [symmetric]
    by (subst (2) f [symmetric], rule bit_word_eqI) (auto simp: bit_simps)
qed

lemma PTE_V_bit: "pte AND PTE_V \<noteq> 0 \<longleftrightarrow> bit pte 0"
  by (simp add: PTE_V_def and_one_eq odd_iff_mod_2_eq_one bit_0 flip: even_iff_mod_2_eq_zero)

section \<open>Page-table indices\<close>

lemma unat_PX: "unat (PX l va) = unat va div 2 ^ (12 + 9 * l) mod 512"
proof -
  have m: "PXMASK = mask 9" by (simp add: PXMASK_def mask_eq_exp_minus_1)
  show ?thesis
    unfolding PX_def m take_bit_eq_mask [symmetric] PXSHIFT_def PGSHIFT_def
    by (simp only: unsigned_take_bit_eq unat_drop_bit_eq) (simp add: take_bit_eq_mod drop_bit_eq_div)
qed

lemma PX_less: "unat (PX l va) < 512"
  by (simp add: unat_PX)

text \<open>Below \<open>MAXVA\<close> the three indices determine the page.\<close>

lemma PX_inject:
  assumes "va < MAXVA" "va' < MAXVA" "page_aligned va" "page_aligned va'"
    and "PX 2 va = PX 2 va'" "PX 1 va = PX 1 va'" "PX 0 va = PX 0 va'"
  shows "va = va'"
proof -
  have split: "unat v = (unat (PX 2 v) * 512 + unat (PX 1 v)) * 512 * 4096 + unat (PX 0 v) * 4096"
    if v: "v < MAXVA" "page_aligned v" for v
  proof -
    define a where "a = unat v div 4096"
    have n: "unat v = a * 4096"
      using v(2) by (simp add: a_def page_aligned_iff mod_eq_0_iff_dvd)
    have "a div 512 div 512 < 512"
      using v(1) n by (simp add: word_less_nat_alt unat_MAXVA)
    moreover have "a = (a div 512 div 512 * 512 + a div 512 mod 512) * 512 + a mod 512"
      by (simp only: div_mult_mod_eq)
    moreover have "unat v div 2097152 = a div 512" "unat v div 1073741824 = a div 512 div 512"
      by (simp_all add: a_def flip: div_mult2_eq)
    moreover have "a * 4096 = a div 512 * 2097152 + a mod 512 * 4096"
      using div_mult_mod_eq [of a 512] by linarith
    ultimately show ?thesis
      by (simp add: unat_PX n flip: a_def)
  qed
  show ?thesis
    using split [OF assms(1,3)] split [OF assms(2,4)] assms(5-7) by (simp add: word_unat_eq_iff)
qed

end
