(* ===== verification/Kalloc.thy ===== *)
theory Kalloc
  imports CString Riscv
begin

text \<open>
  \<open>kernel/kalloc.c\<close>: the physical page allocator. A free page holds the address of the
  next free page in its first eight bytes (\<open>struct run\<close>), so the free list lives in
  the modelled memory. Each page has a reference count; pages shared by \<open>fork\<close> through
  \<open>mmap\<close> have a count above one. Every function takes and releases \<open>kmem.lock\<close>
  around its whole body, so each is one atomic step of the model.

  \<open>kend\<close> is the linker symbol \<open>end\<close>, the first address after the kernel: a
  read-only field, no operation changes it.
\<close>

section \<open>State\<close>

record kmem =
  mem :: memory
  kend :: addr
  freelist :: addr
  free_pages :: int
  refcnt :: "nat \<Rightarrow> int"

section \<open>Operations\<close>

definition pa2idx :: "addr \<Rightarrow> nat" where
  "pa2idx pa = unat (pa div PGSIZE)"

definition bad_page :: "'a kmem_scheme \<Rightarrow> addr \<Rightarrow> bool" where
  "bad_page s pa \<longleftrightarrow> pa mod PGSIZE \<noteq> 0 \<or> pa < kend s \<or> pa \<ge> PHYSTOP"

text \<open>\<open>kfree\<close> drops one reference and puts the page on the free list with the last one.\<close>

definition kfree :: "addr \<Rightarrow> 'a kmem_scheme \<Rightarrow> 'a kmem_scheme outcome" where
  "kfree pa s =
     (if bad_page s pa then Panic ''kfree''
      else let idx = pa2idx pa in
        if refcnt s idx < 1 then Panic ''kfree: refcnt''
        else let s = s\<lparr>refcnt := (refcnt s)(idx := refcnt s idx - 1)\<rparr> in
          if refcnt s idx > 0 then Ok s
          else let s = s\<lparr>mem := memset (mem s) pa 1 4096\<rparr>;
                   s = s\<lparr>mem := store64 (mem s) pa (freelist s)\<rparr>
               in Ok (s\<lparr>freelist := pa, free_pages := free_pages s + 1\<rparr>))"

definition kalloc :: "'a kmem_scheme \<Rightarrow> addr \<times> 'a kmem_scheme" where
  "kalloc s =
     (let r = freelist s in
      if r \<noteq> 0 then
        let s = s\<lparr>freelist := load64 (mem s) r\<rparr>;
            s = s\<lparr>free_pages := free_pages s - 1\<rparr>;
            s = s\<lparr>refcnt := (refcnt s)(pa2idx r := 1)\<rparr>
        in (r, s\<lparr>mem := memset (mem s) r 5 4096\<rparr>)
      else (r, s))"

definition kaddref :: "addr \<Rightarrow> 'a kmem_scheme \<Rightarrow> 'a kmem_scheme outcome" where
  "kaddref pa s =
     (if bad_page s pa then Panic ''kaddref''
      else let idx = pa2idx pa in
        if refcnt s idx < 1 then Panic ''kaddref: refcnt''
        else Ok (s\<lparr>refcnt := (refcnt s)(idx := refcnt s idx + 1)\<rparr>))"

definition freemem :: "'a kmem_scheme \<Rightarrow> int" where
  "freemem s = free_pages s"

partial_function (option) meminfo_loop :: "memory \<Rightarrow> addr \<Rightarrow> uint64 \<Rightarrow> uint64 option" where
  "meminfo_loop m r bytes =
     (if r \<noteq> 0 then meminfo_loop m (load64 m r) (bytes + PGSIZE) else Some bytes)"

definition meminfo :: "'a kmem_scheme \<Rightarrow> uint64 option" where
  "meminfo s = meminfo_loop (mem s) (freelist s) 0"

lemma bad_page_update [simp]:
  "bad_page (s\<lparr>mem := m\<rparr>) = bad_page s" "bad_page (s\<lparr>freelist := f\<rparr>) = bad_page s"
  "bad_page (s\<lparr>free_pages := n\<rparr>) = bad_page s" "bad_page (s\<lparr>refcnt := c\<rparr>) = bad_page s"
  by (simp_all add: bad_page_def fun_eq_iff)

lemma kfree_Ok_below: "kfree pa s = Ok s' \<Longrightarrow> unat pa < 2281701376"
  by (auto simp: kfree_def bad_page_def word_le_nat_alt unat_PHYSTOP split: if_splits)

function freerange_loop :: "addr \<Rightarrow> addr \<Rightarrow> 'a kmem_scheme \<Rightarrow> 'a kmem_scheme outcome" where
  "freerange_loop p pa_end s =
     (if p + PGSIZE \<le> pa_end then
        bindO (kfree p (s\<lparr>refcnt := (refcnt s)(pa2idx p := 1)\<rparr>))
          (\<lambda>s. freerange_loop (p + PGSIZE) pa_end s)
      else Ok s)"
  by pat_completeness auto
termination
  by (relation "measure (\<lambda>(p, pa_end, s). 2281701376 - unat p)")
    (auto simp: unat_add_64 dest!: kfree_Ok_below)

declare freerange_loop.simps [simp del]

definition freerange :: "addr \<Rightarrow> addr \<Rightarrow> 'a kmem_scheme \<Rightarrow> 'a kmem_scheme outcome" where
  "freerange pa_start pa_end s = freerange_loop (PGROUNDUP pa_start) pa_end s"

definition kinit :: "'a kmem_scheme \<Rightarrow> 'a kmem_scheme outcome" where
  "kinit s = freerange (kend s) PHYSTOP s"

section \<open>Pages of memory\<close>

lemma page_offset_iff:
  fixes x k :: nat
  shows "4096 * k \<le> x \<Longrightarrow> x - 4096 * k < 4096 \<longleftrightarrow> x div 4096 = k"
  by (auto simp: div_nat_eqI less_diff_conv2)

lemma in_range_page:
  assumes "page_aligned p"
  shows "in_range x p 4096 \<longleftrightarrow> PGROUNDDOWN x = p"
proof -
  obtain k where k: "unat p = 4096 * k"
    using assms by (auto simp: page_aligned_iff)
  have p: "k < 4503599627370496" using unat_64_less [of p] k by simp
  have rhs: "PGROUNDDOWN x = p \<longleftrightarrow> unat x div 4096 = k"
    by (simp add: word_unat_eq_iff unat_PGROUNDDOWN k)
  show ?thesis
  proof (cases "unat p \<le> unat x")
    case True
    then show ?thesis
      unfolding rhs in_range_def unat_sub_64 by (simp add: k page_offset_iff)
  next
    case False
    then have "unat x div 4096 \<noteq> k"
      using k div_times_less_eq_dividend [of "unat x" 4096] by (metis mult.commute)
    moreover have "\<not> in_range x p 4096"
      using False p unfolding in_range_def unat_sub_64 by (simp add: k)
    ultimately show ?thesis by (simp add: rhs)
  qed
qed

lemma PGROUNDDOWN_add:
  assumes "aligned8 a" "i < 8"
  shows "PGROUNDDOWN (a + of_nat i) = PGROUNDDOWN a"
proof -
  have "unat a + i < 18446744073709551616"
    by (rule aligned8_add_less [OF assms])
  moreover have "(unat a + i) div 4096 = unat a div 4096"
  proof -
    obtain k where k: "unat a = 8 * k" using assms(1) by (auto simp: aligned8_def)
    have "n div 4096 = n div 8 div 512" for n :: nat by (simp flip: div_mult2_eq)
    with k assms(2) show ?thesis by simp
  qed
  ultimately show ?thesis
    by (simp add: word_unat_eq_iff unat_PGROUNDDOWN unat_add_64 unat_of_nat_64)
qed

text \<open>Two memories agree outside a set of pages.\<close>

definition agree_off :: "addr set \<Rightarrow> memory \<Rightarrow> memory \<Rightarrow> bool" where
  "agree_off P m m' \<longleftrightarrow> (\<forall>x. PGROUNDDOWN x \<notin> P \<longrightarrow> m' x = m x)"

lemma agree_off_refl [simp]: "agree_off P m m"
  by (simp add: agree_off_def)

lemma agree_off_trans: "agree_off P m m' \<Longrightarrow> agree_off Q m' m'' \<Longrightarrow> agree_off (P \<union> Q) m m''"
  by (auto simp: agree_off_def)

lemma agree_off_mono: "agree_off P m m' \<Longrightarrow> P \<subseteq> Q \<Longrightarrow> agree_off Q m m'"
  by (auto simp: agree_off_def)

lemma load64_agree_off:
  "agree_off P m m' \<Longrightarrow> aligned8 a \<Longrightarrow> PGROUNDDOWN a \<notin> P \<Longrightarrow> load64 m' a = load64 m a"
  by (rule load64_cong) (simp add: agree_off_def PGROUNDDOWN_add)

lemma agree_off_memset: "page_aligned p \<Longrightarrow> agree_off {p} m (memset m p c 4096)"
  by (simp add: agree_off_def memset_apply in_range_page)

lemma agree_off_store64: "aligned8 a \<Longrightarrow> agree_off {PGROUNDDOWN a} m (store64 m a v)"
proof (unfold agree_off_def, intro allI impI)
  fix x assume a: "aligned8 a" and x: "PGROUNDDOWN x \<notin> {PGROUNDDOWN a}"
  have "\<not> in_range x a 8"
  proof
    assume r: "in_range x a 8"
    then have "x = a + of_nat (unat (x - a))" by simp
    with r a have "PGROUNDDOWN x = PGROUNDDOWN a"
      by (metis PGROUNDDOWN_add in_range_def)
    with x show False by simp
  qed
  then show "store64 m a v x = m x" by (rule store64_outside)
qed

section \<open>The allocator's invariant\<close>

text \<open>\<open>flist m p ps\<close>: from \<open>p\<close> the \<open>next\<close> pointers in \<open>m\<close> chain the pages \<open>ps\<close>.\<close>

primrec flist :: "memory \<Rightarrow> addr \<Rightarrow> addr list \<Rightarrow> bool" where
  "flist m p [] \<longleftrightarrow> p = 0"
| "flist m p (a # ps) \<longleftrightarrow> p = a \<and> a \<noteq> 0 \<and> flist m (load64 m a) ps"

definition flist_inv :: "'a kmem_scheme \<Rightarrow> addr list \<Rightarrow> bool" where
  "flist_inv s ps \<longleftrightarrow>
     flist (mem s) (freelist s) ps \<and> distinct ps \<and> (\<forall>p\<in>set ps. \<not> bad_page s p) \<and>
     free_pages s = int (length ps) \<and> kend s \<noteq> 0"

text \<open>
  The allocator's invariant: the free list is a duplicate-free list of allocatable pages of
  the recorded length, and a page is on it exactly when its reference count is zero.
\<close>

definition kmem_inv :: "'a kmem_scheme \<Rightarrow> addr list \<Rightarrow> bool" where
  "kmem_inv s ps \<longleftrightarrow> flist_inv s ps \<and>
     (\<forall>p. \<not> bad_page s p \<longrightarrow>
        0 \<le> refcnt s (pa2idx p) \<and> (refcnt s (pa2idx p) = 0 \<longleftrightarrow> p \<in> set ps))"

lemma not_bad_page_aligned: "\<not> bad_page s p \<Longrightarrow> page_aligned p"
  by (simp add: bad_page_def page_aligned_def)

lemma bad_page_0: "kend s \<noteq> 0 \<Longrightarrow> bad_page s 0"
  by (simp add: bad_page_def word_gt_0)

lemma pa2idx_inject:
  assumes "page_aligned p" "page_aligned q" "pa2idx p = pa2idx q"
  shows "p = q"
proof -
  have "unat p div 4096 = unat q div 4096"
    using assms(3) by (simp add: pa2idx_def unat_div)
  with assms(1,2) show ?thesis
    by (metis page_aligned_iff div_mult_mod_eq word_unat_eq_iff)
qed

lemma pa2idx_eq_iff [simp]:
  "page_aligned p \<Longrightarrow> page_aligned q \<Longrightarrow> pa2idx p = pa2idx q \<longleftrightarrow> p = q"
  using pa2idx_inject by blast

lemma kmem_invI:
  assumes "flist_inv s ps"
    and "\<And>p. \<not> bad_page s p \<Longrightarrow> page_aligned p \<Longrightarrow>
       0 \<le> refcnt s (pa2idx p) \<and> (refcnt s (pa2idx p) = 0 \<longleftrightarrow> p \<in> set ps)"
  shows "kmem_inv s ps"
  using assms not_bad_page_aligned [of s] unfolding kmem_inv_def by blast

lemma kmem_invD:
  assumes "kmem_inv s ps"
  shows "flist_inv s ps"
    and "\<not> bad_page s p \<Longrightarrow> 0 \<le> refcnt s (pa2idx p)"
    and "\<not> bad_page s p \<Longrightarrow> refcnt s (pa2idx p) = 0 \<longleftrightarrow> p \<in> set ps"
  using assms unfolding kmem_inv_def by blast+

lemma flist_agree:
  assumes "flist m p ps" "agree_off P m m'" "\<And>q. q \<in> set ps \<Longrightarrow> page_aligned q \<and> q \<notin> P"
  shows "flist m' p ps"
  using assms(1,3)
proof (induction ps arbitrary: p)
  case (Cons a ps)
  then have "load64 m' a = load64 m a"
    by (intro load64_agree_off [OF assms(2)])
      (auto simp: page_aligned_aligned8 PGROUNDDOWN_id)
  with Cons show ?case by auto
qed simp

lemma kmem_inv_refcnt:
  assumes "kmem_inv s ps" "\<not> bad_page s p"
  shows "p \<notin> set ps \<Longrightarrow> 1 \<le> refcnt s (pa2idx p)" "p \<in> set ps \<Longrightarrow> refcnt s (pa2idx p) = 0"
  using assms by (auto simp: kmem_inv_def dest!: spec [of _ p])

subsection \<open>kalloc\<close>

lemma kalloc_Nil: "flist_inv s [] \<Longrightarrow> kalloc s = (0, s)"
  by (simp add: kalloc_def flist_inv_def)

lemma kalloc_Cons:
  assumes "flist_inv s (p # ps)"
  shows "kalloc s = (p, s\<lparr>freelist := load64 (mem s) p, free_pages := free_pages s - 1,
           refcnt := (refcnt s)(pa2idx p := 1), mem := memset (mem s) p 5 4096\<rparr>)"
  using assms by (simp add: kalloc_def flist_inv_def Let_def)

lemma kalloc_flist_inv:
  assumes "flist_inv s (p # ps)"
  shows "flist_inv (snd (kalloc s)) ps"
proof -
  have "page_aligned q \<and> q \<notin> {p}" if "q \<in> set ps" for q
    using assms that by (auto simp: flist_inv_def dest: not_bad_page_aligned)
  moreover have "page_aligned p"
    using assms by (auto simp: flist_inv_def dest: not_bad_page_aligned)
  ultimately have "flist (memset (mem s) p 5 4096) (load64 (mem s) p) ps"
    using assms by (intro flist_agree [OF _ agree_off_memset]) (auto simp: flist_inv_def)
  with assms show ?thesis
    by (simp add: kalloc_Cons) (simp add: flist_inv_def)
qed

lemma kalloc_kmem_inv:
  assumes "kmem_inv s (p # ps)"
  shows "kmem_inv (snd (kalloc s)) ps"
proof (rule kmem_invI)
  have fi: "flist_inv s (p # ps)" using assms by (rule kmem_invD)
  then show "flist_inv (snd (kalloc s)) ps" by (rule kalloc_flist_inv)
  fix q assume q: "\<not> bad_page (snd (kalloc s)) q" "page_aligned q"
  have p: "p \<notin> set ps" "page_aligned p"
    using fi by (auto simp: flist_inv_def dest: not_bad_page_aligned)
  from q have "\<not> bad_page s q" by (simp add: kalloc_Cons [OF fi])
  with kmem_invD(2,3) [OF assms, of q] p q
  show "0 \<le> refcnt (snd (kalloc s)) (pa2idx q) \<and>
      (refcnt (snd (kalloc s)) (pa2idx q) = 0 \<longleftrightarrow> q \<in> set ps)"
    by (auto simp: kalloc_Cons [OF fi])
qed

text \<open>The frame of \<open>kalloc\<close>: only the bytes of the returned page change.\<close>

lemma kalloc_frame:
  assumes "flist_inv s ps" "kalloc s = (r, s')"
  shows "agree_off {r} (mem s) (mem s') \<and> kend s' = kend s \<and> kmem.more s' = kmem.more s"
proof (cases ps)
  case Nil
  with assms show ?thesis by (simp add: kalloc_Nil)
next
  case (Cons p qs)
  with assms(1) have "page_aligned p" by (auto simp: flist_inv_def dest: not_bad_page_aligned)
  moreover have "r = p" "mem s' = memset (mem s) p 5 4096" "kend s' = kend s" "kmem.more s' = kmem.more s"
    using kalloc_Cons [OF assms(1) [unfolded Cons]] assms(2) by auto
  ultimately show ?thesis by (simp add: agree_off_memset)
qed

subsection \<open>kfree\<close>

lemma kfree_shared:
  assumes "\<not> bad_page s pa" "refcnt s (pa2idx pa) > 1"
  shows "kfree pa s = Ok (s\<lparr>refcnt := (refcnt s)(pa2idx pa := refcnt s (pa2idx pa) - 1)\<rparr>)"
  using assms by (simp add: kfree_def Let_def)

lemma kfree_last:
  assumes "\<not> bad_page s pa" "refcnt s (pa2idx pa) = 1"
  shows "kfree pa s = Ok (s\<lparr>refcnt := (refcnt s)(pa2idx pa := 0),
           mem := store64 (memset (mem s) pa 1 4096) pa (freelist s),
           freelist := pa, free_pages := free_pages s + 1\<rparr>)"
  using assms by (simp add: kfree_def Let_def)

lemma kfree_flist_inv:
  assumes "flist_inv s ps" "\<not> bad_page s pa" "refcnt s (pa2idx pa) = 1" "pa \<notin> set ps"
  shows "\<exists>s'. kfree pa s = Ok s' \<and> flist_inv s' (pa # ps)"
proof -
  have al: "page_aligned pa" using assms(2) by (rule not_bad_page_aligned)
  let ?m = "store64 (memset (mem s) pa 1 4096) pa (freelist s)"
  have "agree_off {pa} (memset (mem s) pa 1 4096) ?m"
    using agree_off_store64 [OF page_aligned_aligned8 [OF al]] al by (simp add: PGROUNDDOWN_id)
  then have "agree_off {pa} (mem s) ?m"
    using agree_off_trans [OF agree_off_memset [OF al]] by fastforce
  moreover have "flist (mem s) (freelist s) ps"
    using assms(1) by (simp add: flist_inv_def)
  moreover have "page_aligned q \<and> q \<notin> {pa}" if "q \<in> set ps" for q
    using assms(1,4) that not_bad_page_aligned by (auto simp: flist_inv_def)
  ultimately have "flist ?m (freelist s) ps"
    by (metis flist_agree)
  moreover have "pa \<noteq> 0" using assms(1,2) bad_page_0 by (auto simp: flist_inv_def)
  ultimately show ?thesis
    using assms by (simp add: kfree_last) (simp add: flist_inv_def)
qed

lemma kfree_kmem_inv:
  assumes inv: "kmem_inv s ps" and v: "\<not> bad_page s pa" and nf: "pa \<notin> set ps"
  shows "\<exists>s'. kfree pa s = Ok s' \<and>
     kmem_inv s' (if refcnt s (pa2idx pa) = 1 then pa # ps else ps)"
proof -
  have al: "page_aligned pa" using v by (rule not_bad_page_aligned)
  show ?thesis
  proof (cases "refcnt s (pa2idx pa) = 1")
    case True
    obtain s' where s': "kfree pa s = Ok s'" "flist_inv s' (pa # ps)"
      using kfree_flist_inv [OF kmem_invD(1) [OF inv] v True nf] by auto
    have "kmem_inv s' (pa # ps)"
    proof (rule kmem_invI [OF s'(2)])
      fix q assume "\<not> bad_page s' q" "page_aligned q"
      with s'(1) kmem_invD(2,3) [OF inv, of q] al
      show "0 \<le> refcnt s' (pa2idx q) \<and> (refcnt s' (pa2idx q) = 0 \<longleftrightarrow> q \<in> set (pa # ps))"
        by (auto simp: kfree_last [OF v True] split: if_splits)
    qed
    with s' True show ?thesis by auto
  next
    case False
    with kmem_inv_refcnt(1) [OF inv v nf] have gt: "refcnt s (pa2idx pa) > 1" by simp
    let ?s = "s\<lparr>refcnt := (refcnt s)(pa2idx pa := refcnt s (pa2idx pa) - 1)\<rparr>"
    have "kmem_inv ?s ps"
    proof (rule kmem_invI)
      show "flist_inv ?s ps" using kmem_invD(1) [OF inv] by (simp add: flist_inv_def)
      fix q assume "\<not> bad_page ?s q" "page_aligned q"
      with kmem_invD(2,3) [OF inv, of q] al nf gt
      show "0 \<le> refcnt ?s (pa2idx q) \<and> (refcnt ?s (pa2idx q) = 0 \<longleftrightarrow> q \<in> set ps)" by auto
    qed
    with False show ?thesis by (simp add: kfree_shared [OF v gt])
  qed
qed

subsection \<open>kaddref\<close>

lemma kaddref_kmem_inv:
  assumes inv: "kmem_inv s ps" and v: "\<not> bad_page s pa" and nf: "pa \<notin> set ps"
  shows "kaddref pa s = Ok (s\<lparr>refcnt := (refcnt s)(pa2idx pa := refcnt s (pa2idx pa) + 1)\<rparr>)"
    and "kmem_inv (s\<lparr>refcnt := (refcnt s)(pa2idx pa := refcnt s (pa2idx pa) + 1)\<rparr>) ps"
proof -
  have al: "page_aligned pa" using v by (rule not_bad_page_aligned)
  have ge: "1 \<le> refcnt s (pa2idx pa)" using kmem_inv_refcnt(1) [OF inv v nf] .
  then show "kaddref pa s = Ok (s\<lparr>refcnt := (refcnt s)(pa2idx pa := refcnt s (pa2idx pa) + 1)\<rparr>)"
    using v by (simp add: kaddref_def Let_def)
  let ?s = "s\<lparr>refcnt := (refcnt s)(pa2idx pa := refcnt s (pa2idx pa) + 1)\<rparr>"
  show "kmem_inv ?s ps"
  proof (rule kmem_invI)
    show "flist_inv ?s ps" using kmem_invD(1) [OF inv] by (simp add: flist_inv_def)
    fix q assume "\<not> bad_page ?s q" "page_aligned q"
    with kmem_invD(2,3) [OF inv, of q] al nf ge
    show "0 \<le> refcnt ?s (pa2idx q) \<and> (refcnt ?s (pa2idx q) = 0 \<longleftrightarrow> q \<in> set ps)" by auto
  qed
qed

subsection \<open>kinit\<close>

lemma page_mult_less:
  fixes k l :: nat
  shows "4096 * k < 4096 * l \<longleftrightarrow> 4096 * k + 4096 \<le> 4096 * l" "4096 * l < 4096 * k + 4096 \<longleftrightarrow> 4096 * l < 4096 * k \<or> l = k"
proof -
  have e: "4096 * k + 4096 = 4096 * Suc k" by simp
  show "4096 * k < 4096 * l \<longleftrightarrow> 4096 * k + 4096 \<le> 4096 * l" "4096 * l < 4096 * k + 4096 \<longleftrightarrow> 4096 * l < 4096 * k \<or> l = k"
    unfolding e mult_less_cancel1 mult_le_cancel1 by auto
qed

lemma aligned_less_PHYSTOP:
  "page_aligned p \<Longrightarrow> p < PHYSTOP \<longleftrightarrow> p + PGSIZE \<le> PHYSTOP" if "p \<le> PHYSTOP"
proof -
  assume "page_aligned p"
  then obtain k where k: "unat p = 4096 * k" by (auto simp: page_aligned_iff)
  have "unat p \<le> 2281701376" using that by (simp add: word_le_nat_alt unat_PHYSTOP)
  then have "unat (p + PGSIZE) = unat p + 4096" by (simp add: unat_add_64)
  then show ?thesis
    using page_mult_less [of k 557056] k by (simp add: word_less_nat_alt word_le_nat_alt unat_PHYSTOP)
qed

lemma page_aligned_add: "page_aligned p \<Longrightarrow> p \<le> PHYSTOP \<Longrightarrow> page_aligned (p + PGSIZE)"
  by (simp add: page_aligned_iff word_le_nat_alt unat_PHYSTOP unat_add_64)

lemma aligned_less_add_iff:
  assumes "page_aligned p" "page_aligned q" "p \<le> PHYSTOP"
  shows "q < p + PGSIZE \<longleftrightarrow> q < p \<or> q = p"
proof -
  obtain k l where k: "unat p = 4096 * k" "unat q = 4096 * l"
    using assms(1,2) unfolding page_aligned_iff mod_eq_0_iff_dvd by (elim dvdE) blast
  have "unat (p + PGSIZE) = unat p + 4096"
    using assms(3) by (simp add: unat_add_64 word_le_nat_alt unat_PHYSTOP)
  with k show ?thesis
    using page_mult_less(2) [of l k] by (simp only: word_less_nat_alt word_unat_eq_iff) simp
qed

lemma le_add_PGSIZE:
  assumes "a \<le> p" "p \<le> PHYSTOP"
  shows "a \<le> p + PGSIZE"
proof -
  have "unat (p + PGSIZE) = unat p + 4096"
    using assms(2) by (simp add: unat_add_64 word_le_nat_alt unat_PHYSTOP)
  with assms(1) show ?thesis by (simp add: word_le_nat_alt)
qed

lemma freerange_loop_all:
  assumes "flist_inv s ps" "page_aligned p" "kend s \<le> p" "p \<le> PHYSTOP"
    and "set ps = {q. \<not> bad_page s q \<and> q < p}"
    and "\<forall>q\<in>set ps. refcnt s (pa2idx q) = 0"
  shows "\<exists>s' qs. freerange_loop p PHYSTOP s = Ok s' \<and> flist_inv s' qs \<and> kend s' = kend s \<and>
    set qs = {q. \<not> bad_page s q} \<and> (\<forall>q\<in>set qs. refcnt s' (pa2idx q) = 0)"
  using assms
proof (induction p PHYSTOP s arbitrary: ps rule: freerange_loop.induct)
  case (1 p s)
  show ?case
  proof (cases "p + PGSIZE \<le> PHYSTOP")
    case True
    then have lt: "p < PHYSTOP" using aligned_less_PHYSTOP "1.prems"(2,4) by blast
    then have v: "\<not> bad_page s p"
      using "1.prems"(2,3) by (auto simp: bad_page_def page_aligned_def)
    let ?s = "s\<lparr>refcnt := (refcnt s)(pa2idx p := 1)\<rparr>"
    have np: "p \<notin> set ps" using "1.prems"(5) by auto
    obtain s' where s': "kfree p ?s = Ok s'" "flist_inv s' (p # ps)"
      using kfree_flist_inv [of ?s ps p] "1.prems"(1) v np by (auto simp: flist_inv_def)
    have f: "bad_page s' = bad_page s" "kend s' = kend s"
      "\<And>q. refcnt s' q = (if q = pa2idx p then 0 else refcnt s q)"
      using s'(1) kfree_last [of ?s p] v by auto
    have "q < p + PGSIZE \<longleftrightarrow> q < p \<or> q = p" if "\<not> bad_page s q" for q
      using "1.prems"(2,4) not_bad_page_aligned [OF that] by (intro aligned_less_add_iff)
    then have "set (p # ps) = {q. \<not> bad_page s q \<and> q < p + PGSIZE}"
      using "1.prems"(5) v by auto
    then have "\<exists>s'' qs. freerange_loop (p + PGSIZE) PHYSTOP s' = Ok s'' \<and> flist_inv s'' qs \<and>
        kend s'' = kend s' \<and> set qs = {q. \<not> bad_page s' q} \<and>
        (\<forall>q\<in>set qs. refcnt s'' (pa2idx q) = 0)"
      using "1.prems" True lt f s'(2) page_aligned_add
      by (intro "1.hyps" [OF True s'(1)]) (auto intro: le_add_PGSIZE)
    then show ?thesis
      using True s'(1) f by (subst freerange_loop.simps) auto
  next
    case False
    then have "\<not> p < PHYSTOP" using aligned_less_PHYSTOP "1.prems"(2,4) by blast
    then have "q < p" if "\<not> bad_page s q" for q
      using that unfolding bad_page_def by (meson leI order_less_le_trans)
    then have "{q. \<not> bad_page s q \<and> q < p} = {q. \<not> bad_page s q}" by auto
    then show ?thesis
      using False "1.prems" by (subst freerange_loop.simps) auto
  qed
qed

lemma PGROUNDUP_le_page:
  assumes "a \<le> q" "page_aligned q" "unat a \<le> 18446744073709547520"
  shows "PGROUNDUP a \<le> q"
proof -
  obtain k where k: "unat q = 4096 * k" using assms(2) by (auto simp: page_aligned_iff)
  have "(unat a + 4095) div 4096 < Suc k"
    using assms(1) k by (intro less_mult_imp_div_less) (simp add: word_le_nat_alt)
  then show ?thesis
    using k by (simp add: word_le_nat_alt unat_PGROUNDUP [OF assms(3)])
qed

lemma PGROUNDUP_ge:
  assumes "unat a \<le> 18446744073709547520"
  shows "a \<le> PGROUNDUP a"
proof -
  have "unat a + 4095 < (unat a + 4095) div 4096 * 4096 + 4096"
    using dividend_less_div_times [of 4096 "unat a + 4095"] by simp
  then show ?thesis by (simp add: word_le_nat_alt unat_PGROUNDUP [OF assms])
qed

lemma kinit_all_free:
  assumes "kend s \<noteq> 0" "kend s \<le> PHYSTOP" "freelist s = 0" "free_pages s = 0"
  shows "\<exists>s' ps. kinit s = Ok s' \<and> kmem_inv s' ps \<and> kend s' = kend s \<and>
    set ps = {q. \<not> bad_page s q}"
proof -
  have k: "unat (kend s) \<le> 18446744073709547520"
    using assms(2) by (simp add: word_le_nat_alt unat_PHYSTOP)
  have pa: "page_aligned PHYSTOP" by (simp add: page_aligned_iff unat_PHYSTOP)
  have none: "{q. \<not> bad_page s q \<and> q < PGROUNDUP (kend s)} = {}"
    using PGROUNDUP_le_page [OF _ _ k] by (force simp: bad_page_def page_aligned_def not_less)
  have fi: "flist_inv s []" using assms by (simp add: flist_inv_def)
  obtain s' ps where s': "kinit s = Ok s'" "flist_inv s' ps" "kend s' = kend s"
      "set ps = {q. \<not> bad_page s q}" "\<forall>q\<in>set ps. refcnt s' (pa2idx q) = 0"
    using freerange_loop_all [OF fi PGROUNDUP_aligned PGROUNDUP_ge [OF k]
        PGROUNDUP_le_page [OF assms(2) pa k]] none
    unfolding kinit_def freerange_def by auto
  moreover have "bad_page s' = bad_page s" using s'(3) by (simp add: bad_page_def fun_eq_iff)
  ultimately have "kmem_inv s' ps" by (intro kmem_invI) auto
  with s' show ?thesis by blast
qed

subsection \<open>meminfo\<close>

lemma meminfo_loop_flist:
  "flist m p ps \<Longrightarrow> meminfo_loop m p b = Some (b + of_nat (length ps) * PGSIZE)"
proof (induction ps arbitrary: p b)
  case Nil
  then show ?case by (subst meminfo_loop.simps) simp
next
  case (Cons a ps)
  then show ?case by (subst meminfo_loop.simps) (simp add: algebra_simps)
qed

section \<open>The interface of a reference-counting page allocator\<close>

text \<open>
  What the rest of the kernel relies on: a page is free exactly when its count is zero,
  \<open>alloc\<close> hands out a free page with count one, \<open>addref\<close> and \<open>free\<close> move the
  count of their page by one and touch no other count.
\<close>

locale page_allocator =
  fixes rc :: "'s \<Rightarrow> addr \<Rightarrow> int"
    and inv :: "'s \<Rightarrow> bool"
    and page :: "'s \<Rightarrow> addr \<Rightarrow> bool"
    and alloc :: "'s \<Rightarrow> addr \<times> 's"
    and free :: "addr \<Rightarrow> 's \<Rightarrow> 's outcome"
    and addref :: "addr \<Rightarrow> 's \<Rightarrow> 's outcome"
  assumes alloc_page: "inv s \<Longrightarrow> alloc s = (p, s') \<Longrightarrow> p \<noteq> 0 \<Longrightarrow>
      page s p \<and> rc s p = 0 \<and> rc s' p = 1"
    and alloc_inv: "inv s \<Longrightarrow> alloc s = (p, s') \<Longrightarrow>
      inv s' \<and> page s' = page s \<and> (\<forall>q. page s q \<longrightarrow> q \<noteq> p \<longrightarrow> rc s' q = rc s q)"
    and free_law: "inv s \<Longrightarrow> page s p \<Longrightarrow> 0 < rc s p \<Longrightarrow>
      \<exists>s'. free p s = Ok s' \<and> inv s' \<and> page s' = page s \<and> rc s' p = rc s p - 1 \<and>
        (\<forall>q. page s q \<longrightarrow> q \<noteq> p \<longrightarrow> rc s' q = rc s q)"
    and addref_law: "inv s \<Longrightarrow> page s p \<Longrightarrow> 0 < rc s p \<Longrightarrow>
      \<exists>s'. addref p s = Ok s' \<and> inv s' \<and> page s' = page s \<and> rc s' p = rc s p + 1 \<and>
        (\<forall>q. page s q \<longrightarrow> q \<noteq> p \<longrightarrow> rc s' q = rc s q)"
begin

primrec addref_n :: "nat \<Rightarrow> addr \<Rightarrow> 's \<Rightarrow> 's outcome" where
  "addref_n 0 p s = Ok s"
| "addref_n (Suc n) p s = bindO (addref p s) (addref_n n p)"

primrec free_n :: "nat \<Rightarrow> addr \<Rightarrow> 's \<Rightarrow> 's outcome" where
  "free_n 0 p s = Ok s"
| "free_n (Suc n) p s = bindO (free p s) (free_n n p)"

lemma addref_n_ok:
  "inv s \<Longrightarrow> page s p \<Longrightarrow> 0 < rc s p \<Longrightarrow>
   \<exists>s'. addref_n n p s = Ok s' \<and> inv s' \<and> page s' = page s \<and> rc s' p = rc s p + int n \<and>
     (\<forall>q. page s q \<longrightarrow> q \<noteq> p \<longrightarrow> rc s' q = rc s q)"
proof (induction n arbitrary: s)
  case (Suc n)
  obtain t where t: "addref p s = Ok t" "inv t" "page t = page s" "rc t p = rc s p + 1"
      "\<forall>q. page s q \<longrightarrow> q \<noteq> p \<longrightarrow> rc t q = rc s q"
    using addref_law Suc.prems by blast
  with Suc.IH [of t] Suc.prems show ?case by auto
qed simp

lemma free_n_ok:
  "inv s \<Longrightarrow> page s p \<Longrightarrow> int n \<le> rc s p \<Longrightarrow>
   \<exists>s'. free_n n p s = Ok s' \<and> inv s' \<and> page s' = page s \<and> rc s' p = rc s p - int n \<and>
     (\<forall>q. page s q \<longrightarrow> q \<noteq> p \<longrightarrow> rc s' q = rc s q)"
proof (induction n arbitrary: s)
  case (Suc n)
  then have "0 < rc s p" by simp
  then obtain t where t: "free p s = Ok t" "inv t" "page t = page s" "rc t p = rc s p - 1"
      "\<forall>q. page s q \<longrightarrow> q \<noteq> p \<longrightarrow> rc t q = rc s q"
    using free_law Suc.prems by blast
  with Suc.IH [of t] Suc.prems show ?case by auto
qed simp

text \<open>Sharing a fresh page \<open>n\<close> times: it becomes free with the last of \<open>n + 1\<close> frees, not before.\<close>

lemma share_then_free:
  assumes "inv s" "alloc s = (p, s1)" "p \<noteq> 0" "k \<le> Suc n"
  shows "\<exists>s2 s3. addref_n n p s1 = Ok s2 \<and> free_n k p s2 = Ok s3 \<and> inv s3 \<and>
    rc s3 p = int (Suc n - k) \<and> (\<forall>q. page s q \<longrightarrow> q \<noteq> p \<longrightarrow> rc s3 q = rc s q)"
proof -
  have a: "page s p" "rc s1 p = 1" "inv s1" "page s1 = page s"
      "\<forall>q. page s q \<longrightarrow> q \<noteq> p \<longrightarrow> rc s1 q = rc s q"
    using alloc_page [OF assms(1-3)] alloc_inv [OF assms(1,2)] by auto
  then obtain s2 where s2: "addref_n n p s1 = Ok s2" "inv s2" "page s2 = page s1"
      "rc s2 p = 1 + int n" "\<forall>q. page s1 q \<longrightarrow> q \<noteq> p \<longrightarrow> rc s2 q = rc s1 q"
    using addref_n_ok [of s1 p n] by auto
  then obtain s3 where s3: "free_n k p s2 = Ok s3" "inv s3" "rc s3 p = 1 + int n - int k"
      "\<forall>q. page s2 q \<longrightarrow> q \<noteq> p \<longrightarrow> rc s3 q = rc s2 q"
    using free_n_ok [of s2 p k] a assms(4) by auto
  with s2 a assms(4) show ?thesis by (auto simp: of_nat_diff)
qed

end

definition kmem_ok :: "'a kmem_scheme \<Rightarrow> bool" where
  "kmem_ok s \<longleftrightarrow> (\<exists>ps. kmem_inv s ps)"

lemma kalloc_ok:
  assumes "kmem_ok s" "kalloc s = (p, s')"
  shows "kmem_ok s'" "bad_page s' = bad_page s"
    "p \<noteq> 0 \<Longrightarrow> \<not> bad_page s p \<and> refcnt s (pa2idx p) = 0 \<and> refcnt s' (pa2idx p) = 1"
    "\<not> bad_page s q \<Longrightarrow> q \<noteq> p \<Longrightarrow> refcnt s' (pa2idx q) = refcnt s (pa2idx q)"
proof -
  obtain ps where ps: "kmem_inv s ps" using assms(1) by (auto simp: kmem_ok_def)
  have fi: "flist_inv s ps" using ps by (rule kmem_invD)
  show "bad_page s' = bad_page s"
    using kalloc_frame [OF fi assms(2)] by (simp add: bad_page_def fun_eq_iff)
  have "kmem_ok s' \<and>
    (p \<noteq> 0 \<longrightarrow> \<not> bad_page s p \<and> refcnt s (pa2idx p) = 0 \<and> refcnt s' (pa2idx p) = 1) \<and>
    (\<not> bad_page s q \<longrightarrow> q \<noteq> p \<longrightarrow> refcnt s' (pa2idx q) = refcnt s (pa2idx q))"
  proof (cases ps)
    case Nil
    with kalloc_Nil [of s] fi assms show ?thesis by auto
  next
    case (Cons a qs)
    have s': "p = a" "refcnt s' = (refcnt s)(pa2idx a := 1)"
      using kalloc_Cons [OF fi [unfolded Cons]] assms(2) by auto
    have v: "\<not> bad_page s a" using fi Cons by (simp add: flist_inv_def)
    have "kmem_ok s'"
      using kalloc_kmem_inv [OF ps [unfolded Cons]] assms(2) by (auto simp: kmem_ok_def)
    then show ?thesis
      using s' v kmem_inv_refcnt(2) [OF ps v] Cons not_bad_page_aligned [of s] by auto
  qed
  then show "kmem_ok s'"
    "p \<noteq> 0 \<Longrightarrow> \<not> bad_page s p \<and> refcnt s (pa2idx p) = 0 \<and> refcnt s' (pa2idx p) = 1"
    "\<not> bad_page s q \<Longrightarrow> q \<noteq> p \<Longrightarrow> refcnt s' (pa2idx q) = refcnt s (pa2idx q)" by auto
qed

lemma kfree_ok:
  assumes "kmem_ok s" "\<not> bad_page s p" "0 < refcnt s (pa2idx p)"
  shows "\<exists>s'. kfree p s = Ok s' \<and> kmem_ok s' \<and> bad_page s' = bad_page s \<and>
    refcnt s' (pa2idx p) = refcnt s (pa2idx p) - 1 \<and>
    (\<forall>q. \<not> bad_page s q \<longrightarrow> q \<noteq> p \<longrightarrow> refcnt s' (pa2idx q) = refcnt s (pa2idx q))"
proof -
  obtain ps where ps: "kmem_inv s ps" using assms(1) by (auto simp: kmem_ok_def)
  have "p \<notin> set ps" using kmem_inv_refcnt(2) [OF ps assms(2)] assms(3) by auto
  from kfree_kmem_inv [OF ps assms(2) this] obtain s' where
    s': "kfree p s = Ok s'" "kmem_ok s'" by (auto simp: kmem_ok_def)
  have "refcnt s' = (refcnt s)(pa2idx p := refcnt s (pa2idx p) - 1) \<and> bad_page s' = bad_page s"
    using s'(1) kfree_shared [OF assms(2)] kfree_last [OF assms(2)] assms(3)
    by (cases "refcnt s (pa2idx p) = 1") auto
  with s' assms(2) not_bad_page_aligned [of s] show ?thesis by auto
qed

lemma kaddref_ok:
  assumes "kmem_ok s" "\<not> bad_page s p" "0 < refcnt s (pa2idx p)"
  shows "\<exists>s'. kaddref p s = Ok s' \<and> kmem_ok s' \<and> bad_page s' = bad_page s \<and>
    refcnt s' (pa2idx p) = refcnt s (pa2idx p) + 1 \<and>
    (\<forall>q. \<not> bad_page s q \<longrightarrow> q \<noteq> p \<longrightarrow> refcnt s' (pa2idx q) = refcnt s (pa2idx q))"
proof -
  obtain ps where ps: "kmem_inv s ps" using assms(1) by (auto simp: kmem_ok_def)
  have "p \<notin> set ps" using kmem_inv_refcnt(2) [OF ps assms(2)] assms(3) by auto
  note k = kaddref_kmem_inv [OF ps assms(2) this]
  from k(2) have "kmem_ok (s\<lparr>refcnt := (refcnt s)(pa2idx p := refcnt s (pa2idx p) + 1)\<rparr>)"
    unfolding kmem_ok_def by blast
  with k(1) assms(2) not_bad_page_aligned [of s] show ?thesis by auto
qed

interpretation kpages: page_allocator "\<lambda>s p. refcnt s (pa2idx p)" kmem_ok "\<lambda>s p. \<not> bad_page s p"
  kalloc kfree kaddref
proof unfold_locales
  fix s s' :: "'a kmem_scheme" and p
  assume "kmem_ok s" "kalloc s = (p, s')"
  note k = kalloc_ok [OF this]
  show "kmem_ok s' \<and> (\<lambda>p. \<not> bad_page s' p) = (\<lambda>p. \<not> bad_page s p) \<and>
      (\<forall>q. \<not> bad_page s q \<longrightarrow> q \<noteq> p \<longrightarrow> refcnt s' (pa2idx q) = refcnt s (pa2idx q))"
    using k by auto
  show "\<not> bad_page s p \<and> refcnt s (pa2idx p) = 0 \<and> refcnt s' (pa2idx p) = 1" if "p \<noteq> 0"
    using k that by auto
next
  fix s :: "'a kmem_scheme" and p
  assume "kmem_ok s" "\<not> bad_page s p" "0 < refcnt s (pa2idx p)"
  from kfree_ok [OF this] kaddref_ok [OF this]
  show "\<exists>s'. kfree p s = Ok s' \<and> kmem_ok s' \<and> (\<lambda>p. \<not> bad_page s' p) = (\<lambda>p. \<not> bad_page s p) \<and>
      refcnt s' (pa2idx p) = refcnt s (pa2idx p) - 1 \<and>
      (\<forall>q. \<not> bad_page s q \<longrightarrow> q \<noteq> p \<longrightarrow> refcnt s' (pa2idx q) = refcnt s (pa2idx q))"
    "\<exists>s'. kaddref p s = Ok s' \<and> kmem_ok s' \<and> (\<lambda>p. \<not> bad_page s' p) = (\<lambda>p. \<not> bad_page s p) \<and>
      refcnt s' (pa2idx p) = refcnt s (pa2idx p) + 1 \<and>
      (\<forall>q. \<not> bad_page s q \<longrightarrow> q \<noteq> p \<longrightarrow> refcnt s' (pa2idx q) = refcnt s (pa2idx q))"
    by metis+
qed

section \<open>Properties\<close>

text \<open>A machine with one free page, used to instantiate the properties below.\<close>

definition one_free_page :: kmem where
  "one_free_page = \<lparr>mem = (\<lambda>_. 0), kend = 0x80021000, freelist = 0x87fff000, free_pages = 1,
     refcnt = (\<lambda>_. 1)(pa2idx 0x87fff000 := 0)\<rparr>"

lemma one_free_page_inv: "kmem_inv one_free_page [0x87fff000]"
proof (rule kmem_invI)
  have "load64 (\<lambda>_. 0) 0x87fff000 = 0" by (simp add: load64_def load_bytes_def upt_rec)
  then show "flist_inv one_free_page [0x87fff000]"
    by (simp add: flist_inv_def one_free_page_def bad_page_def PGSIZE_def PHYSTOP_def KERNBASE_def)
  fix p assume "page_aligned p"
  then show "0 \<le> refcnt one_free_page (pa2idx p) \<and>
      (refcnt one_free_page (pa2idx p) = 0 \<longleftrightarrow> p \<in> set [0x87fff000])"
    by (auto simp: one_free_page_def page_aligned_def PGSIZE_def)
qed

lemma one_free_page_kalloc:
  "kalloc one_free_page = (0x87fff000, snd (kalloc one_free_page))"
  by (simp add: kalloc_def one_free_page_def)

text \<open>C17: Booting: \<open>kinit\<close> returns without a panic and puts exactly the page-aligned addresses
  between the end of the kernel and \<open>PHYSTOP\<close> on the free list, each once, with the counter
  \<open>free_pages\<close> equal to their number and every reference count zero.\<close>

theorem kinit_frees_all:
  assumes "kend s \<noteq> 0" "kend s \<le> PHYSTOP" "freelist s = 0" "free_pages s = 0"
  shows "\<exists>s' ps. kinit s = Ok s' \<and> kmem_inv s' ps \<and> kend s' = kend s \<and>
    set ps = {q. page_aligned q \<and> kend s \<le> q \<and> q < PHYSTOP}"
proof -
  have "{q. \<not> bad_page s q} = {q. page_aligned q \<and> kend s \<le> q \<and> q < PHYSTOP}"
    by (auto simp: bad_page_def page_aligned_def not_less not_le)
  with kinit_all_free [OF assms] show ?thesis by simp
qed

theorem kinit_frees_all_witness:
  "\<exists>s' ps. kinit \<lparr>mem = (\<lambda>_. 0), kend = 0x80021000, freelist = 0, free_pages = 0, refcnt = (\<lambda>_. 0)\<rparr> = Ok s' \<and>
     kmem_inv s' ps \<and> kend s' = 0x80021000 \<and> set ps = {q. page_aligned q \<and> 0x80021000 \<le> q \<and> q < PHYSTOP}"
  using kinit_frees_all [of "\<lparr>mem = (\<lambda>_. 0), kend = 0x80021000, freelist = 0, free_pages = 0, refcnt = (\<lambda>_. 0)\<rparr>"]
  by (simp add: PHYSTOP_def KERNBASE_def)



text \<open>C18: Freeing on every branch: \<open>kfree\<close> panics exactly on an address that is no allocatable page
  and on a page that is already free; otherwise it returns, keeps the allocator's invariant and puts
  the page at the head of the free list exactly when its last reference is dropped.\<close>

theorem kfree_outcomes:
  assumes "kmem_inv s ps"
  shows "if bad_page s pa then kfree pa s = Panic ''kfree''
     else if pa \<in> set ps then kfree pa s = Panic ''kfree: refcnt''
     else \<exists>s'. kfree pa s = Ok s' \<and> kmem_inv s' (if refcnt s (pa2idx pa) = 1 then pa # ps else ps)"
  using kfree_kmem_inv [OF assms, of pa] kmem_inv_refcnt(2) [OF assms, of pa]
  by (auto simp: kfree_def)

theorem kfree_outcomes_witness:
  "kmem_inv one_free_page [0x87fff000] \<and> kfree 0x87fff000 one_free_page = Panic ''kfree: refcnt'' \<and>
   kfree 1 one_free_page = Panic ''kfree'' \<and> (\<exists>s'. kfree 0x87ffe000 one_free_page = Ok s')"
  using one_free_page_inv kfree_outcomes [OF one_free_page_inv, of "0x87fff000"]
    kfree_outcomes [OF one_free_page_inv, of 1] kfree_outcomes [OF one_free_page_inv, of "0x87ffe000"]
  by (auto simp: bad_page_def PGSIZE_def one_free_page_def PHYSTOP_def KERNBASE_def)

text \<open>C39: The two free-memory counts agree: walking the free list as \<open>meminfo\<close> does terminates and
  returns \<open>PGSIZE\<close> times the counter that \<open>freemem\<close> returns.\<close>

theorem meminfo_freemem:
  assumes "kmem_inv s ps"
  shows "meminfo s = Some (of_int (freemem s) * PGSIZE)"
  using assms meminfo_loop_flist [of "mem s" "freelist s" ps 0]
  by (simp add: meminfo_def freemem_def kmem_inv_def flist_inv_def)

theorem meminfo_freemem_witness: "meminfo one_free_page = Some 4096"
  using meminfo_freemem [OF one_free_page_inv] by (simp add: freemem_def one_free_page_def PGSIZE_def)

end
