(* ===== verification/VM.thy ===== *)
theory VM
  imports Kalloc
begin

text \<open>
  \<open>kernel/vm.c\<close>, the part that builds and changes page tables. A page table is a tree
  of pages in physical memory, each holding 512 eight-byte entries, read and written with
  \<open>load64\<close> and \<open>store64\<close>. \<open>walk\<close> returns the address of the leaf entry, 0 for the
  null pointer. The functions that also need the current process (\<open>vmfault\<close>,
  \<open>copyin\<close>, \<open>copyout\<close>) are in a later theory.
\<close>

section \<open>Walking the tree\<close>

text \<open>
  The loop \<open>for(level = 2; level > 0; level--)\<close>: the first argument is the level, at
  level 0 the loop has ended.
\<close>

fun walk_loop :: "nat \<Rightarrow> addr \<Rightarrow> addr \<Rightarrow> bool \<Rightarrow> 'a kmem_scheme \<Rightarrow> addr \<times> 'a kmem_scheme" where
  "walk_loop 0 pagetable va alloc s = (pagetable + 8 * PX 0 va, s)"
| "walk_loop (Suc l) pagetable va alloc s =
     (let pte = pagetable + 8 * PX (Suc l) va in
      if load64 (mem s) pte AND PTE_V \<noteq> 0
      then walk_loop l (PTE2PA (load64 (mem s) pte)) va alloc s
      else if \<not> alloc then (0, s)
      else let (np, s) = kalloc s in
        if np = 0 then (0, s)
        else let s = s\<lparr>mem := memset (mem s) np 0 4096\<rparr>;
                 s = s\<lparr>mem := store64 (mem s) pte (PA2PTE np OR PTE_V)\<rparr>
             in walk_loop l np va alloc s)"

definition walk :: "addr \<Rightarrow> addr \<Rightarrow> bool \<Rightarrow> 'a kmem_scheme \<Rightarrow> (addr \<times> 'a kmem_scheme) outcome" where
  "walk pagetable va alloc s =
     (if va \<ge> MAXVA then Panic ''walk'' else Ok (walk_loop 2 pagetable va alloc s))"

definition walkaddr :: "addr \<Rightarrow> addr \<Rightarrow> 'a kmem_scheme \<Rightarrow> uint64 outcome" where
  "walkaddr pagetable va s =
     (if va \<ge> MAXVA then Ok 0
      else bindO (walk pagetable va False s) (\<lambda>(pte, s).
        if pte = 0 then Ok 0
        else if load64 (mem s) pte AND PTE_V = 0 then Ok 0
        else if load64 (mem s) pte AND PTE_U = 0 then Ok 0
        else Ok (PTE2PA (load64 (mem s) pte))))"

definition ismapped :: "addr \<Rightarrow> addr \<Rightarrow> 'a kmem_scheme \<Rightarrow> bool outcome" where
  "ismapped pagetable va s =
     bindO (walk pagetable va False s) (\<lambda>(pte, s).
       if pte = 0 then Ok False
       else if load64 (mem s) pte AND PTE_V \<noteq> 0 then Ok True
       else Ok False)"

lemma walk_Ok_below: "walk pt va alloc s = Ok r \<Longrightarrow> unat va < 274877906944"
  by (auto simp: walk_def word_le_nat_alt unat_MAXVA split: if_splits)

section \<open>Adding mappings\<close>

function mappages_loop ::
  "addr \<Rightarrow> addr \<Rightarrow> addr \<Rightarrow> addr \<Rightarrow> uint64 \<Rightarrow> 'a kmem_scheme \<Rightarrow> (int \<times> 'a kmem_scheme) outcome" where
  "mappages_loop pagetable a last_pg pa perm s =
     bindO (walk pagetable a True s) (\<lambda>(pte, s).
       if pte = 0 then Ok (-1, s)
       else if load64 (mem s) pte AND PTE_V \<noteq> 0 then Panic ''mappages: remap''
       else let s = s\<lparr>mem := store64 (mem s) pte (PA2PTE pa OR perm OR PTE_V)\<rparr> in
         if a = last_pg then Ok (0, s)
         else mappages_loop pagetable (a + PGSIZE) last_pg (pa + PGSIZE) perm s)"
  by pat_completeness auto
termination
  by (relation "measure (\<lambda>(pagetable, a, last_pg, pa, perm, s). 274877906944 - unat a)")
    (auto simp: unat_add_64 dest!: walk_Ok_below)

declare mappages_loop.simps [simp del]

definition mappages ::
  "addr \<Rightarrow> addr \<Rightarrow> uint64 \<Rightarrow> addr \<Rightarrow> uint64 \<Rightarrow> 'a kmem_scheme \<Rightarrow> (int \<times> 'a kmem_scheme) outcome" where
  "mappages pagetable va sz pa perm s =
     (if va mod PGSIZE \<noteq> 0 then Panic ''mappages: va not aligned''
      else if sz mod PGSIZE \<noteq> 0 then Panic ''mappages: size not aligned''
      else if sz = 0 then Panic ''mappages: size''
      else mappages_loop pagetable va (va + sz - PGSIZE) pa perm s)"

definition kvmmap ::
  "addr \<Rightarrow> addr \<Rightarrow> addr \<Rightarrow> uint64 \<Rightarrow> uint64 \<Rightarrow> 'a kmem_scheme \<Rightarrow> 'a kmem_scheme outcome" where
  "kvmmap kpgtbl va pa sz perm s =
     bindO (mappages kpgtbl va sz pa perm s) (\<lambda>(r, s).
       if r \<noteq> 0 then Panic ''kvmmap'' else Ok s)"

definition uvmcreate :: "'a kmem_scheme \<Rightarrow> addr \<times> 'a kmem_scheme" where
  "uvmcreate s =
     (let (pagetable, s) = kalloc s in
      if pagetable = 0 then (0, s)
      else (pagetable, s\<lparr>mem := memset (mem s) pagetable 0 4096\<rparr>))"

section \<open>Removing mappings\<close>

function uvmunmap_loop ::
  "addr \<Rightarrow> addr \<Rightarrow> addr \<Rightarrow> bool \<Rightarrow> 'a kmem_scheme \<Rightarrow> 'a kmem_scheme outcome" where
  "uvmunmap_loop pagetable a end_va do_free s =
     (if a < end_va then
        bindO (walk pagetable a False s) (\<lambda>(pte, s).
          if pte = 0 then uvmunmap_loop pagetable (a + PGSIZE) end_va do_free s
          else if load64 (mem s) pte AND PTE_V = 0
            then uvmunmap_loop pagetable (a + PGSIZE) end_va do_free s
          else bindO (if do_free then kfree (PTE2PA (load64 (mem s) pte)) s else Ok s) (\<lambda>s.
            uvmunmap_loop pagetable (a + PGSIZE) end_va do_free
              (s\<lparr>mem := store64 (mem s) pte 0\<rparr>)))
      else Ok s)"
  by pat_completeness auto
termination
  by (relation "measure (\<lambda>(pagetable, a, last_pg, do_free, s). 274877906944 - unat a)")
    (auto simp: unat_add_64 dest!: walk_Ok_below)

declare uvmunmap_loop.simps [simp del]

definition uvmunmap ::
  "addr \<Rightarrow> addr \<Rightarrow> uint64 \<Rightarrow> bool \<Rightarrow> 'a kmem_scheme \<Rightarrow> 'a kmem_scheme outcome" where
  "uvmunmap pagetable va npages do_free s =
     (if va mod PGSIZE \<noteq> 0 then Panic ''uvmunmap: not aligned''
      else uvmunmap_loop pagetable va (va + npages * PGSIZE) do_free s)"

text \<open>\<open>int npages = ...\<close>: the page count passes through a 32-bit signed integer.\<close>

definition uvmdealloc ::
  "addr \<Rightarrow> uint64 \<Rightarrow> uint64 \<Rightarrow> 'a kmem_scheme \<Rightarrow> (uint64 \<times> 'a kmem_scheme) outcome" where
  "uvmdealloc pagetable oldsz newsz s =
     (if newsz \<ge> oldsz then Ok (oldsz, s)
      else if PGROUNDUP newsz < PGROUNDUP oldsz then
        let npages = (ucast ((PGROUNDUP oldsz - PGROUNDUP newsz) div PGSIZE) :: 32 word) in
        bindO (uvmunmap pagetable (PGROUNDUP newsz) (scast npages) True s) (\<lambda>s. Ok (newsz, s))
      else Ok (newsz, s))"

section \<open>Growing and copying\<close>

lemma mappages_Ok_below:
  "mappages pt va sz pa perm s = Ok r \<Longrightarrow> unat va < 274877906944"
  unfolding mappages_def
  by (subst (asm) mappages_loop.simps)
    (auto simp: outcome_iff split: if_splits dest!: walk_Ok_below)

function uvmalloc_loop ::
  "addr \<Rightarrow> addr \<Rightarrow> uint64 \<Rightarrow> uint64 \<Rightarrow> uint64 \<Rightarrow> 'a kmem_scheme \<Rightarrow> (uint64 \<times> 'a kmem_scheme) outcome" where
  "uvmalloc_loop pagetable a oldsz newsz xperm s =
     (if a < newsz then
        let (mem0, s) = kalloc s in
        if mem0 = 0 then bindO (uvmdealloc pagetable a oldsz s) (\<lambda>(_, s). Ok (0, s))
        else bindO (mappages pagetable a PGSIZE mem0 (PTE_R OR PTE_U OR xperm)
               (s\<lparr>mem := memset (mem s) mem0 0 4096\<rparr>)) (\<lambda>(r, s).
          if r \<noteq> 0 then
            bindO (kfree mem0 s) (\<lambda>s.
              bindO (uvmdealloc pagetable a oldsz s) (\<lambda>(_, s). Ok (0, s)))
          else uvmalloc_loop pagetable (a + PGSIZE) oldsz newsz xperm s)
      else Ok (newsz, s))"
  by pat_completeness auto
termination
  by (relation "measure (\<lambda>(pagetable, a, oldsz, newsz, xperm, s). 274877906944 - unat a)")
    (auto simp: unat_add_64 dest!: mappages_Ok_below)

declare uvmalloc_loop.simps [simp del]

definition uvmalloc ::
  "addr \<Rightarrow> uint64 \<Rightarrow> uint64 \<Rightarrow> uint64 \<Rightarrow> 'a kmem_scheme \<Rightarrow> (uint64 \<times> 'a kmem_scheme) outcome" where
  "uvmalloc pagetable oldsz newsz xperm s =
     (if newsz < oldsz then Ok (oldsz, s)
      else let oldsz = PGROUNDUP oldsz in uvmalloc_loop pagetable oldsz oldsz newsz xperm s)"

function uvmcopy_loop ::
  "addr \<Rightarrow> addr \<Rightarrow> addr \<Rightarrow> uint64 \<Rightarrow> 'a kmem_scheme \<Rightarrow> (int \<times> 'a kmem_scheme) outcome" where
  "uvmcopy_loop old new i sz s =
     (if i < sz then
        bindO (walk old i False s) (\<lambda>(pte, s).
          if pte = 0 then uvmcopy_loop old new (i + PGSIZE) sz s
          else if load64 (mem s) pte AND PTE_V = 0 then uvmcopy_loop old new (i + PGSIZE) sz s
          else let pa = PTE2PA (load64 (mem s) pte);
                   flags = PTE_FLAGS (load64 (mem s) pte);
                   (mem0, s) = kalloc s in
            if mem0 = 0 then
              bindO (uvmunmap new 0 (i div PGSIZE) True s) (\<lambda>s. Ok (-1, s))
            else bindO (mappages new i PGSIZE mem0 flags
                   (s\<lparr>mem := memmove (mem s) mem0 pa 4096\<rparr>)) (\<lambda>(r, s).
              if r \<noteq> 0 then
                bindO (kfree mem0 s) (\<lambda>s.
                  bindO (uvmunmap new 0 (i div PGSIZE) True s) (\<lambda>s. Ok (-1, s)))
              else uvmcopy_loop old new (i + PGSIZE) sz s))
      else Ok (0, s))"
  by pat_completeness auto
termination
  by (relation "measure (\<lambda>(old, new, i, sz, s). 274877906944 - unat i)")
    (auto simp: unat_add_64 dest!: walk_Ok_below)

declare uvmcopy_loop.simps [simp del]

definition uvmcopy ::
  "addr \<Rightarrow> addr \<Rightarrow> uint64 \<Rightarrow> 'a kmem_scheme \<Rightarrow> (int \<times> 'a kmem_scheme) outcome" where
  "uvmcopy old new sz s = uvmcopy_loop old new 0 sz s"

section \<open>Freeing a table\<close>

text \<open>
  \<open>freewalk\<close> recurses through the entries; nothing in the code bounds the depth, so the
  recursion takes fuel. \<open>freewalk_entries\<close> is its loop from entry \<open>i\<close>.
\<close>

fun freewalk :: "nat \<Rightarrow> addr \<Rightarrow> 'a kmem_scheme \<Rightarrow> 'a kmem_scheme outcome"
  and freewalk_entries :: "nat \<Rightarrow> nat \<Rightarrow> addr \<Rightarrow> 'a kmem_scheme \<Rightarrow> 'a kmem_scheme outcome" where
  "freewalk 0 pagetable s = NoFuel"
| "freewalk (Suc f) pagetable s = bindO (freewalk_entries f 512 pagetable s) (kfree pagetable)"
| "freewalk_entries f 0 pagetable s = Ok s"
| "freewalk_entries f (Suc n) pagetable s =
     (let i = of_nat (512 - Suc n);
          pte = load64 (mem s) (pagetable + 8 * i) in
      if pte AND PTE_V \<noteq> 0 \<and> pte AND (PTE_R OR PTE_W OR PTE_X) = 0 then
        bindO (freewalk f (PTE2PA pte) s) (\<lambda>s.
          freewalk_entries f n pagetable (s\<lparr>mem := store64 (mem s) (pagetable + 8 * i) 0\<rparr>))
      else if pte AND PTE_V \<noteq> 0 then Panic ''freewalk: leaf''
      else freewalk_entries f n pagetable s)"

definition uvmfree :: "nat \<Rightarrow> addr \<Rightarrow> uint64 \<Rightarrow> 'a kmem_scheme \<Rightarrow> 'a kmem_scheme outcome" where
  "uvmfree fuel pagetable sz s =
     bindO (if sz > 0 then uvmunmap pagetable 0 (PGROUNDUP sz div PGSIZE) True s else Ok s)
       (freewalk fuel pagetable)"

definition uvmclear :: "addr \<Rightarrow> addr \<Rightarrow> 'a kmem_scheme \<Rightarrow> 'a kmem_scheme outcome" where
  "uvmclear pagetable va s =
     bindO (walk pagetable va False s) (\<lambda>(pte, s).
       if pte = 0 then Panic ''uvmclear''
       else Ok (s\<lparr>mem := store64 (mem s) pte (load64 (mem s) pte AND NOT PTE_U)\<rparr>))"

end
