(* ===== verification/PageTable.thy ===== *)
theory PageTable
  imports VM
begin

text \<open>
  What the functions of \<open>kernel/vm.c\<close> do to a page table. The abstract view of a page
  table is \<open>pt_map\<close>, the partial map from page addresses to valid leaf entries; the
  invariant \<open>pt_inv\<close> says that the table is a tree whose pages are pairwise different,
  allocated pages. \<open>walk\<close> leaves the abstract map alone, \<open>mappages\<close> and \<open>uvmunmap\<close>
  update it.
\<close>

section \<open>Entries of a table page\<close>

definition slot :: "addr \<Rightarrow> addr \<Rightarrow> addr" where
  "slot p i = p + 8 * i"

lemma unat_slot:
  assumes "page_aligned p" "unat i < 512"
  shows "unat (slot p i) = unat p + 8 * unat i"
proof -
  have e: "unat (8 * i) = 8 * unat i"
    using assms(2) by (simp add: unat_word_ariths)
  obtain k where k: "unat p = 4096 * k"
    using assms(1) by (auto simp: page_aligned_iff)
  then have "k < 4503599627370496" using unat_64_less [of p] by simp
  with k assms(2) show ?thesis
    by (simp add: slot_def unat_add_64 e)
qed

lemma slot_aligned8 [simp]: "page_aligned p \<Longrightarrow> unat i < 512 \<Longrightarrow> aligned8 (slot p i)"
  using page_aligned_aligned8 [of p] by (simp add: aligned8_def unat_slot mod_add_eq)

lemma slot_page [simp]: "page_aligned p \<Longrightarrow> unat i < 512 \<Longrightarrow> PGROUNDDOWN (slot p i) = p"
proof -
  assume p: "page_aligned p" and i: "unat i < 512"
  then obtain k where k: "unat p = 4096 * k" by (auto simp: page_aligned_iff)
  have "(4096 * k + 8 * unat i) div 4096 = k" using i by (simp add: div_nat_eqI)
  then show ?thesis
    using p i k by (simp add: word_unat_eq_iff unat_PGROUNDDOWN unat_slot)
qed

lemma slot_eq_iff [simp]:
  assumes "page_aligned p" "page_aligned q" "unat i < 512" "unat j < 512"
  shows "slot p i = slot q j \<longleftrightarrow> p = q \<and> i = j"
proof
  assume e: "slot p i = slot q j"
  then have "p = q" using assms slot_page by metis
  moreover from this e have "unat i = unat j"
    using assms unat_slot by (metis add_left_cancel mult_left_cancel zero_neq_numeral)
  ultimately show "p = q \<and> i = j" by (simp add: word_unat_eq_iff)
qed auto

lemma slot_nonzero: "page_aligned p \<Longrightarrow> unat i < 512 \<Longrightarrow> p \<noteq> 0 \<Longrightarrow> slot p i \<noteq> 0"
  by (metis slot_page PGROUNDDOWN_id page_aligned_def mod_0)

section \<open>The tree of table pages\<close>

text \<open>
  \<open>tpage m pt path\<close> follows the valid entries with the indices \<open>path\<close> from the root \<open>pt\<close>.
  Paths of length 0, 1 and 2 lead to the table pages of level 2, 1 and 0.
\<close>

primrec tpage :: "memory \<Rightarrow> addr \<Rightarrow> addr list \<Rightarrow> addr option" where
  "tpage m p [] = Some p"
| "tpage m p (i # is) =
     (if load64 m (slot p i) AND PTE_V \<noteq> 0 then tpage m (PTE2PA (load64 m (slot p i))) is else None)"

definition path_ok :: "addr list \<Rightarrow> bool" where
  "path_ok path \<longleftrightarrow> length path \<le> 2 \<and> (\<forall>i\<in>set path. unat i < 512)"

definition tpages :: "memory \<Rightarrow> addr \<Rightarrow> addr set" where
  "tpages m pt = {p. \<exists>path. path_ok path \<and> tpage m pt path = Some p}"

definition pt_tree :: "memory \<Rightarrow> addr \<Rightarrow> bool" where
  "pt_tree m pt \<longleftrightarrow> page_aligned pt \<and>
     (\<forall>path path' p. path_ok path \<longrightarrow> path_ok path' \<longrightarrow>
        tpage m pt path = Some p \<longrightarrow> tpage m pt path' = Some p \<longrightarrow> path = path')"

lemma tpage_snoc:
  "tpage m pt (path @ [i]) = (case tpage m pt path of None \<Rightarrow> None
     | Some p \<Rightarrow> if load64 m (slot p i) AND PTE_V \<noteq> 0 then Some (PTE2PA (load64 m (slot p i))) else None)"
  by (induction path arbitrary: pt) simp_all

lemma tpage_aligned: "page_aligned pt \<Longrightarrow> tpage m pt path = Some p \<Longrightarrow> page_aligned p"
proof (induction path arbitrary: pt)
  case (Cons i path)
  then show ?case
    using Cons.IH [of "PTE2PA (load64 m (slot pt i))"] by (simp split: if_splits)
qed simp

lemma tpages_aligned: "pt_tree m pt \<Longrightarrow> p \<in> tpages m pt \<Longrightarrow> page_aligned p"
  by (auto simp: pt_tree_def tpages_def dest: tpage_aligned)

lemma tpagesI: "path_ok path \<Longrightarrow> tpage m pt path = Some p \<Longrightarrow> p \<in> tpages m pt"
  by (auto simp: tpages_def)

lemma root_tpages [simp]: "pt \<in> tpages m pt"
  by (auto simp: tpages_def path_ok_def intro!: exI [of _ "[]"])

lemma pt_treeD:
  "pt_tree m pt \<Longrightarrow> path_ok path \<Longrightarrow> path_ok path' \<Longrightarrow>
     tpage m pt path = Some p \<Longrightarrow> tpage m pt path' = Some p \<Longrightarrow> path = path'"
  by (auto simp: pt_tree_def)

lemma path_ok_snoc [simp]:
  "path_ok (path @ [i]) \<longleftrightarrow> path_ok path \<and> length path < 2 \<and> unat i < 512"
  by (auto simp: path_ok_def)

text \<open>A table page that no entry of the tree reads can change freely.\<close>

lemma tpage_cong:
  assumes "\<And>p path i. path_ok (path @ [i]) \<Longrightarrow> tpage m pt path = Some p \<Longrightarrow>
      load64 m' (slot p i) = load64 m (slot p i)"
  shows "path_ok path \<Longrightarrow> tpage m' pt path = tpage m pt path"
proof (induction path rule: rev_induct)
  case (snoc i path)
  then have "tpage m' pt path = tpage m pt path" by simp
  with assms [OF snoc.prems] show ?case
    unfolding tpage_snoc by (auto split: option.split)
qed simp

lemma tpage_agree:
  assumes "page_aligned pt" "agree_off P m m'" "P \<inter> tpages m pt = {}" "path_ok path"
  shows "tpage m' pt path = tpage m pt path"
proof (rule tpage_cong [OF _ assms(4)])
  fix p path i assume a: "path_ok (path @ [i])" "tpage m pt path = Some p"
  then have "page_aligned p" "p \<in> tpages m pt"
    using assms(1) by (auto intro: tpagesI dest: tpage_aligned)
  with a assms(2,3) show "load64 m' (slot p i) = load64 m (slot p i)"
    by (intro load64_agree_off) auto
qed

lemma tpages_eqI:
  "(\<And>path. path_ok path \<Longrightarrow> tpage m' pt path = tpage m pt path) \<Longrightarrow> tpages m' pt = tpages m pt"
  by (auto simp: tpages_def)

lemma pt_tree_eqI:
  "pt_tree m pt \<Longrightarrow> (\<And>path. path_ok path \<Longrightarrow> tpage m' pt path = tpage m pt path) \<Longrightarrow> pt_tree m' pt"
  by (auto simp: pt_tree_def)

text \<open>Writing an entry of a level-0 page changes no page of the tree.\<close>

lemma tpage_store_leaf:
  assumes t: "pt_tree m pt" and p: "tpage m pt path = Some p" "path_ok path" "length path = 2"
    and i: "unat i < 512" and ok: "path_ok path'"
  shows "tpage (store64 m (slot p i) v) pt path' = tpage m pt path'"
proof (rule tpage_cong [OF _ ok])
  fix q qpath j assume q: "path_ok (qpath @ [j])" "tpage m pt qpath = Some q"
  then have "path = qpath" if "p = q"
    using pt_treeD [OF t p(2), of qpath p] p(1) that by simp
  with p(3) q(1) have "p \<noteq> q" by auto
  moreover have "page_aligned p" "page_aligned q"
    using t p q by (auto simp: pt_tree_def dest: tpage_aligned)
  ultimately show "load64 (store64 m (slot p i) v) (slot q j) = load64 m (slot q j)"
    using q i by (simp add: load64_store64_if)
qed

text \<open>
  Linking a fresh zeroed page \<open>np\<close> at entry \<open>i\<close> of an inner page adds exactly that page.
  The lemma is stated on the entries read, whatever else the new memory holds.
\<close>

definition links_page :: "memory \<Rightarrow> addr \<Rightarrow> addr list \<Rightarrow> addr \<Rightarrow> addr \<Rightarrow> memory \<Rightarrow> bool" where
  "links_page m pt path i np m' \<longleftrightarrow>
     np \<notin> tpages m pt \<and> page_aligned np \<and>
     (\<exists>p. tpage m pt path = Some p \<and> load64 m (slot p i) AND PTE_V = 0 \<and>
        load64 m' (slot p i) = PA2PTE np OR PTE_V \<and>
        (\<forall>q\<in>tpages m pt. \<forall>j. unat j < 512 \<longrightarrow> (q, j) \<noteq> (p, i) \<longrightarrow>
           load64 m' (slot q j) = load64 m (slot q j))) \<and>
     (\<forall>j. unat j < 512 \<longrightarrow> load64 m' (slot np j) = 0)"

lemma PTE_V_less: "PTE_V < 1024"
  by (simp add: PTE_V_def)

lemma PTE_V_nonzero [simp]: "PTE_V \<noteq> 0"
  by (simp add: PTE_V_def)

lemma new_entry [simp]:
  "(PA2PTE np OR PTE_V) AND PTE_V \<noteq> 0"
  "page_aligned np \<Longrightarrow> PTE2PA (PA2PTE np OR PTE_V) = np"
  by (simp_all add: PTE2PA_PA2PTE PTE_V_less)

lemma tpage_links_page:
  assumes t: "pt_tree m pt" and l: "links_page m pt path i np m'" and ok: "path_ok (path @ [i])"
  shows "path_ok path' \<Longrightarrow> tpage m' pt path' =
     (if path' = path @ [i] then Some np else tpage m pt path')"
proof (induction path' rule: rev_induct)
  case (snoc j q)
  from l obtain p where p: "tpage m pt path = Some p" "load64 m (slot p i) AND PTE_V = 0"
    "load64 m' (slot p i) = PA2PTE np OR PTE_V"
    and same: "\<And>q j. q \<in> tpages m pt \<Longrightarrow> unat j < 512 \<Longrightarrow> (q, j) \<noteq> (p, i) \<Longrightarrow>
      load64 m' (slot q j) = load64 m (slot q j)"
    and np: "\<And>j. unat j < 512 \<Longrightarrow> load64 m' (slot np j) = 0" "page_aligned np"
    unfolding links_page_def by blast
  have q: "path_ok q" "length q < 2" "unat j < 512" using snoc.prems by auto
  show ?case
  proof (cases "q = path @ [i]")
    case True
    then have "tpage m pt q = None" "tpage m' pt q = Some np"
      using p(1,2) snoc.IH q(1) by (simp_all add: tpage_snoc)
    then show ?thesis
      unfolding tpage_snoc [of _ _ q j] using np q(3) True by simp
  next
    case False
    with snoc.IH q have IH: "tpage m' pt q = tpage m pt q" by simp
    show ?thesis
    proof (cases "tpage m pt q")
      case None
      with IH p(1) show ?thesis by (auto simp: tpage_snoc)
    next
      case (Some r)
      have "q = path" if "r = p"
        using pt_treeD [OF t q(1), of path] ok p(1) Some that by simp
      with IH Some p same [of r j] tpagesI [OF q(1) Some] q(3) np show ?thesis
        by (auto simp: tpage_snoc)
    qed
  qed
qed simp

lemma links_page_tree:
  assumes t: "pt_tree m pt" and l: "links_page m pt path i np m'" and ok: "path_ok (path @ [i])"
  shows "pt_tree m' pt" "tpages m' pt = insert np (tpages m pt)"
proof -
  note eq = tpage_links_page [OF t l ok]
  have np: "np \<notin> tpages m pt" using l by (simp add: links_page_def)
  have none: "tpage m pt (path @ [i]) = None"
    using l by (auto simp: links_page_def tpage_snoc)
  have fresh: "tpage m pt path' \<noteq> Some np" if "path_ok path'" for path'
    using np that tpagesI by blast
  have "path1 = path2" if "path_ok path1" "path_ok path2" "tpage m' pt path1 = Some q"
    "tpage m' pt path2 = Some q" for path1 path2 q
    using that eq [of path1] eq [of path2] fresh [of path1] fresh [of path2] pt_treeD [OF t]
    by (auto split: if_splits)
  with t show "pt_tree m' pt" unfolding pt_tree_def by blast
  show "tpages m' pt = insert np (tpages m pt)"
  proof (intro set_eqI iffI)
    fix q assume "q \<in> tpages m' pt"
    then show "q \<in> insert np (tpages m pt)"
      using eq by (auto simp: tpages_def split: if_splits)
  next
    fix q assume "q \<in> insert np (tpages m pt)"
    then consider "q = np" | path' where "path_ok path'" "tpage m pt path' = Some q"
      by (auto simp: tpages_def)
    then show "q \<in> tpages m' pt"
    proof cases
      case 1
      with eq [OF ok] show ?thesis using tpagesI [OF ok] by simp
    next
      case 2
      with none eq [of path'] show ?thesis by (auto intro: tpagesI split: if_splits)
    qed
  qed
qed

section \<open>The abstract map\<close>

text \<open>The valid leaf entry of each page below \<open>MAXVA\<close>.\<close>

definition va_path :: "addr \<Rightarrow> addr list" where
  "va_path va = [PX 2 va, PX 1 va]"

definition pt_map :: "memory \<Rightarrow> addr \<Rightarrow> addr \<Rightarrow> uint64 option" where
  "pt_map m pt va =
     (if page_aligned va \<and> va < MAXVA
      then case tpage m pt (va_path va) of None \<Rightarrow> None
        | Some p \<Rightarrow> let pte = load64 m (slot p (PX 0 va)) in
            if pte AND PTE_V \<noteq> 0 then Some pte else None
      else None)"

lemma va_path_ok [simp]: "path_ok (va_path va)"
  by (simp add: path_ok_def va_path_def PX_less)

lemma va_path_length [simp]: "length (va_path va) = 2"
  by (simp add: va_path_def)

lemma va_path_eq_iff: "va_path va = va_path va' \<longleftrightarrow> PX 2 va = PX 2 va' \<and> PX 1 va = PX 1 va'"
  by (simp add: va_path_def)

lemma pt_map_agree:
  assumes "page_aligned pt" "agree_off P m m'" "P \<inter> tpages m pt = {}"
  shows "pt_map m' pt = pt_map m pt"
proof
  fix va
  show "pt_map m' pt va = pt_map m pt va"
  proof (cases "tpage m pt (va_path va)")
    case None
    then show ?thesis using tpage_agree [OF assms va_path_ok] by (simp add: pt_map_def)
  next
    case (Some p)
    then have "load64 m' (slot p (PX 0 va)) = load64 m (slot p (PX 0 va))"
      using tpage_aligned [OF assms(1) Some] tpagesI [OF _ Some] assms(3)
      by (intro load64_agree_off [OF assms(2)]) (auto simp: PX_less)
    with Some tpage_agree [OF assms va_path_ok] show ?thesis by (simp add: pt_map_def)
  qed
qed

lemma pt_map_links_page:
  assumes t: "pt_tree m pt" and l: "links_page m pt path i np m'" and ok: "path_ok (path @ [i])"
  shows "pt_map m' pt = pt_map m pt"
proof
  fix va
  let ?path = "va_path va"
  note eq = tpage_links_page [OF t l ok, of ?path]
  have none: "tpage m pt (path @ [i]) = None"
    using l by (auto simp: links_page_def tpage_snoc)
  have zero: "load64 m' (slot np (PX 0 va)) = 0"
    using l by (simp add: links_page_def PX_less)
  have "load64 m' (slot p (PX 0 va)) = load64 m (slot p (PX 0 va))" if "tpage m pt ?path = Some p" for p
  proof -
    from l obtain q where q: "tpage m pt path = Some q"
      and same: "\<And>r j. r \<in> tpages m pt \<Longrightarrow> unat j < 512 \<Longrightarrow> (r, j) \<noteq> (q, i) \<Longrightarrow>
        load64 m' (slot r j) = load64 m (slot r j)"
      unfolding links_page_def by blast
    have "p \<noteq> q" using pt_treeD [OF t va_path_ok _ that, of path] q ok by auto
    then show ?thesis using same [of p] tpagesI [OF _ that] by (simp add: PX_less)
  qed
  with eq none zero show "pt_map m' pt va = pt_map m pt va"
    by (auto simp: pt_map_def split: option.split)
qed

text \<open>Writing a leaf entry updates the map at one page.\<close>

lemma pt_map_store_leaf:
  assumes t: "pt_tree m pt" and p: "tpage m pt (va_path va) = Some p"
    and va: "page_aligned va" "va < MAXVA"
  shows "pt_map (store64 m (slot p (PX 0 va)) v) pt =
     (pt_map m pt)(va := if v AND PTE_V \<noteq> 0 then Some v else None)"
proof
  fix va'
  let ?m = "store64 m (slot p (PX 0 va)) v"
  have same: "tpage ?m pt (va_path va') = tpage m pt (va_path va')"
    by (rule tpage_store_leaf [OF t p]) (simp_all add: PX_less)
  have al: "page_aligned pt" using t by (simp add: pt_tree_def)
  show "pt_map ?m pt va' = ((pt_map m pt)(va := if v AND PTE_V \<noteq> 0 then Some v else None)) va'"
  proof (cases "va' = va")
    case True
    with p same va show ?thesis by (simp add: pt_map_def)
  next
    case False
    have "load64 ?m (slot q (PX 0 va')) = load64 m (slot q (PX 0 va'))"
      if q: "tpage m pt (va_path va') = Some q" and va': "page_aligned va'" "va' < MAXVA" for q
    proof -
      have "slot p (PX 0 va) \<noteq> slot q (PX 0 va')"
        using pt_treeD [OF t va_path_ok va_path_ok p, of va'] q
          PX_inject [OF va(2) va'(2) va(1) va'(1)] False va_path_eq_iff [of va va'] tpage_aligned [OF al p] tpage_aligned [OF al q]
        by (auto simp: PX_less)
      then show ?thesis
        using tpage_aligned [OF al p] tpage_aligned [OF al q] by (simp add: PX_less load64_store64_if)
    qed
    with same False show ?thesis
      by (auto simp: pt_map_def split: option.split)
  qed
qed

section \<open>The invariant of a page table\<close>

definition pt_inv :: "'a kmem_scheme \<Rightarrow> addr list \<Rightarrow> addr \<Rightarrow> bool" where
  "pt_inv s ps pt \<longleftrightarrow> kmem_inv s ps \<and> pt_tree (mem s) pt \<and>
     (\<forall>p\<in>tpages (mem s) pt. \<not> bad_page s p \<and> p \<notin> set ps)"

text \<open>
  \<open>pt_ext pt s ps s' ps'\<close>: from \<open>s\<close> to \<open>s'\<close> the table \<open>pt\<close> may have taken new table pages
  off the front of the free list, and memory outside the table's pages has not changed.
\<close>

definition pt_ext :: "addr \<Rightarrow> 'a kmem_scheme \<Rightarrow> addr list \<Rightarrow> 'a kmem_scheme \<Rightarrow> addr list \<Rightarrow> bool" where
  "pt_ext pt s ps s' ps' \<longleftrightarrow> pt_inv s' ps' pt \<and>
     agree_off (tpages (mem s') pt) (mem s) (mem s') \<and>
     (\<exists>qs. ps = qs @ ps' \<and> distinct ps \<and> tpages (mem s') pt = tpages (mem s) pt \<union> set qs \<and>
       (\<forall>p. page_aligned p \<longrightarrow>
          refcnt s' (pa2idx p) = (if p \<in> set qs then 1 else refcnt s (pa2idx p)))) \<and>
     kend s' = kend s \<and> kmem.more s' = kmem.more s"

lemma pt_inv_distinct: "pt_inv s ps pt \<Longrightarrow> distinct ps"
  by (simp add: pt_inv_def kmem_inv_def flist_inv_def)

lemma pt_ext_refl: "pt_inv s ps pt \<Longrightarrow> pt_ext pt s ps s ps"
  using pt_inv_distinct by (auto simp: pt_ext_def)

lemma pt_ext_trans:
  assumes "pt_ext pt s ps s1 ps1" "pt_ext pt s1 ps1 s2 ps2"
  shows "pt_ext pt s ps s2 ps2"
proof -
  obtain qs where qs: "ps = qs @ ps1" "distinct ps" "tpages (mem s1) pt = tpages (mem s) pt \<union> set qs"
    "\<And>p. page_aligned p \<Longrightarrow> refcnt s1 (pa2idx p) = (if p \<in> set qs then 1 else refcnt s (pa2idx p))"
    using assms(1) by (auto simp: pt_ext_def)
  obtain rs where rs: "ps1 = rs @ ps2" "tpages (mem s2) pt = tpages (mem s1) pt \<union> set rs"
    "\<And>p. page_aligned p \<Longrightarrow> refcnt s2 (pa2idx p) = (if p \<in> set rs then 1 else refcnt s1 (pa2idx p))"
    using assms(2) by (auto simp: pt_ext_def)
  have "agree_off (tpages (mem s2) pt) (mem s) (mem s2)"
    using assms agree_off_trans [of "tpages (mem s1) pt" "mem s" "mem s1" "tpages (mem s2) pt" "mem s2"] rs(2)
    by (simp add: pt_ext_def Un_absorb1)
  moreover have "ps = (qs @ rs) @ ps2" "tpages (mem s2) pt = tpages (mem s) pt \<union> set (qs @ rs)"
    using qs rs by auto
  moreover have "refcnt s2 (pa2idx p) = (if p \<in> set (qs @ rs) then 1 else refcnt s (pa2idx p))"
    if "page_aligned p" for p
    using qs(4) [OF that] rs(3) [OF that] by auto
  ultimately show ?thesis
    using assms qs(2) unfolding pt_ext_def by metis
qed

lemma le_word_zero: "le_word (replicate n 0) = 0"
  by (induction n) simp_all

lemma load64_zero: "(\<And>i. i < 8 \<Longrightarrow> m (a + of_nat i) = 0) \<Longrightarrow> load64 m a = 0"
proof -
  assume "\<And>i. i < 8 \<Longrightarrow> m (a + of_nat i) = 0"
  then have "load_bytes m a 8 = replicate 8 0" by (intro nth_equalityI) (simp_all add: load_bytes_def)
  then show ?thesis by (simp only: load64_def le_word_zero)
qed

lemma load64_page_zero:
  "page_aligned p \<Longrightarrow> unat j < 512 \<Longrightarrow> load64 (memset m p 0 4096) (slot p j) = 0"
  by (rule load64_zero) (simp add: memset_apply in_range_page PGROUNDDOWN_add)

lemma link_new_links_page:
  assumes t: "pt_tree m pt" and p: "tpage m pt path = Some p" "path_ok (path @ [i])"
    "load64 m (slot p i) AND PTE_V = 0"
    and np: "np \<notin> tpages m pt" "page_aligned np"
  shows "links_page m pt path i np (store64 (memset m np 0 4096) (slot p i) (PA2PTE np OR PTE_V))"
proof -
  let ?m = "memset m np 0 4096"
  let ?m' = "store64 ?m (slot p i) (PA2PTE np OR PTE_V)"
  have al: "page_aligned p" and i: "unat i < 512" and pin: "p \<in> tpages m pt"
    using t p tpagesI [of path] by (auto simp: pt_tree_def dest: tpage_aligned)
  have "load64 ?m' (slot q j) = load64 m (slot q j)"
    if q: "q \<in> tpages m pt" and j: "unat j < 512" "(q, j) \<noteq> (p, i)" for q j
  proof -
    have alq: "page_aligned q" using tpages_aligned [OF t q] .
    then have "load64 ?m (slot q j) = load64 m (slot q j)"
      using np q j by (intro load64_agree_off [OF agree_off_memset]) auto
    with al alq i j show ?thesis by (auto simp: load64_store64_if)
  qed
  moreover have "load64 ?m' (slot np j) = 0" if "unat j < 512" for j
    using that al i np pin by (auto simp: load64_store64_if load64_page_zero)
  ultimately show ?thesis
    using p np unfolding links_page_def by (intro conjI exI [of _ p]) simp_all
qed

text \<open>One iteration of \<open>walk\<close> that allocates a table page.\<close>

definition link_new :: "addr \<Rightarrow> addr \<Rightarrow> 'a kmem_scheme \<Rightarrow> 'a kmem_scheme" where
  "link_new a np s = s\<lparr>mem := store64 (memset (mem s) np 0 4096) a (PA2PTE np OR PTE_V)\<rparr>"

lemma memset_memset: "memset (memset m p c n) p d n = memset m p d n"
  by (rule ext) (simp add: memset_apply)

lemma flist_inv_mem:
  assumes "flist_inv s ps" "agree_off P (mem s) m" "P \<inter> set ps = {}"
  shows "flist_inv (s\<lparr>mem := m\<rparr>) ps"
proof -
  have "page_aligned q \<and> q \<notin> P" if "q \<in> set ps" for q
    using assms(1,3) that not_bad_page_aligned by (auto simp: flist_inv_def)
  then show ?thesis
    using assms(1) flist_agree [OF _ assms(2)] by (simp add: flist_inv_def)
qed

lemma kmem_inv_mem:
  assumes "kmem_inv s ps" "agree_off P (mem s) m" "P \<inter> set ps = {}"
  shows "kmem_inv (s\<lparr>mem := m\<rparr>) ps"
  using assms flist_inv_mem [OF _ assms(2,3)] by (simp add: kmem_inv_def)

lemma pt_ext_link:
  assumes inv: "pt_inv s (np # ps) pt" and p: "tpage (mem s) pt path = Some p"
    "path_ok (path @ [i])" "load64 (mem s) (slot p i) AND PTE_V = 0"
  shows "pt_ext pt s (np # ps) (link_new (slot p i) np (snd (kalloc s))) ps"
    and "tpage (mem (link_new (slot p i) np (snd (kalloc s)))) pt (path @ [i]) = Some np"
    and "pt_map (mem (link_new (slot p i) np (snd (kalloc s)))) pt = pt_map (mem s) pt"
proof -
  let ?s = "link_new (slot p i) np (snd (kalloc s))"
  have fi: "flist_inv s (np # ps)" and t: "pt_tree (mem s) pt" and km: "kmem_inv s (np # ps)"
    using inv by (simp_all add: pt_inv_def kmem_inv_def)
  have np: "np \<notin> tpages (mem s) pt" "page_aligned np" "np \<notin> set ps" "\<not> bad_page s np" "distinct (np # ps)"
    using inv fi by (auto simp: pt_inv_def flist_inv_def dest: not_bad_page_aligned)
  have pin: "p \<in> tpages (mem s) pt" "page_aligned p" "unat i < 512"
    using p t tpagesI [of path] by (auto simp: pt_tree_def dest: tpage_aligned)
  have m: "mem ?s = store64 (memset (mem s) np 0 4096) (slot p i) (PA2PTE np OR PTE_V)"
    by (simp add: link_new_def kalloc_Cons [OF fi] memset_memset)
  have l: "links_page (mem s) pt path i np (mem ?s)"
    unfolding m by (rule link_new_links_page [OF t p np(1,2)])
  show "tpage (mem ?s) pt (path @ [i]) = Some np"
    using tpage_links_page [OF t l p(2) p(2)] by simp
  show "pt_map (mem ?s) pt = pt_map (mem s) pt"
    by (rule pt_map_links_page [OF t l p(2)])
  have ag': "agree_off {np, p} m (store64 (memset m np 0 4096) (slot p i) v)" for m v
    using agree_off_trans [OF agree_off_memset [OF np(2)] agree_off_store64 [of "slot p i"]] pin
    by (simp add: insert_commute)
  then have ag: "agree_off {np, p} (mem s) (mem ?s)" unfolding m .
  have tp: "tpages (mem ?s) pt = insert np (tpages (mem s) pt)"
    by (rule links_page_tree(2) [OF t l p(2)])
  have "kmem_inv ?s ps"
    unfolding link_new_def using inv np(3) pin(1)
    by (intro kmem_inv_mem [OF kalloc_kmem_inv [OF km] ag']) (auto simp: pt_inv_def)
  moreover have "\<not> bad_page ?s q \<and> q \<notin> set ps" if "q \<in> tpages (mem ?s) pt" for q
    using that inv np unfolding tp
    by (auto simp: pt_inv_def link_new_def kalloc_Cons [OF fi])
  ultimately have "pt_inv ?s ps pt"
    using links_page_tree(1) [OF t l p(2)] by (simp add: pt_inv_def)
  moreover have "refcnt ?s (pa2idx q) = (if q \<in> set [np] then 1 else refcnt s (pa2idx q))"
    if "page_aligned q" for q
    using that np(2) by (simp add: link_new_def kalloc_Cons [OF fi])
  moreover have "kend ?s = kend s" "kmem.more ?s = kmem.more s"
    by (simp_all add: link_new_def kalloc_Cons [OF fi])
  ultimately show "pt_ext pt s (np # ps) ?s ps"
    using agree_off_mono [OF ag] pin(1) np(5) tp
    unfolding pt_ext_def by (intro conjI exI [of _ "[np]"]) auto
qed

section \<open>walk\<close>

lemma walk_loop_Suc:
  "walk_loop (Suc l) p va alloc s =
     (let pte = load64 (mem s) (slot p (PX (Suc l) va)) in
      if pte AND PTE_V \<noteq> 0 then walk_loop l (PTE2PA pte) va alloc s
      else if \<not> alloc then (0, s)
      else let (np, s1) = kalloc s in
        if np = 0 then (0, s1)
        else walk_loop l np va alloc (link_new (slot p (PX (Suc l) va)) np s1))"
  by (simp add: Let_def slot_def link_new_def split: prod.split)

declare walk_loop.simps(2) [simp del]

lemma walk_two:
  "walk_loop 2 pt va alloc s = walk_loop (Suc (Suc 0)) pt va alloc s"
  by (simp add: numeral_2_eq_2)

text \<open>Without \<open>alloc\<close>, and when the table pages exist, \<open>walk\<close> only reads.\<close>

lemma walk_noalloc:
  "walk_loop 2 pt va False s =
     (case tpage (mem s) pt (va_path va) of None \<Rightarrow> 0 | Some p \<Rightarrow> slot p (PX 0 va), s)"
  by (simp add: walk_two walk_loop_Suc va_path_def Let_def slot_def [of _ "PX 0 va"] numeral_2_eq_2)

lemma walk_found:
  "tpage (mem s) pt (va_path va) = Some p \<Longrightarrow> walk_loop 2 pt va alloc s = (slot p (PX 0 va), s)"
  by (auto simp: walk_two walk_loop_Suc va_path_def Let_def slot_def [of _ "PX 0 va"] numeral_2_eq_2
      split: if_splits)

lemma va_path_take:
  "l < 2 \<Longrightarrow> take (2 - l) (va_path va) = take (2 - Suc l) (va_path va) @ [PX (Suc l) va]"
  by (cases l) (auto simp: va_path_def less_Suc_eq numeral_2_eq_2)

lemma path_ok_take: "path_ok path \<Longrightarrow> path_ok (take n path)"
  by (auto simp: path_ok_def dest: in_set_takeD)

lemma pt_inv_tpage:
  assumes "pt_inv s ps pt" "tpage (mem s) pt path = Some p" "path_ok path"
  shows "page_aligned p" "p \<noteq> 0" "\<not> bad_page s p" "p \<notin> set ps"
proof -
  have "kend s \<noteq> 0" using assms(1) by (simp add: pt_inv_def kmem_inv_def flist_inv_def)
  moreover show "\<not> bad_page s p" "p \<notin> set ps"
    using assms tpagesI by (auto simp: pt_inv_def)
  ultimately show "page_aligned p" "p \<noteq> 0"
    using not_bad_page_aligned bad_page_0 by blast+
qed

lemma walk_loop_ext:
  assumes "pt_inv s ps pt" "tpage (mem s) pt (take (2 - l) (va_path va)) = Some p" "l \<le> 2"
    "walk_loop l p va True s = (r, s')"
  shows "\<exists>ps'. pt_ext pt s ps s' ps' \<and> pt_map (mem s') pt = pt_map (mem s) pt \<and>
     (if r = 0 then ps' = [] \<and> length ps < l
      else \<exists>p0. tpage (mem s') pt (va_path va) = Some p0 \<and> r = slot p0 (PX 0 va))"
  using assms
proof (induction l arbitrary: p s ps)
  case 0
  then have p: "tpage (mem s) pt (va_path va) = Some p" by simp
  then have "slot p (PX 0 va) \<noteq> 0"
    using pt_inv_tpage [OF 0(1) p va_path_ok] slot_nonzero PX_less by blast
  with 0 p pt_ext_refl [OF 0(1)] show ?case by (auto simp: slot_def)
next
  case (Suc l)
  let ?i = "PX (Suc l) va" and ?path = "take (2 - Suc l) (va_path va)"
  have next_path: "take (2 - l) (va_path va) = ?path @ [?i]"
    using Suc.prems(3) by (intro va_path_take) simp
  have ok: "path_ok (?path @ [?i])"
    using path_ok_take [OF va_path_ok] next_path by metis
  note p = Suc.prems(2)
  show ?case
  proof (cases "load64 (mem s) (slot p ?i) AND PTE_V = 0")
    case False
    then have "tpage (mem s) pt (?path @ [?i]) = Some (PTE2PA (load64 (mem s) (slot p ?i)))"
      using p by (simp add: tpage_snoc)
    with False Suc.IH [OF Suc.prems(1)] Suc.prems(3,4) next_path show ?thesis
      by (fastforce simp: walk_loop_Suc Let_def split: if_splits)
  next
    case True
    show ?thesis
    proof (cases ps)
      case Nil
      then have "flist_inv s []" using Suc.prems(1) by (simp add: pt_inv_def kmem_inv_def)
      with True Suc.prems Nil pt_ext_refl [OF Suc.prems(1)] show ?thesis
        by (auto simp: walk_loop_Suc kalloc_Nil)
    next
      case (Cons np qs)
      let ?s = "link_new (slot p ?i) np (snd (kalloc s))"
      have ext: "pt_ext pt s (np # qs) ?s qs" "tpage (mem ?s) pt (?path @ [?i]) = Some np"
          "pt_map (mem ?s) pt = pt_map (mem s) pt"
        using pt_ext_link [OF Suc.prems(1) [unfolded Cons] p ok True] .
      have fi: "flist_inv s (np # qs)" using Suc.prems(1) Cons by (simp add: pt_inv_def kmem_inv_def)
      then have k: "fst (kalloc s) = np" "np \<noteq> 0"
        by (simp_all add: kalloc_Cons) (simp add: flist_inv_def)
      then have "walk_loop l np va True ?s = (r, s')"
        using Suc.prems(4) True by (simp add: walk_loop_Suc Let_def split: prod.splits)
      then obtain ps' where "pt_ext pt ?s qs s' ps'" "pt_map (mem s') pt = pt_map (mem s) pt" "if r = 0 then ps' = [] \<and> length qs < l
          else \<exists>p0. tpage (mem s') pt (va_path va) = Some p0 \<and> r = slot p0 (PX 0 va)"
        using Suc.IH [of ?s qs np] ext Suc.prems(3) next_path by (auto simp: pt_ext_def)
      with pt_ext_trans [OF ext(1)] Cons show ?thesis by (intro exI [of _ ps']) (auto split: if_splits)
    qed
  qed
qed

text \<open>Storing into the entry that \<open>walk\<close> returns.\<close>

lemma pt_inv_store_leaf:
  assumes inv: "pt_inv s ps pt" and p: "tpage (mem s) pt (va_path va) = Some p"
    and va: "page_aligned va" "va < MAXVA"
  shows "pt_ext pt s ps (s\<lparr>mem := store64 (mem s) (slot p (PX 0 va)) v\<rparr>) ps"
    and "pt_map (store64 (mem s) (slot p (PX 0 va)) v) pt =
      (pt_map (mem s) pt)(va := if v AND PTE_V \<noteq> 0 then Some v else None)"
proof -
  let ?m = "store64 (mem s) (slot p (PX 0 va)) v"
  note pp = pt_inv_tpage [OF inv p va_path_ok]
  have t: "pt_tree (mem s) pt" using inv by (simp add: pt_inv_def)
  show "pt_map ?m pt = (pt_map (mem s) pt)(va := if v AND PTE_V \<noteq> 0 then Some v else None)"
    by (rule pt_map_store_leaf [OF t p va])
  have same: "tpage ?m pt path = tpage (mem s) pt path" if "path_ok path" for path
    by (rule tpage_store_leaf [OF t p va_path_ok _ _ that]) (simp_all add: PX_less)
  have ag: "agree_off {p} (mem s) ?m"
    using agree_off_store64 [of "slot p (PX 0 va)" "mem s" v] pp(1) by (simp add: PX_less)
  have "kmem_inv (s\<lparr>mem := ?m\<rparr>) ps"
    using inv pp(4) by (intro kmem_inv_mem [OF _ ag]) (auto simp: pt_inv_def)
  then have "pt_inv (s\<lparr>mem := ?m\<rparr>) ps pt"
    using inv tpages_eqI [OF same] pt_tree_eqI [OF t same] by (simp add: pt_inv_def)
  with ag tpages_eqI [OF same] agree_off_mono [OF ag] tpagesI [OF va_path_ok p] pt_inv_distinct [OF inv]
  show "pt_ext pt s ps (s\<lparr>mem := ?m\<rparr>) ps" by (auto simp: pt_ext_def)
qed

lemma pt_map_lookup:
  "tpage m pt (va_path va) = Some p \<Longrightarrow> page_aligned va \<Longrightarrow> va < MAXVA \<Longrightarrow>
     load64 m (slot p (PX 0 va)) AND PTE_V = 0 \<longleftrightarrow> pt_map m pt va = None"
  "tpage m pt (va_path va) = Some p \<Longrightarrow> pt_map m pt va = Some pte \<Longrightarrow> load64 m (slot p (PX 0 va)) = pte"
  by (auto simp: pt_map_def Let_def split: if_splits)

section \<open>mappages\<close>

text \<open>The abstract effect: \<open>k\<close> consecutive pages get entries for consecutive physical pages.\<close>

primrec map_pages :: "(addr \<Rightarrow> uint64 option) \<Rightarrow> addr \<Rightarrow> addr \<Rightarrow> uint64 \<Rightarrow> nat \<Rightarrow> addr \<Rightarrow> uint64 option" where
  "map_pages M va pa perm 0 = M"
| "map_pages M va pa perm (Suc k) =
     map_pages (M(va \<mapsto> PA2PTE pa OR perm OR PTE_V)) (va + PGSIZE) (pa + PGSIZE) perm k"

lemma leaf_entry_valid [simp]: "(a OR b OR PTE_V) AND PTE_V \<noteq> 0"
  by (simp add: PTE_V_bit bit_or_iff) (simp add: PTE_V_def)

lemma page_step:
  assumes "page_aligned a" "unat a + 4096 * Suc m \<le> 274877906944"
  shows "a < MAXVA" "page_aligned (a + PGSIZE)" "unat (a + PGSIZE) = unat a + 4096"
proof -
  show "a < MAXVA" using assms(2) by (simp add: word_less_nat_alt unat_MAXVA)
  show e: "unat (a + PGSIZE) = unat a + 4096" using assms(2) by (simp add: unat_add_64)
  show "page_aligned (a + PGSIZE)" using assms(1) by (simp add: page_aligned_iff e)
qed

lemma walk_alloc_cases:
  assumes inv: "pt_inv s ps pt" and a: "page_aligned a" "a < MAXVA"
  obtains (fail) s1 where "walk pt a True s = Ok (0, s1)" "pt_ext pt s ps s1 []" "length ps < 2"
      "pt_map (mem s1) pt = pt_map (mem s) pt"
  | (found) pte s1 ps1 where "walk pt a True s = Ok (pte, s1)" "pte \<noteq> 0"
      "load64 (mem s1) pte AND PTE_V = 0 \<longleftrightarrow> pt_map (mem s) pt a = None"
      "\<And>v. pt_ext pt s ps (s1\<lparr>mem := store64 (mem s1) pte v\<rparr>) ps1"
      "\<And>v. pt_map (store64 (mem s1) pte v) pt =
         (pt_map (mem s) pt)(a := if v AND PTE_V \<noteq> 0 then Some v else None)"
proof -
  obtain r s1 where w: "walk_loop 2 pt a True s = (r, s1)" by fastforce
  with walk_loop_ext [OF inv _ _ this] obtain ps1 where
    ext: "pt_ext pt s ps s1 ps1" "pt_map (mem s1) pt = pt_map (mem s) pt" and
    r: "if r = 0 then ps1 = [] \<and> length ps < 2
      else \<exists>p0. tpage (mem s1) pt (va_path a) = Some p0 \<and> r = slot p0 (PX 0 a)"
    by auto
  have W: "walk pt a True s = Ok (r, s1)" using a(2) w by (simp add: walk_def)
  show thesis
  proof (cases "r = 0")
    case True
    with W r ext show ?thesis by (intro fail [of s1]) auto
  next
    case False
    with r obtain p0 where p0: "tpage (mem s1) pt (va_path a) = Some p0" "r = slot p0 (PX 0 a)"
      by auto
    have inv1: "pt_inv s1 ps1 pt" using ext(1) by (simp add: pt_ext_def)
    show ?thesis
    proof (rule found [OF W False])
      show "load64 (mem s1) r AND PTE_V = 0 \<longleftrightarrow> pt_map (mem s) pt a = None"
        using pt_map_lookup(1) [OF p0(1) a] ext(2) p0(2) by simp
      show "pt_ext pt s ps (s1\<lparr>mem := store64 (mem s1) r v\<rparr>) ps1" for v
        using pt_ext_trans [OF ext(1) pt_inv_store_leaf(1) [OF inv1 p0(1) a]] p0(2) by simp
      show "pt_map (store64 (mem s1) r v) pt =
         (pt_map (mem s) pt)(a := if v AND PTE_V \<noteq> 0 then Some v else None)" for v
        using pt_inv_store_leaf(2) [OF inv1 p0(1) a] ext(2) p0(2) by simp
    qed
  qed
qed

lemma page_at:
  assumes "unat a + 4096 * k \<le> 274877906944"
  shows "unat (a + of_nat k * PGSIZE) = unat a + 4096 * k"
proof -
  have "unat (of_nat k * PGSIZE :: addr) = 4096 * k"
    using assms by (simp add: PGSIZE_def unat_word_ariths unat_of_nat_64)
  with assms show ?thesis by (simp add: unat_add_64)
qed

lemma mappages_loop_spec:
  assumes "pt_inv s ps pt" "page_aligned a" "unat a + 4096 * Suc m \<le> 274877906944"
    and "\<forall>k\<le>m. pt_map (mem s) pt (a + of_nat k * PGSIZE) = None"
  shows "\<exists>r s' ps' k. mappages_loop pt a (a + of_nat m * PGSIZE) pa perm s = Ok (r, s') \<and>
     pt_ext pt s ps s' ps' \<and> pt_map (mem s') pt = map_pages (pt_map (mem s) pt) a pa perm k \<and>
     (r = 0 \<and> k = Suc m \<or> r = -1 \<and> k \<le> m \<and> ps' = [])"
  using assms
proof (induction m arbitrary: a pa s ps)
  case (0 a pa s ps)
  have "a < MAXVA" using page_step [OF 0(2,3)] by simp
  with 0(1,2) show ?case
  proof (cases rule: walk_alloc_cases)
    case (fail s1)
    then show ?thesis by (auto simp: mappages_loop.simps)
  next
    case (found pte s1 ps1)
    with 0(4) show ?thesis
      by (subst mappages_loop.simps) (auto simp: Let_def intro!: exI [of _ "Suc 0"])
  qed
next
  case (Suc m a pa s ps)
  note st = page_step [OF Suc.prems(2,3)]
  show ?case
    using Suc.prems(1,2) st(1)
  proof (cases rule: walk_alloc_cases)
    case (fail s1)
    then show ?thesis by (auto simp: mappages_loop.simps intro!: exI [of _ "[]"] exI [of _ "0::nat"])
  next
    case (found pte s1 ps1)
    let ?v = "PA2PTE pa OR perm OR PTE_V"
    let ?s = "s1\<lparr>mem := store64 (mem s1) pte ?v\<rparr>"
    have ne: "a + of_nat (Suc k) * PGSIZE \<noteq> a" if "k \<le> m" for k
      using page_at [of a "Suc k"] that Suc.prems(3) by (auto simp: word_unat_eq_iff simp del: of_nat_Suc)
    have shift: "a + PGSIZE + of_nat k * PGSIZE = a + of_nat (Suc k) * PGSIZE" for k
      by (simp add: algebra_simps)
    have M: "pt_map (mem ?s) pt = (pt_map (mem s) pt)(a \<mapsto> ?v)"
      using found(5) [of ?v] by simp
    have "\<forall>k\<le>m. pt_map (mem ?s) pt (a + PGSIZE + of_nat k * PGSIZE) = None"
      using Suc.prems(4) ne unfolding M shift by (auto simp del: of_nat_Suc)
    moreover have "pt_inv ?s ps1 pt" using found(4) [of ?v] by (simp add: pt_ext_def)
    moreover have "unat (a + PGSIZE) + 4096 * Suc m \<le> 274877906944"
      using Suc.prems(3) st(3) by simp
    ultimately obtain r s' ps' k where IH:
      "mappages_loop pt (a + PGSIZE) (a + PGSIZE + of_nat m * PGSIZE) (pa + PGSIZE) perm ?s = Ok (r, s')"
      "pt_ext pt ?s ps1 s' ps'"
      "pt_map (mem s') pt = map_pages (pt_map (mem ?s) pt) (a + PGSIZE) (pa + PGSIZE) perm k"
      "r = 0 \<and> k = Suc m \<or> r = -1 \<and> k \<le> m \<and> ps' = []"
      using Suc.IH [of ?s ps1 "a + PGSIZE" "pa + PGSIZE"] st(2) by auto
    have "mappages_loop pt a (a + of_nat (Suc m) * PGSIZE) pa perm s = Ok (r, s')"
      using found(1-3) Suc.prems(4) IH(1) ne [of m] unfolding shift
      by (subst mappages_loop.simps) (auto simp: Let_def simp del: of_nat_Suc)
    moreover have "pt_ext pt s ps s' ps'" using pt_ext_trans [OF found(4) IH(2)] .
    moreover have "pt_map (mem s') pt = map_pages (pt_map (mem s) pt) a pa perm (Suc k)"
      using IH(3) M by simp
    moreover have "r = 0 \<and> Suc k = Suc (Suc m) \<or> r = -1 \<and> Suc k \<le> Suc m \<and> ps' = []"
      using IH(4) by auto
    ultimately show ?thesis by blast
  qed
qed

lemma mappages_spec:
  assumes "pt_inv s ps pt" "page_aligned va" "unat va + 4096 * Suc m \<le> 274877906944"
    and "\<forall>k\<le>m. pt_map (mem s) pt (va + of_nat k * PGSIZE) = None"
  shows "\<exists>r s' ps' k. mappages pt va (of_nat (Suc m) * PGSIZE) pa perm s = Ok (r, s') \<and>
     pt_ext pt s ps s' ps' \<and> pt_map (mem s') pt = map_pages (pt_map (mem s) pt) va pa perm k \<and>
     (r = 0 \<and> k = Suc m \<or> r = -1 \<and> k \<le> m \<and> ps' = [])"
proof -
  have "unat (of_nat (Suc m) * PGSIZE :: addr) = 4096 * Suc m"
    using assms(3) by (simp add: PGSIZE_def unat_word_ariths unat_of_nat_64 del: of_nat_Suc)
  then have "of_nat (Suc m) * PGSIZE \<noteq> (0::addr)" "of_nat (Suc m) * PGSIZE mod PGSIZE = (0::addr)"
    by (auto simp add: word_mod_eq_0_iff simp del: of_nat_Suc)
  moreover have e: "va + of_nat (Suc m) * PGSIZE - PGSIZE = va + of_nat m * PGSIZE"
    by (simp add: algebra_simps)
  ultimately show ?thesis
    using mappages_loop_spec [OF assms] assms(2)
    by (simp add: mappages_def page_aligned_def e del: of_nat_Suc)
qed

text \<open>Mapping one page, the way \<open>uvmalloc\<close>, \<open>vmfault\<close> and \<open>mmap\<close> use \<open>mappages\<close>.\<close>

lemma mappages_one:
  assumes "pt_inv s ps pt" "page_aligned va" "va < MAXVA" "pt_map (mem s) pt va = None"
  shows "\<exists>r s' ps'. mappages pt va PGSIZE pa perm s = Ok (r, s') \<and> pt_ext pt s ps s' ps' \<and>
     (r = 0 \<and> pt_map (mem s') pt = (pt_map (mem s) pt)(va \<mapsto> PA2PTE pa OR perm OR PTE_V) \<or>
      r = -1 \<and> ps' = [] \<and> pt_map (mem s') pt = pt_map (mem s) pt)"
proof -
  obtain k where k: "unat va = 4096 * k" using assms(2) by (auto simp: page_aligned_iff)
  have "k < 67108864" using assms(3) k by (simp add: word_less_nat_alt unat_MAXVA)
  then have "unat va + 4096 * Suc 0 \<le> 274877906944" using k by simp
  from mappages_spec [OF assms(1,2) this, of pa perm] assms(4) show ?thesis by auto
qed

lemma mappages_one_room:
  assumes inv: "pt_inv s ps pt" "page_aligned va" "va < MAXVA" and none: "pt_map (mem s) pt va = None" and room: "2 \<le> length ps"
  shows "\<exists>s'. mappages pt va PGSIZE pa perm s = Ok (0, s')"
  using inv
proof (cases rule: walk_alloc_cases)
  case (fail s1)
  with room show ?thesis by simp
next
  case (found pte s1 ps1)
  then show ?thesis
    using none assms(2) by (simp add: mappages_def mappages_loop.simps [of pt va] page_aligned_def PGSIZE_def)
qed

section \<open>Lookups\<close>

lemma walk_read:
  assumes "va < MAXVA"
  shows "walk pt va False s =
    Ok (case tpage (mem s) pt (va_path va) of None \<Rightarrow> 0 | Some p \<Rightarrow> slot p (PX 0 va), s)"
  using assms by (simp add: walk_def walk_noalloc)

lemma walk_read_cases:
  assumes inv: "pt_inv s ps pt" and va: "page_aligned va" "va < MAXVA"
  obtains (absent) "walk pt va False s = Ok (0, s)" "pt_map (mem s) pt va = None"
  | (present) p where "tpage (mem s) pt (va_path va) = Some p" "slot p (PX 0 va) \<noteq> 0"
      "walk pt va False s = Ok (slot p (PX 0 va), s)"
proof (cases "tpage (mem s) pt (va_path va)")
  case None
  with va show ?thesis by (intro absent) (simp_all add: walk_read pt_map_def)
next
  case (Some p)
  note pt_inv_tpage [OF inv Some va_path_ok]
  then have "slot p (PX 0 va) \<noteq> 0" by (simp add: slot_nonzero PX_less)
  with Some va show ?thesis by (intro present) (simp_all add: walk_read)
qed

lemma ismapped_spec:
  assumes "pt_inv s ps pt" "page_aligned va" "va < MAXVA"
  shows "ismapped pt va s = Ok (pt_map (mem s) pt va \<noteq> None)"
  using assms
proof (cases rule: walk_read_cases)
  case (present p)
  with assms pt_map_lookup(1) [OF present(1)] show ?thesis by (simp add: ismapped_def)
qed (simp add: ismapped_def)

lemma walkaddr_spec:
  assumes "pt_inv s ps pt" "page_aligned va" "va < MAXVA"
  shows "walkaddr pt va s = Ok (case pt_map (mem s) pt va of None \<Rightarrow> 0
    | Some pte \<Rightarrow> if pte AND PTE_U = 0 then 0 else PTE2PA pte)"
  using assms
proof (cases rule: walk_read_cases)
  case (present p)
  with assms pt_map_lookup(1) [OF present(1)] pt_map_lookup(2) [OF present(1)] show ?thesis
    by (auto simp: walkaddr_def split: option.split)
next
  case absent
  with assms show ?thesis by (simp add: walkaddr_def)
qed

section \<open>uvmunmap\<close>

definition va_range :: "addr \<Rightarrow> nat \<Rightarrow> addr set" where
  "va_range a n = (\<lambda>k. a + of_nat k * PGSIZE) ` {..<n}"

lemma va_range_0 [simp]: "va_range a 0 = {}"
  by (simp add: va_range_def)

lemma va_range_Suc: "va_range a (Suc n) = insert a (va_range (a + PGSIZE) n)"
  by (auto simp: va_range_def image_iff lessThan_Suc_eq_insert_0 algebra_simps)

text \<open>The physical pages that the pages of \<open>A\<close> are mapped to.\<close>

definition frames :: "(addr \<Rightarrow> uint64 option) \<Rightarrow> addr set \<Rightarrow> addr set" where
  "frames M A = {p. \<exists>va\<in>A. \<exists>pte. M va = Some pte \<and> p = PTE2PA pte}"

text \<open>The pages of \<open>A\<close> are mapped to different allocated pages that are not table pages.\<close>

definition owns :: "'a kmem_scheme \<Rightarrow> addr list \<Rightarrow> addr \<Rightarrow> addr set \<Rightarrow> bool" where
  "owns s ps pt A \<longleftrightarrow>
     (\<forall>p\<in>frames (pt_map (mem s) pt) A. \<not> bad_page s p \<and> p \<notin> set ps \<and> p \<notin> tpages (mem s) pt) \<and>
     (\<forall>va\<in>A. \<forall>va'\<in>A. \<forall>pte pte'. pt_map (mem s) pt va = Some pte \<longrightarrow> pt_map (mem s) pt va' = Some pte' \<longrightarrow>
        PTE2PA pte = PTE2PA pte' \<longrightarrow> va = va')"

text \<open>From \<open>s\<close> to \<open>s'\<close> the mappings of \<open>A\<close> are gone and the frames \<open>F\<close> have lost one reference.\<close>

definition pt_shrink :: "addr \<Rightarrow> addr set \<Rightarrow> addr set \<Rightarrow> 'a kmem_scheme \<Rightarrow> 'a kmem_scheme \<Rightarrow> bool" where
  "pt_shrink pt A F s s' \<longleftrightarrow>
     pt_map (mem s') pt = pt_map (mem s) pt |` (- A) \<and> tpages (mem s') pt = tpages (mem s) pt \<and>
     agree_off (tpages (mem s) pt \<union> F) (mem s) (mem s') \<and>
     (\<forall>p. page_aligned p \<longrightarrow> refcnt s' (pa2idx p) = refcnt s (pa2idx p) - (if p \<in> F then 1 else 0)) \<and>
     kend s' = kend s \<and> kmem.more s' = kmem.more s"

lemma pt_shrink_trans:
  assumes "pt_shrink pt A F s s1" "pt_shrink pt B G s1 s2" "F \<inter> G = {}"
  shows "pt_shrink pt (A \<union> B) (F \<union> G) s s2"
proof -
  have "agree_off (tpages (mem s) pt \<union> F \<union> (tpages (mem s1) pt \<union> G)) (mem s) (mem s2)"
    using assms(1,2) agree_off_trans by (auto simp: pt_shrink_def)
  then have "agree_off (tpages (mem s) pt \<union> (F \<union> G)) (mem s) (mem s2)"
    by (rule agree_off_mono) (use assms(1) in \<open>auto simp: pt_shrink_def\<close>)
  moreover have "refcnt s2 (pa2idx p) = refcnt s (pa2idx p) - (if p \<in> F \<union> G then 1 else 0)"
    if "page_aligned p" for p
    using that assms by (auto simp: pt_shrink_def)
  ultimately show ?thesis
    using assms(1,2) by (auto simp: pt_shrink_def restrict_map_def fun_eq_iff)
qed

lemma kfree_frame:
  assumes "kmem_inv s ps" "\<not> bad_page s pa" "pa \<notin> set ps"
  obtains s' ps' where "kfree pa s = Ok s'" "kmem_inv s' ps'" "set ps' \<subseteq> insert pa (set ps)"
    "agree_off {pa} (mem s) (mem s')" "kend s' = kend s" "kmem.more s' = kmem.more s"
    "refcnt s' = (refcnt s)(pa2idx pa := refcnt s (pa2idx pa) - 1)" "bad_page s' = bad_page s"
proof -
  obtain s' where s': "kfree pa s = Ok s'"
    "kmem_inv s' (if refcnt s (pa2idx pa) = 1 then pa # ps else ps)"
    using kfree_kmem_inv [OF assms] by auto
  have al: "page_aligned pa" using assms(2) by (rule not_bad_page_aligned)
  have ge: "1 \<le> refcnt s (pa2idx pa)" by (rule kmem_inv_refcnt(1) [OF assms])
  have "agree_off {pa} (mem s) (store64 (memset (mem s) pa 1 4096) pa (freelist s))"
    using agree_off_trans [OF agree_off_memset [OF al] agree_off_store64 [OF page_aligned_aligned8 [OF al]]]
    by (simp add: PGROUNDDOWN_id [OF al])
  then have "agree_off {pa} (mem s) (mem s') \<and> kend s' = kend s \<and> kmem.more s' = kmem.more s \<and>
      refcnt s' = (refcnt s)(pa2idx pa := refcnt s (pa2idx pa) - 1) \<and> bad_page s' = bad_page s"
    using s'(1) kfree_shared [OF assms(2)] kfree_last [OF assms(2)] ge
    by (cases "refcnt s (pa2idx pa) = 1") auto
  then show thesis using s' by (intro that [OF s']) auto
qed

lemma pt_inv_agree:
  assumes inv: "pt_inv s ps pt" and k: "kmem_inv s' ps'" and ag: "agree_off P (mem s) (mem s')"
    and P: "P \<inter> tpages (mem s) pt = {}" "set ps' \<inter> tpages (mem s) pt = {}" and b: "kend s' = kend s"
  shows "pt_inv s' ps' pt" "tpages (mem s') pt = tpages (mem s) pt" "pt_map (mem s') pt = pt_map (mem s) pt"
    "path_ok path \<Longrightarrow> tpage (mem s') pt path = tpage (mem s) pt path"
proof -
  have t: "pt_tree (mem s) pt" and al: "page_aligned pt" using inv by (auto simp: pt_inv_def pt_tree_def)
  note same = tpage_agree [OF al ag P(1)]
  show tp: "tpages (mem s') pt = tpages (mem s) pt" by (rule tpages_eqI [OF same])
  show "pt_map (mem s') pt = pt_map (mem s) pt" by (rule pt_map_agree [OF al ag P(1)])
  show "path_ok path \<Longrightarrow> tpage (mem s') pt path = tpage (mem s) pt path" by (rule same)
  have "bad_page s' = bad_page s" using b by (simp add: bad_page_def fun_eq_iff)
  then show "pt_inv s' ps' pt"
    using inv k P(2) tp pt_tree_eqI [OF t same] by (auto simp: pt_inv_def)
qed

lemma unmap_entry:
  assumes inv: "pt_inv s ps pt" and p: "tpage (mem s) pt (va_path va) = Some p"
    and va: "page_aligned va" "va < MAXVA"
  shows "pt_shrink pt {va} {} s (s\<lparr>mem := store64 (mem s) (slot p (PX 0 va)) 0\<rparr>)"
    and "pt_inv (s\<lparr>mem := store64 (mem s) (slot p (PX 0 va)) 0\<rparr>) ps pt"
proof -
  note st = pt_inv_store_leaf [OF inv p va, of 0]
  then show "pt_inv (s\<lparr>mem := store64 (mem s) (slot p (PX 0 va)) 0\<rparr>) ps pt"
    by (simp add: pt_ext_def)
  have tp: "tpages (store64 (mem s) (slot p (PX 0 va)) 0) pt = tpages (mem s) pt"
    using st(1) by (auto simp: pt_ext_def)
  moreover have "agree_off (tpages (mem s) pt) (mem s) (store64 (mem s) (slot p (PX 0 va)) 0)"
    using st(1) tp by (simp add: pt_ext_def)
  ultimately show "pt_shrink pt {va} {} s (s\<lparr>mem := store64 (mem s) (slot p (PX 0 va)) 0\<rparr>)"
    using st(2) by (auto simp: pt_shrink_def restrict_map_def fun_eq_iff)
qed

lemma unmap_one:
  assumes inv: "pt_inv s ps pt" and p: "tpage (mem s) pt (va_path va) = Some p"
    and va: "page_aligned va" "va < MAXVA" and M: "pt_map (mem s) pt va = Some pte"
    and own: "do_free \<Longrightarrow> owns s ps pt {va}"
  shows "\<exists>s1 s' ps'. (if do_free then kfree (PTE2PA pte) s else Ok s) = Ok s1 \<and>
     s' = s1\<lparr>mem := store64 (mem s1) (slot p (PX 0 va)) 0\<rparr> \<and> pt_inv s' ps' pt \<and>
     set ps' \<subseteq> set ps \<union> (if do_free then {PTE2PA pte} else {}) \<and>
     pt_shrink pt {va} (if do_free then {PTE2PA pte} else {}) s s'"
proof (cases do_free)
  case False
  with unmap_entry [OF inv p va] show ?thesis by auto
next
  case True
  let ?pa = "PTE2PA pte"
  have pa: "\<not> bad_page s ?pa" "?pa \<notin> set ps" "?pa \<notin> tpages (mem s) pt"
    using own [OF True] M by (auto simp: owns_def frames_def)
  have k: "kmem_inv s ps" using inv by (simp add: pt_inv_def)
  obtain s1 ps1 where s1: "kfree ?pa s = Ok s1" "kmem_inv s1 ps1" "set ps1 \<subseteq> insert ?pa (set ps)"
    "agree_off {?pa} (mem s) (mem s1)" "kend s1 = kend s" "kmem.more s1 = kmem.more s"
    "refcnt s1 = (refcnt s)(pa2idx ?pa := refcnt s (pa2idx ?pa) - 1)" "bad_page s1 = bad_page s"
    using kfree_frame [OF k pa(1,2)] by metis
  have dis: "set ps1 \<inter> tpages (mem s) pt = {}" using s1(3) pa(3) inv by (auto simp: pt_inv_def)
  note same = pt_inv_agree [OF inv s1(2,4) _ dis s1(5)]
  have p1: "tpage (mem s1) pt (va_path va) = Some p" using same(4) pa(3) p by simp
  have "pt_shrink pt {} {?pa} s s1"
    using s1 same(2,3) pa(3) agree_off_mono [OF s1(4)]
    by (auto simp: pt_shrink_def restrict_map_def)
  from pt_shrink_trans [OF this unmap_entry(1) [OF same(1) p1 va]] unmap_entry(2) [OF same(1) p1 va]
  show ?thesis using s1 pa(3) True by (auto intro!: exI [of _ ps1])
qed

lemma frames_insert:
  "frames M (insert va A) = (case M va of None \<Rightarrow> {} | Some pte \<Rightarrow> {PTE2PA pte}) \<union> frames M A"
  by (auto simp: frames_def split: option.split)

lemma owns_shrink:
  assumes own: "owns s ps pt (insert va A)" and M: "pt_map (mem s) pt va = Some pte"
    and sh: "pt_shrink pt {va} F s s'" and ps: "set ps' \<subseteq> set ps \<union> {PTE2PA pte}"
    and va: "va \<notin> A"
  shows "owns s' ps' pt A"
proof -
  have M': "pt_map (mem s') pt x = pt_map (mem s) pt x" if "x \<in> A" for x
    using sh va that by (auto simp: pt_shrink_def restrict_map_def)
  then have f: "frames (pt_map (mem s') pt) A = frames (pt_map (mem s) pt) A"
    by (auto simp: frames_def)
  have "PTE2PA pte \<notin> frames (pt_map (mem s) pt) A"
    using own M va by (auto simp: owns_def frames_def)
  moreover have "bad_page s' = bad_page s" "tpages (mem s') pt = tpages (mem s) pt"
    using sh by (auto simp: pt_shrink_def bad_page_def)
  ultimately have "\<not> bad_page s' p \<and> p \<notin> set ps' \<and> p \<notin> tpages (mem s') pt"
    if "p \<in> frames (pt_map (mem s) pt) A" for p
    using own ps that unfolding owns_def by (auto simp: frames_insert)
  moreover have "x = y" if "x \<in> A" "y \<in> A" "pt_map (mem s) pt x = Some e" "pt_map (mem s) pt y = Some e'"
    "PTE2PA e = PTE2PA e'" for x y e e'
    using own that unfolding owns_def by blast
  ultimately show ?thesis
    using M' unfolding owns_def f by simp
qed

lemma va_range_less:
  assumes "unat a + 4096 * n \<le> 274877906944" "x \<in> va_range a n"
  shows "unat a \<le> unat x" "unat x < unat a + 4096 * n"
proof -
  obtain k where k: "k < n" "x = a + of_nat k * PGSIZE" using assms(2) by (auto simp: va_range_def)
  then have "unat x = unat a + 4096 * k" using page_at [of a k] assms(1) by simp
  with k(1) show "unat a \<le> unat x" "unat x < unat a + 4096 * n" by simp_all
qed

lemma frames_mono: "B \<subseteq> A \<Longrightarrow> frames M B \<subseteq> frames M A"
  by (auto simp: frames_def)

lemma owns_mono: "owns s ps pt A \<Longrightarrow> B \<subseteq> A \<Longrightarrow> owns s ps pt B"
  using frames_mono [of B A "pt_map (mem s) pt"] unfolding owns_def by (meson subsetD)

lemma pt_shrink_none:
  "pt_map (mem s) pt va = None \<Longrightarrow> pt_shrink pt {va} {} s s"
  by (auto simp: pt_shrink_def restrict_map_def)

lemma uvmunmap_loop_skip:
  assumes "pt_inv s ps pt" "page_aligned a" "a < MAXVA" "a < e" "pt_map (mem s) pt a = None"
  shows "uvmunmap_loop pt a e do_free s = uvmunmap_loop pt (a + PGSIZE) e do_free s"
  using assms(1-3)
proof (cases rule: walk_read_cases)
  case absent
  with assms(4) show ?thesis by (subst uvmunmap_loop.simps) simp
next
  case (present p)
  then have "load64 (mem s) (slot p (PX 0 a)) AND PTE_V = 0"
    using pt_map_lookup(1) [OF present(1)] assms by simp
  with present assms(4) show ?thesis by (subst uvmunmap_loop.simps) simp
qed

lemma uvmunmap_loop_hit:
  assumes "pt_inv s ps pt" "page_aligned a" "a < MAXVA" "a < e" "pt_map (mem s) pt a = Some pte"
    and "do_free \<Longrightarrow> owns s ps pt {a}"
  shows "\<exists>s' ps'. uvmunmap_loop pt a e do_free s = uvmunmap_loop pt (a + PGSIZE) e do_free s' \<and>
     pt_inv s' ps' pt \<and> set ps' \<subseteq> set ps \<union> (if do_free then {PTE2PA pte} else {}) \<and>
     pt_shrink pt {a} (if do_free then {PTE2PA pte} else {}) s s'"
  using assms(1-3)
proof (cases rule: walk_read_cases)
  case absent
  with assms(5) show ?thesis by simp
next
  case (present p)
  have v: "load64 (mem s) (slot p (PX 0 a)) = pte" "pte AND PTE_V \<noteq> 0"
    using pt_map_lookup(1) [OF present(1)] pt_map_lookup(2) [OF present(1)] assms by auto
  obtain s1 s' ps' where u: "(if do_free then kfree (PTE2PA pte) s else Ok s) = Ok s1"
    "s' = s1\<lparr>mem := store64 (mem s1) (slot p (PX 0 a)) 0\<rparr>" "pt_inv s' ps' pt"
    "set ps' \<subseteq> set ps \<union> (if do_free then {PTE2PA pte} else {})"
    "pt_shrink pt {a} (if do_free then {PTE2PA pte} else {}) s s'"
    using unmap_one [OF assms(1) present(1) assms(2,3,5,6)] by metis
  have "uvmunmap_loop pt a e do_free s = uvmunmap_loop pt (a + PGSIZE) e do_free s'"
    using present v u(1,2) assms(4) by (subst uvmunmap_loop.simps) (cases do_free; simp)
  with u show ?thesis by blast
qed

lemma uvmunmap_loop_spec:
  assumes "pt_inv s ps pt" "page_aligned a" "unat a + 4096 * n \<le> 274877906944"
    and "do_free \<Longrightarrow> owns s ps pt (va_range a n)"
  shows "\<exists>s' ps'. uvmunmap_loop pt a (a + of_nat n * PGSIZE) do_free s = Ok s' \<and> pt_inv s' ps' pt \<and>
     pt_shrink pt (va_range a n) (if do_free then frames (pt_map (mem s) pt) (va_range a n) else {}) s s'"
  using assms
proof (induction n arbitrary: a s ps)
  case 0
  have "uvmunmap_loop pt a (a + of_nat 0 * PGSIZE) do_free s = Ok s"
    by (subst uvmunmap_loop.simps) simp
  with 0 show ?case by (auto simp: pt_shrink_def frames_def)
next
  case (Suc n)
  let ?e = "a + of_nat (Suc n) * PGSIZE" and ?M = "pt_map (mem s) pt"
  note st = page_step [OF Suc.prems(2,3)]
  have lt: "a < ?e" using page_at [OF Suc.prems(3)] by (simp add: word_less_nat_alt del: of_nat_Suc)
  have e: "?e = a + PGSIZE + of_nat n * PGSIZE" by (simp add: algebra_simps)
  have b: "unat (a + PGSIZE) + 4096 * n \<le> 274877906944" using Suc.prems(3) st(3) by simp
  have nin: "a \<notin> va_range (a + PGSIZE) n" using va_range_less(1) [OF b, of a] st(3) by auto
  show ?case
  proof (cases "?M a")
    case None
    obtain s' ps' where IH: "uvmunmap_loop pt (a + PGSIZE) ?e do_free s = Ok s'" "pt_inv s' ps' pt"
      "pt_shrink pt (va_range (a + PGSIZE) n)
         (if do_free then frames ?M (va_range (a + PGSIZE) n) else {}) s s'"
      using Suc.IH [OF Suc.prems(1) st(2) b] Suc.prems(4) owns_mono [of s ps pt] unfolding e
      by (auto simp: va_range_Suc)
    have "uvmunmap_loop pt a ?e do_free s = Ok s'"
      using uvmunmap_loop_skip [OF Suc.prems(1,2) st(1) lt None] IH(1) by simp
    moreover have "pt_shrink pt (va_range a (Suc n)) (if do_free then frames ?M (va_range a (Suc n)) else {}) s s'"
      using pt_shrink_trans [OF pt_shrink_none [of s pt a] IH(3)] None
      by (simp add: va_range_Suc frames_insert split: if_splits)
    ultimately show ?thesis using IH(2) by blast
  next
    case (Some pte)
    have own: "owns s ps pt (insert a (va_range (a + PGSIZE) n))" if do_free
      using Suc.prems(4) [OF that] by (simp add: va_range_Suc)
    obtain s1 ps1 where s1: "uvmunmap_loop pt a ?e do_free s = uvmunmap_loop pt (a + PGSIZE) ?e do_free s1"
      "pt_inv s1 ps1 pt" "set ps1 \<subseteq> set ps \<union> (if do_free then {PTE2PA pte} else {})"
      "pt_shrink pt {a} (if do_free then {PTE2PA pte} else {}) s s1"
      using uvmunmap_loop_hit [OF Suc.prems(1,2) st(1) lt Some] owns_mono [OF own] by blast
    have own1: "owns s1 ps1 pt (va_range (a + PGSIZE) n)" if do_free
      using owns_shrink [OF own [OF that] Some s1(4) _ nin] s1(3) that by simp
    obtain s' ps' where IH: "uvmunmap_loop pt (a + PGSIZE) ?e do_free s1 = Ok s'" "pt_inv s' ps' pt"
      "pt_shrink pt (va_range (a + PGSIZE) n)
         (if do_free then frames (pt_map (mem s1) pt) (va_range (a + PGSIZE) n) else {}) s1 s'"
      using Suc.IH [OF s1(2) st(2) b own1] unfolding e by blast
    have f: "frames (pt_map (mem s1) pt) (va_range (a + PGSIZE) n) = frames ?M (va_range (a + PGSIZE) n)"
      using s1(4) nin by (auto simp: frames_def pt_shrink_def restrict_map_def)
    have "PTE2PA pte \<notin> frames ?M (va_range (a + PGSIZE) n)" if do_free
      using own [OF that] Some nin by (auto simp: owns_def frames_def)
    then have "pt_shrink pt (va_range a (Suc n)) (if do_free then frames ?M (va_range a (Suc n)) else {}) s s'"
      using pt_shrink_trans [OF s1(4) IH(3)] Some unfolding f
      by (auto simp: va_range_Suc frames_insert split: if_splits)
    with s1(1) IH(1,2) show ?thesis by auto
  qed
qed

lemma uvmunmap_spec:
  assumes "pt_inv s ps pt" "page_aligned a" "unat a + 4096 * n \<le> 274877906944"
    and "do_free \<Longrightarrow> owns s ps pt (va_range a n)"
  shows "\<exists>s' ps'. uvmunmap pt a (of_nat n) do_free s = Ok s' \<and> pt_inv s' ps' pt \<and>
     pt_shrink pt (va_range a n) (if do_free then frames (pt_map (mem s) pt) (va_range a n) else {}) s s'"
  using uvmunmap_loop_spec [OF assms] assms(2) by (simp add: uvmunmap_def page_aligned_def)

section \<open>Properties\<close>

text \<open>An empty table in the allocated page \<open>0x87ffe000\<close>.\<close>

lemma load64_zero_mem [simp]: "load64 (\<lambda>_. 0) a = 0"
  by (simp add: load64_def load_bytes_def upt_rec)

lemma tpage_zero: "tpage (\<lambda>_. 0) p path = Some q \<longleftrightarrow> path = [] \<and> q = p"
  by (cases path) auto

lemma empty_table_inv: "pt_inv one_free_page [0x87fff000] 0x87ffe000"
proof -
  have m: "mem one_free_page = (\<lambda>_. 0)" by (simp add: one_free_page_def)
  have "tpages (\<lambda>_. 0) 0x87ffe000 = {0x87ffe000}"
    by (auto simp: tpages_def tpage_zero path_ok_def)
  then show ?thesis
    using one_free_page_inv
    by (simp add: pt_inv_def m pt_tree_def tpage_zero page_aligned_def bad_page_def one_free_page_def
        PGSIZE_def PHYSTOP_def KERNBASE_def)
qed

lemma empty_table_map [simp]: "pt_map (mem one_free_page) 0x87ffe000 va = None"
  by (auto simp: pt_map_def one_free_page_def split: option.split)

text \<open>C4: \<open>mappages\<close> refines adding entries to a finite map: on a well-formed table and a range of
  unmapped pages below \<open>MAXVA\<close> it returns without a panic, and the table's abstract map gains
  exactly the new entries. If it runs out of memory for table pages it returns -1 having mapped a
  proper prefix of the range, and the free list is empty. Memory outside the table's own pages
  is untouched and only table pages were taken from the allocator.\<close>

theorem mappages_refines_map:
  assumes "pt_inv s ps pt" "page_aligned va" "unat va + 4096 * Suc m \<le> 274877906944"
    and "\<forall>k\<le>m. pt_map (mem s) pt (va + of_nat k * PGSIZE) = None"
  shows "\<exists>r s' ps' k. mappages pt va (of_nat (Suc m) * PGSIZE) pa perm s = Ok (r, s') \<and>
     pt_ext pt s ps s' ps' \<and> pt_map (mem s') pt = map_pages (pt_map (mem s) pt) va pa perm k \<and>
     (r = 0 \<and> k = Suc m \<or> r = -1 \<and> k \<le> m \<and> ps' = [])"
  using assms by (rule mappages_spec)

theorem mappages_refines_map_witness:
  "\<exists>r s' ps' k. mappages 0x87ffe000 0x1000 (of_nat (Suc 2) * PGSIZE) 0x87ffd000 PTE_R one_free_page = Ok (r, s') \<and>
     pt_ext 0x87ffe000 one_free_page [0x87fff000] s' ps' \<and>
     pt_map (mem s') 0x87ffe000 = map_pages (pt_map (mem one_free_page) 0x87ffe000) 0x1000 0x87ffd000 PTE_R k \<and>
     (r = 0 \<and> k = Suc 2 \<or> r = -1 \<and> k \<le> 2 \<and> ps' = [])"
  by (rule mappages_refines_map [OF empty_table_inv]) (simp_all add: page_aligned_def PGSIZE_def)

text \<open>A machine with two free pages and the same empty table.\<close>

definition two_free_pages :: kmem where
  "two_free_pages = \<lparr>mem = store64 (\<lambda>_. 0) 0x87ffd000 0x87fff000, kend = 0x80021000, freelist = 0x87ffd000,
     free_pages = 2, refcnt = (\<lambda>_. 1)(pa2idx 0x87ffd000 := 0, pa2idx 0x87fff000 := 0)\<rparr>"

lemma two_free_agree: "agree_off {0x87ffd000} (mem one_free_page) (mem two_free_pages)"
proof -
  have "PGROUNDDOWN 0x87ffd000 = (0x87ffd000 :: addr)" "aligned8 0x87ffd000"
    by (simp_all add: PGROUNDDOWN_id page_aligned_def PGSIZE_def aligned8_def)
  then show ?thesis
    using agree_off_store64 [of "0x87ffd000" "\<lambda>_. 0" "0x87fff000"] by (simp add: two_free_pages_def one_free_page_def)
qed

lemma two_free_kmem_inv: "kmem_inv two_free_pages [0x87ffd000, 0x87fff000]"
proof (rule kmem_invI)
  have al: "page_aligned 0x87ffd000" "page_aligned 0x87fff000" by (simp_all add: page_aligned_def PGSIZE_def)
  have ld: "load64 (mem two_free_pages) 0x87ffd000 = 0x87fff000" by (simp add: two_free_pages_def)
  have "load64 (mem two_free_pages) 0x87fff000 = load64 (mem one_free_page) 0x87fff000"
    using PGROUNDDOWN_id [OF al(2)] by (intro load64_agree_off [OF two_free_agree]) (simp_all add: aligned8_def)
  then have "load64 (mem two_free_pages) 0x87fff000 = 0" by (simp add: one_free_page_def)
  with ld show "flist_inv two_free_pages [0x87ffd000, 0x87fff000]"
    by (simp add: flist_inv_def) (simp add: two_free_pages_def bad_page_def PGSIZE_def PHYSTOP_def KERNBASE_def)
  fix p assume "page_aligned p"
  then show "0 \<le> refcnt two_free_pages (pa2idx p) \<and>
      (refcnt two_free_pages (pa2idx p) = 0 \<longleftrightarrow> p \<in> set [0x87ffd000, 0x87fff000])"
    by (auto simp: two_free_pages_def al)
qed

lemma empty_table_tpages: "tpages (mem one_free_page) 0x87ffe000 = {0x87ffe000}"
  by (auto simp: tpages_def tpage_zero path_ok_def one_free_page_def)

lemma two_free_pages_inv:
  "pt_inv two_free_pages [0x87ffd000, 0x87fff000] 0x87ffe000" "pt_map (mem two_free_pages) 0x87ffe000 va = None"
proof -
  have k: "kend two_free_pages = kend one_free_page" by (simp add: two_free_pages_def one_free_page_def)
  have d: "{0x87ffd000} \<inter> tpages (mem one_free_page) 0x87ffe000 = {}"
    "set [0x87ffd000, 0x87fff000] \<inter> tpages (mem one_free_page) 0x87ffe000 = {}" by (simp_all add: empty_table_tpages)
  note A = pt_inv_agree [OF empty_table_inv two_free_kmem_inv two_free_agree d k]
  show "pt_inv two_free_pages [0x87ffd000, 0x87fff000] 0x87ffe000" by (rule A(1))
  show "pt_map (mem two_free_pages) 0x87ffe000 va = None" using A(3) by simp
qed

text \<open>C23: Round trip through the page table: \<open>mappages\<close> of one user page returns 0 unless fewer than
  two pages are free for new table pages. Then \<open>walkaddr\<close> returns the physical page that was mapped;
  when it returned -1, \<open>walkaddr\<close> still finds nothing there. For every other page \<open>walkaddr\<close>
  returns what it returned before.\<close>

theorem mappages_walkaddr:
  assumes "pt_inv s ps pt" "page_aligned va" "va < MAXVA" "pt_map (mem s) pt va = None"
    and "page_aligned pa" "perm < 1024" "perm AND PTE_U \<noteq> 0"
  shows "\<exists>r s'. mappages pt va PGSIZE pa perm s = Ok (r, s') \<and>
     (r = 0 \<and> walkaddr pt va s' = Ok pa \<or> r = -1 \<and> length ps < 2 \<and> walkaddr pt va s' = Ok 0) \<and>
     (\<forall>va'. page_aligned va' \<longrightarrow> va' < MAXVA \<longrightarrow> va' \<noteq> va \<longrightarrow> walkaddr pt va' s' = walkaddr pt va' s)"
proof -
  obtain r s' ps' where m: "mappages pt va PGSIZE pa perm s = Ok (r, s')" "pt_inv s' ps' pt"
    "r = 0 \<and> pt_map (mem s') pt = (pt_map (mem s) pt)(va \<mapsto> PA2PTE pa OR perm OR PTE_V) \<or>
     r = -1 \<and> pt_map (mem s') pt = pt_map (mem s) pt"
    using mappages_one [OF assms(1-4), of pa perm] by (auto simp: pt_ext_def)
  have room: "r = -1 \<Longrightarrow> length ps < 2"
    using mappages_one_room [OF assms(1-4), of pa perm] m(1) by fastforce
  have f: "perm OR PTE_V < 1024"
    using and_mask_less' [of 10 "perm OR PTE_V"] take_bit_10_self [OF assms(6)]
    by (simp add: PTE_V_def take_bit_eq_mask [symmetric])
  have "(PA2PTE pa OR (perm OR PTE_V)) AND PTE_U \<noteq> 0"
    using assms(7) by (simp add: bit.conj_disj_distrib2 or_eq_0_iff)
  then have "r = 0 \<Longrightarrow> walkaddr pt va s' = Ok pa"
    using walkaddr_spec [OF m(2) assms(2,3)] m(3) PTE2PA_PA2PTE [OF assms(5) f] by (auto simp: or.assoc)
  moreover have "r = -1 \<Longrightarrow> walkaddr pt va s' = Ok 0"
    using walkaddr_spec [OF m(2) assms(2,3)] m(3) assms(4) by auto
  moreover have "walkaddr pt va' s' = walkaddr pt va' s" if "page_aligned va'" "va' < MAXVA" "va' \<noteq> va" for va'
    using walkaddr_spec [OF m(2) that(1,2)] walkaddr_spec [OF assms(1) that(1,2)] m(3) that(3) by auto
  ultimately show ?thesis using m(1,3) room by blast
qed

theorem mappages_walkaddr_witness:
  "\<exists>s'. mappages 0x87ffe000 0x1000 PGSIZE 0x87ffc000 (PTE_R OR PTE_U) two_free_pages = Ok (0, s') \<and>
     walkaddr 0x87ffe000 0x1000 s' = Ok 0x87ffc000"
  using mappages_walkaddr [OF two_free_pages_inv(1), of "0x1000" "0x87ffc000" "PTE_R OR PTE_U"] two_free_pages_inv(2)
  by (auto simp: page_aligned_def PGSIZE_def MAXVA_eq PTE_R_def PTE_U_def)



text \<open>C5: \<open>uvmunmap\<close> refines removing entries from the map: over a page-aligned range below \<open>MAXVA\<close> it
  returns without a panic whether or not the pages are mapped, the abstract map loses exactly the
  range, no table page changes, and with \<open>do_free\<close> each mapped frame of the range loses exactly one
  reference.\<close>

theorem uvmunmap_refines_restrict:
  assumes "pt_inv s ps pt" "page_aligned a" "unat a + 4096 * n \<le> 274877906944"
    and "do_free \<Longrightarrow> owns s ps pt (va_range a n)"
  shows "\<exists>s' ps'. uvmunmap pt a (of_nat n) do_free s = Ok s' \<and> pt_inv s' ps' pt \<and>
     pt_shrink pt (va_range a n) (if do_free then frames (pt_map (mem s) pt) (va_range a n) else {}) s s'"
  using assms by (rule uvmunmap_spec)

theorem uvmunmap_refines_restrict_witness:
  "\<exists>s' s''. mappages 0x87ffe000 0x1000 PGSIZE 0x87ffc000 PTE_R two_free_pages = Ok (0, s') \<and>
     uvmunmap 0x87ffe000 0x1000 (of_nat 1) True s' = Ok s'' \<and>
     pt_map (mem s') 0x87ffe000 0x1000 = Some (PA2PTE 0x87ffc000 OR PTE_R OR PTE_V) \<and>
     pt_map (mem s'') 0x87ffe000 0x1000 = None \<and> refcnt s'' (pa2idx 0x87ffc000) = 0"
proof -
  let ?pt = "0x87ffe000 :: addr" and ?pte = "PA2PTE 0x87ffc000 OR PTE_R OR PTE_V"
  have va: "page_aligned 0x1000" "(0x1000 :: addr) < MAXVA" by (simp_all add: page_aligned_def PGSIZE_def MAXVA_eq)
  obtain s' ps' where m: "mappages ?pt 0x1000 PGSIZE 0x87ffc000 PTE_R two_free_pages = Ok (0, s')"
    "pt_ext ?pt two_free_pages [0x87ffd000, 0x87fff000] s' ps'" "pt_map (mem s') ?pt = [0x1000 \<mapsto> ?pte]"
    using mappages_one [OF two_free_pages_inv(1) va two_free_pages_inv(2), of "0x87ffc000" PTE_R]
      mappages_one_room [OF two_free_pages_inv(1) va two_free_pages_inv(2), of "0x87ffc000" PTE_R] two_free_pages_inv(2)
    by (auto simp: fun_eq_iff)
  have t2: "tpages (mem two_free_pages) ?pt = {?pt}"
    using pt_inv_agree(2) [OF empty_table_inv two_free_kmem_inv two_free_agree] empty_table_tpages
    by (simp add: two_free_pages_def one_free_page_def)
  obtain qs where q: "[0x87ffd000, 0x87fff000] = qs @ ps'" "tpages (mem s') ?pt = {?pt} \<union> set qs" "pt_inv s' ps' ?pt"
    "\<And>p. page_aligned p \<Longrightarrow> refcnt s' (pa2idx p) = (if p \<in> set qs then 1 else refcnt two_free_pages (pa2idx p))"
    "kend s' = kend two_free_pages"
    using m(2) t2 by (auto simp: pt_ext_def)
  have sub: "set qs \<subseteq> {0x87ffd000, 0x87fff000}" "set ps' \<subseteq> {0x87ffd000, 0x87fff000}"
    using arg_cong [OF q(1), of set] by auto
  have pa: "PTE2PA ?pte = 0x87ffc000"
    using PTE2PA_PA2PTE [of "0x87ffc000" "PTE_R OR PTE_V"]
    by (simp add: page_aligned_def PGSIZE_def PTE_R_def PTE_V_def or.assoc)
  have fr: "frames (pt_map (mem s') ?pt) (va_range 0x1000 1) = {0x87ffc000}"
    by (auto simp: frames_def va_range_def m(3) pa)
  have al: "page_aligned 0x87ffc000" by (simp add: page_aligned_def PGSIZE_def)
  have own: "owns s' ps' ?pt (va_range 0x1000 1)"
    unfolding owns_def fr q(2) using sub q(5)
    by (auto simp: va_range_def bad_page_def PGSIZE_def two_free_pages_def PHYSTOP_def KERNBASE_def)
  obtain s'' where u: "uvmunmap ?pt 0x1000 (of_nat 1) True s' = Ok s''"
    "pt_shrink ?pt (va_range 0x1000 1) (frames (pt_map (mem s') ?pt) (va_range 0x1000 1)) s' s''"
    using uvmunmap_refines_restrict [OF q(3) va(1), of 1 True] own by auto
  have "refcnt s' (pa2idx 0x87ffc000) = 1"
    using q(4) [OF al] sub(1) by (auto simp: two_free_pages_def page_aligned_def PGSIZE_def)
  then have "refcnt s'' (pa2idx 0x87ffc000) = 0" "pt_map (mem s'') ?pt 0x1000 = None"
    using u(2) al unfolding fr by (auto simp: pt_shrink_def va_range_def)
  with m(1,3) u(1) show ?thesis by auto
qed

end
