(* ===== verification/Proc.thy ===== *)
theory Proc
  imports PageTable
begin

text \<open>
  \<open>kernel/proc.h\<close> and the scheduling part of \<open>kernel/proc.c\<close>: the process table, the
  EEVDF scheduler, the timer-tick accounting of \<open>kernel/trap.c\<close>, \<open>sleep\<close>, \<open>wakeup\<close>,
  \<open>kkill\<close> and the nice values. A \<open>struct proc *\<close> is an index into the table. \<open>myproc()\<close>
  is the argument \<open>me\<close>. The bodies between \<open>acquire(&p->lock)\<close> and its release are
  atomic. C \<open>int\<close> fields are mathematical integers, the \<open>uint64\<close> fields wrap.
\<close>

section \<open>Data\<close>

datatype procstate = UNUSED | USED | SLEEPING | RUNNABLE | RUNNING | ZOMBIE

text \<open>Sleep channels are addresses of kernel objects; different objects have different addresses.\<close>

datatype wchan = NullChan | ProcChan nat | TicksChan | PipeRd addr | PipeWr addr | LogChan
  | LockChan nat | ConsChan | UartChan | DiskFreeChan | BufChan nat

record swcontext =
  ctx_ra :: uint64
  ctx_sp :: uint64
  ctx_s :: "uint64 list"

record proc =
  p_state :: procstate
  p_chan :: wchan
  p_killed :: int
  p_xstate :: int
  p_pid :: int
  p_nice :: int
  p_parent :: "nat option"
  p_kstack :: uint64
  p_sz :: uint64
  p_pagetable :: addr
  p_trapframe :: addr
  p_context :: swcontext
  p_ofile :: "nat option list"
  p_cwd :: "nat option"
  p_name :: "byte list"
  p_runtime :: uint64
  p_vruntime :: uint64
  p_vdeadline :: uint64
  p_time_slice :: int
  p_total_tick :: uint64

record kproc = kmem +
  procs :: "proc list"
  nextpid :: int
  initproc :: "nat option"
  cpu_proc :: "nat option list"
  ticks :: uint32
  trampoline_pa :: addr
  forkret_pc :: uint64

definition NICE_MIN :: int where "NICE_MIN = 0"

definition NICE_MAX :: int where "NICE_MAX = 39"

definition weight_array :: "int list" where
  "weight_array = [
     88818, 71054, 56843, 45475, 36380, 29104, 23283, 18626, 14901, 11921,
     9537, 7629, 6104, 4883, 3906, 3125, 2500, 2000, 1600, 1280,
     1024, 819, 655, 524, 419, 336, 268, 215, 172, 137,
     110, 88, 70, 56, 45, 36, 29, 23, 18, 15]"

definition weight :: "proc \<Rightarrow> int" where
  "weight p = weight_array ! nat (p_nice p)"

text \<open>\<open>(5000 * 1024) / weight\<close>, an \<open>int\<close> division added to a \<open>uint64\<close>.\<close>

definition slice_deadline :: "proc \<Rightarrow> uint64" where
  "slice_deadline p = p_vruntime p + of_int ((5000 * 1024) div weight p)"

definition upd_proc :: "nat \<Rightarrow> (proc \<Rightarrow> proc) \<Rightarrow> 'a kproc_scheme \<Rightarrow> 'a kproc_scheme" where
  "upd_proc i f s = s\<lparr>procs := (procs s)[i := f (procs s ! i)]\<rparr>"

text \<open>The first process in table order that satisfies a test.\<close>

primrec find_proc :: "(proc \<Rightarrow> bool) \<Rightarrow> proc list \<Rightarrow> nat option" where
  "find_proc P [] = None"
| "find_proc P (p # ps) = (if P p then Some 0 else map_option Suc (find_proc P ps))"

section \<open>The scheduler's choice\<close>

definition on_runq :: "proc \<Rightarrow> bool" where
  "on_runq p \<longleftrightarrow> p_state p = RUNNABLE \<or> p_state p = RUNNING"

text \<open>The first loop: least virtual run time, sum of the weights, and whether a process is runnable.\<close>

definition sched_scan :: "proc list \<Rightarrow> uint64 \<times> uint64 \<times> bool" where
  "sched_scan ps = foldl (\<lambda>(min_v, w_sum, is_runnable) p.
     if on_runq p then
       (if p_vruntime p < min_v then p_vruntime p else min_v,
        w_sum + of_int (weight p),
        is_runnable \<or> p_state p = RUNNABLE)
     else (min_v, w_sum, is_runnable)) (-1, 0, False) ps"

definition sched_left :: "uint64 \<Rightarrow> proc list \<Rightarrow> uint64" where
  "sched_left min_v ps = foldl (\<lambda>left_side p.
     if on_runq p then left_side + (p_vruntime p - min_v) * of_int (weight p) else left_side) 0 ps"

definition is_eligible :: "uint64 \<Rightarrow> uint64 \<Rightarrow> uint64 \<Rightarrow> proc \<Rightarrow> bool" where
  "is_eligible min_v w_sum left_side p \<longleftrightarrow> left_side \<ge> (p_vruntime p - min_v) * w_sum"

text \<open>The third loop, from table index \<open>i\<close> with the best process so far.\<close>

fun sched_best :: "uint64 \<Rightarrow> uint64 \<Rightarrow> uint64 \<Rightarrow> nat \<Rightarrow> nat option \<Rightarrow> uint64 \<Rightarrow> proc list \<Rightarrow> nat option" where
  "sched_best min_v w_sum left_side i best best_vdeadline [] = best"
| "sched_best min_v w_sum left_side i best best_vdeadline (p # ps) =
     (if p_state p = RUNNABLE \<and> is_eligible min_v w_sum left_side p \<and> p_vdeadline p < best_vdeadline
      then sched_best min_v w_sum left_side (Suc i) (Some i) (p_vdeadline p) ps
      else sched_best min_v w_sum left_side (Suc i) best best_vdeadline ps)"

text \<open>
  One iteration up to the choice of \<open>best_p\<close>. The lock of a process is dropped between the
  loops, so each loop sees its own version of the table.
\<close>

definition sched_choose :: "proc list \<Rightarrow> proc list \<Rightarrow> proc list \<Rightarrow> nat option" where
  "sched_choose ps1 ps2 ps3 =
     (let (min_v, w_sum, is_runnable) = sched_scan ps1 in
      if \<not> is_runnable then None
      else sched_best min_v w_sum (sched_left min_v ps2) 0 None (-1) ps3)"

text \<open>The end of the iteration on CPU \<open>c\<close>, under the lock of the chosen process, up to \<open>swtch\<close>.\<close>

definition sched_dispatch :: "nat \<Rightarrow> nat option \<Rightarrow> 'a kproc_scheme \<Rightarrow> 'a kproc_scheme" where
  "sched_dispatch c best s = (case best of None \<Rightarrow> s
     | Some i \<Rightarrow>
         if p_state (procs s ! i) = RUNNABLE
         then (upd_proc i (\<lambda>p. p\<lparr>p_state := RUNNING\<rparr>) s)\<lparr>cpu_proc := (cpu_proc s)[c := Some i]\<rparr>
         else s)"

definition scheduler_round ::
  "nat \<Rightarrow> proc list \<Rightarrow> proc list \<Rightarrow> proc list \<Rightarrow> 'a kproc_scheme \<Rightarrow> 'a kproc_scheme" where
  "scheduler_round c ps1 ps2 ps3 s = sched_dispatch c (sched_choose ps1 ps2 ps3) s"

text \<open>\<open>swtch\<close> back into the scheduler, which then clears \<open>c->proc\<close>.\<close>

definition to_scheduler :: "nat \<Rightarrow> 'a kproc_scheme \<Rightarrow> 'a kproc_scheme" where
  "to_scheduler c s = s\<lparr>cpu_proc := (cpu_proc s)[c := None]\<rparr>"

section \<open>Operations on the table\<close>

definition allocpid :: "'a kproc_scheme \<Rightarrow> int \<times> 'a kproc_scheme" where
  "allocpid s = (nextpid s, s\<lparr>nextpid := nextpid s + 1\<rparr>)"

text \<open>\<open>sched\<close>: its checks, then the switch.\<close>

definition sched ::
  "nat \<Rightarrow> nat \<Rightarrow> bool \<Rightarrow> int \<Rightarrow> bool \<Rightarrow> 'a kproc_scheme \<Rightarrow> 'a kproc_scheme outcome" where
  "sched c me holding noff intr s =
     (if \<not> holding then Panic ''sched p->lock''
      else if noff \<noteq> 1 then Panic ''sched locks''
      else if p_state (procs s ! me) = RUNNING then Panic ''sched RUNNING''
      else if intr then Panic ''sched interruptible''
      else Ok (to_scheduler c s))"

text \<open>
  \<open>yield\<close> and the first half of \<open>sleep\<close> call \<open>sched\<close> holding exactly \<open>p->lock\<close> with
  interrupts off.
\<close>

definition yield_cpu :: "nat \<Rightarrow> nat \<Rightarrow> 'a kproc_scheme \<Rightarrow> 'a kproc_scheme outcome" where
  "yield_cpu c me s = sched c me True 1 False (upd_proc me (\<lambda>p. p\<lparr>p_state := RUNNABLE\<rparr>) s)"

definition sleep_begin :: "nat \<Rightarrow> nat \<Rightarrow> wchan \<Rightarrow> 'a kproc_scheme \<Rightarrow> 'a kproc_scheme outcome" where
  "sleep_begin c me ch s =
     sched c me True 1 False (upd_proc me (\<lambda>p. p\<lparr>p_chan := ch, p_state := SLEEPING\<rparr>) s)"

definition sleep_end :: "nat \<Rightarrow> 'a kproc_scheme \<Rightarrow> 'a kproc_scheme" where
  "sleep_end me s = upd_proc me (\<lambda>p. p\<lparr>p_chan := NullChan\<rparr>) s"

definition wake_proc :: "proc \<Rightarrow> proc" where
  "wake_proc p = (let p = p\<lparr>p_state := RUNNABLE\<rparr>; p = p\<lparr>p_time_slice := 5\<rparr>
     in p\<lparr>p_vdeadline := slice_deadline p\<rparr>)"

definition wakeup :: "wchan \<Rightarrow> nat option \<Rightarrow> 'a kproc_scheme \<Rightarrow> 'a kproc_scheme" where
  "wakeup ch me s = s\<lparr>procs := map (\<lambda>(i, p).
     if Some i \<noteq> me \<and> p_state p = SLEEPING \<and> p_chan p = ch then wake_proc p else p)
     (enumerate 0 (procs s))\<rparr>"

definition kkill :: "int \<Rightarrow> 'a kproc_scheme \<Rightarrow> int \<times> 'a kproc_scheme" where
  "kkill pid s = (case find_proc (\<lambda>p. p_pid p = pid) (procs s) of
       None \<Rightarrow> (-1, s)
     | Some i \<Rightarrow> (0, upd_proc i (\<lambda>p.
         let p = p\<lparr>p_killed := 1\<rparr> in
         if p_state p = SLEEPING then p\<lparr>p_state := RUNNABLE\<rparr> else p) s))"

definition setkilled :: "nat \<Rightarrow> 'a kproc_scheme \<Rightarrow> 'a kproc_scheme" where
  "setkilled i s = upd_proc i (\<lambda>p. p\<lparr>p_killed := 1\<rparr>) s"

definition killed :: "nat \<Rightarrow> 'a kproc_scheme \<Rightarrow> int" where
  "killed i s = p_killed (procs s ! i)"

definition getnice :: "int \<Rightarrow> 'a kproc_scheme \<Rightarrow> int" where
  "getnice pid s = (case find_proc (\<lambda>p. p_state p \<noteq> UNUSED \<and> p_pid p = pid) (procs s) of
     None \<Rightarrow> -1 | Some i \<Rightarrow> p_nice (procs s ! i))"

definition setnice :: "int \<Rightarrow> int \<Rightarrow> 'a kproc_scheme \<Rightarrow> int \<times> 'a kproc_scheme" where
  "setnice pid value s =
     (if value < NICE_MIN \<or> value > NICE_MAX then (-1, s)
      else case find_proc (\<lambda>p. p_state p \<noteq> UNUSED \<and> p_pid p = pid) (procs s) of
        None \<Rightarrow> (-1, s)
      | Some i \<Rightarrow> (0, upd_proc i (\<lambda>p.
          let p = p\<lparr>p_nice := value\<rparr>; p = p\<lparr>p_time_slice := 5\<rparr>
          in p\<lparr>p_vdeadline := slice_deadline p\<rparr>) s))"

section \<open>Timer ticks\<close>

text \<open>
  The update that \<open>usertrap\<close> and \<open>kerneltrap\<close> make for a running process, with the flag
  that says whether \<open>yield\<close> is called.
\<close>

definition tick_proc :: "proc \<Rightarrow> proc \<times> bool" where
  "tick_proc p =
     (let p = p\<lparr>p_runtime := p_runtime p + 1000\<rparr>;
          p = p\<lparr>p_total_tick := p_total_tick p + 1000\<rparr>;
          p = p\<lparr>p_time_slice := p_time_slice p - 1\<rparr>;
          p = p\<lparr>p_vruntime := p_vruntime p + of_int ((1000 * 1024) div weight p)\<rparr>
      in if p_time_slice p \<le> 0 then (p\<lparr>p_vdeadline := slice_deadline p\<rparr>, True) else (p, False))"

definition timer_tick :: "nat \<Rightarrow> nat \<Rightarrow> 'a kproc_scheme \<Rightarrow> 'a kproc_scheme outcome" where
  "timer_tick c me s =
     (if p_state (procs s ! me) = RUNNING then
        let (p, yields) = tick_proc (procs s ! me);
            s = s\<lparr>procs := (procs s)[me := p]\<rparr>
        in if yields then yield_cpu c me s else Ok s
      else Ok s)"

text \<open>\<open>clockintr\<close> without the timer register: CPU 0 counts the tick and wakes sleepers.\<close>

definition clockintr :: "nat \<Rightarrow> nat option \<Rightarrow> 'a kproc_scheme \<Rightarrow> 'a kproc_scheme" where
  "clockintr cpuid me s =
     (if cpuid = 0 then wakeup TicksChan me (s\<lparr>ticks := ticks s + 1\<rparr>) else s)"

end
