(* ===== verification/Sched.thy ===== *)
theory Sched
  imports Proc
begin

text \<open>
  What the scheduler of \<open>kernel/proc.c\<close> chooses. The reference definition of eligibility is
  over the natural numbers: a process is eligible when its virtual run time is at most the
  weighted average over the run queue. The code's 64-bit computation agrees with it as long
  as the products stay below \<open>2 ^ 64\<close>.
\<close>

section \<open>The run queue in natural numbers\<close>

abbreviation runq :: "proc list \<Rightarrow> proc list" where
  "runq ps \<equiv> filter on_runq ps"

definition nice_ok :: "proc \<Rightarrow> bool" where
  "nice_ok p \<longleftrightarrow> NICE_MIN \<le> p_nice p \<and> p_nice p \<le> NICE_MAX"

definition vr :: "proc \<Rightarrow> nat" where
  "vr p = unat (p_vruntime p)"

definition wt :: "proc \<Rightarrow> nat" where
  "wt p = nat (weight p)"

definition total_weight :: "proc list \<Rightarrow> nat" where
  "total_weight ps = sum_list (map wt (runq ps))"

definition eligible_spec :: "proc list \<Rightarrow> proc \<Rightarrow> bool" where
  "eligible_spec ps p \<longleftrightarrow> vr p * total_weight ps \<le> sum_list (map (\<lambda>q. vr q * wt q) (runq ps))"

lemma weight_array_bounds: "\<forall>w\<in>set weight_array. 15 \<le> w \<and> w \<le> 88818"
  by (simp add: weight_array_def)

lemma length_weight_array [simp]: "length weight_array = 40"
  by (simp add: weight_array_def)

lemma weight_bounds: "nice_ok p \<Longrightarrow> 15 \<le> weight p \<and> weight p \<le> 88818"
proof -
  assume "nice_ok p"
  then have "nat (p_nice p) < length weight_array"
    by (auto simp: nice_ok_def NICE_MIN_def NICE_MAX_def)
  then show ?thesis
    unfolding weight_def using weight_array_bounds nth_mem by blast
qed

text \<open>A lower nice value has a larger weight.\<close>

lemma weight_array_sorted: "sorted (rev weight_array)" "distinct weight_array"
  by (simp_all add: weight_array_def)

section \<open>The first two loops\<close>

lemma sched_scan_Nil: "sched_scan [] = (-1, 0, False)"
  by (simp add: sched_scan_def)

lemma sched_scan_snoc:
  "sched_scan (ps @ [p]) = (case sched_scan ps of (min_v, w_sum, r) \<Rightarrow>
     if on_runq p then (min (p_vruntime p) min_v, w_sum + of_int (weight p), r \<or> p_state p = RUNNABLE)
     else (min_v, w_sum, r))"
  by (auto simp: sched_scan_def min_def split: prod.split)

lemma sched_scan_min:
  "p \<in> set ps \<Longrightarrow> on_runq p \<Longrightarrow> fst (sched_scan ps) \<le> p_vruntime p"
  by (induction ps rule: rev_induct) (auto simp: sched_scan_snoc min_le_iff_disj split: prod.split)

lemma sched_scan_attained:
  "p \<in> set ps \<Longrightarrow> on_runq p \<Longrightarrow> \<exists>q\<in>set ps. on_runq q \<and> p_vruntime q = fst (sched_scan ps)"
proof (induction ps arbitrary: p rule: rev_induct)
  case (snoc x xs)
  obtain m w r where s: "sched_scan xs = (m, w, r)" by (cases "sched_scan xs")
  show ?case
  proof (cases "\<exists>q\<in>set xs. on_runq q")
    case True
    then obtain q where "q \<in> set xs" "on_runq q" "p_vruntime q = m" using snoc.IH s by fastforce
    then show ?thesis by (auto simp: sched_scan_snoc s min_def)
  next
    case False
    then have "m = -1" using s
    proof (induction xs arbitrary: m w r rule: rev_induct)
      case (snoc y ys)
      then show ?case by (cases "sched_scan ys") (auto simp: sched_scan_snoc)
    qed (simp add: sched_scan_Nil)
    with False snoc.prems show ?thesis by (auto simp: sched_scan_snoc s min_def)
  qed
qed simp

lemma of_int_weight: "nice_ok p \<Longrightarrow> of_int (weight p) = (of_nat (wt p) :: 64 word)"
  using weight_bounds [of p] by (simp add: wt_def)

lemma sched_scan_weight:
  "(\<And>p. p \<in> set ps \<Longrightarrow> nice_ok p) \<Longrightarrow> fst (snd (sched_scan ps)) = of_nat (total_weight ps)"
  by (induction ps rule: rev_induct)
    (auto simp: sched_scan_snoc sched_scan_Nil total_weight_def of_int_weight split: prod.split)

lemma sched_scan_runnable: "snd (snd (sched_scan ps)) \<longleftrightarrow> (\<exists>p\<in>set ps. p_state p = RUNNABLE)"
  by (induction ps rule: rev_induct)
    (auto simp: sched_scan_snoc sched_scan_Nil on_runq_def split: prod.split)

lemma sched_left_sum:
  "sched_left m ps = sum_list (map (\<lambda>p. (p_vruntime p - m) * of_int (weight p)) (runq ps))"
proof -
  have "foldl (\<lambda>l p. if on_runq p then l + (p_vruntime p - m) * of_int (weight p) else l) a ps =
      a + sum_list (map (\<lambda>p. (p_vruntime p - m) * of_int (weight p)) (runq ps))" for a
    by (induction ps arbitrary: a) (auto simp: algebra_simps)
  then show ?thesis by (simp add: sched_left_def)
qed

section \<open>Eligibility\<close>

text \<open>The spread of the run queue times its weight fits in 64 bits.\<close>

definition no_wrap :: "proc list \<Rightarrow> bool" where
  "no_wrap ps \<longleftrightarrow> (\<forall>p\<in>set (runq ps). \<forall>q\<in>set (runq ps).
     (vr p - vr q) * total_weight ps < 2 ^ 64)"

lemma sum_mult_le:
  fixes f g :: "'a \<Rightarrow> nat"
  shows "(\<And>x. x \<in> set xs \<Longrightarrow> f x \<le> b) \<Longrightarrow>
    sum_list (map (\<lambda>x. f x * g x) xs) \<le> b * sum_list (map g xs)"
  by (induction xs) (auto simp: add_mult_distrib2 intro: add_mono mult_right_mono)

lemma unat_sum_list:
  fixes f :: "'a \<Rightarrow> uint64"
  assumes "sum_list (map (unat \<circ> f) xs) < 2 ^ 64"
  shows "unat (sum_list (map f xs)) = sum_list (map (unat \<circ> f) xs)"
  using assms by (induction xs) (simp_all add: unat_add_64)

lemma unat_mult_64: "unat (a * b :: 64 word) = unat a * unat b" if "unat a * unat b < 2 ^ 64"
  using that by (simp add: unat_word_ariths)

lemma unat_weight: "nice_ok p \<Longrightarrow> unat (of_int (weight p) :: 64 word) = wt p"
proof -
  assume "nice_ok p"
  moreover from this have "wt p < 18446744073709551616" using weight_bounds [of p] by (auto simp: wt_def)
  ultimately show ?thesis by (simp add: of_int_weight unat_of_nat_64)
qed

text \<open>The left side without wrap-around, for any lower bound \<open>m\<close> of the virtual run times.\<close>

lemma sched_left_unat:
  assumes nice: "\<And>q. q \<in> set ps \<Longrightarrow> nice_ok q"
    and ge: "\<And>q. q \<in> set (runq ps) \<Longrightarrow> m \<le> p_vruntime q"
    and small: "\<And>q. q \<in> set (runq ps) \<Longrightarrow> (vr q - unat m) * total_weight ps < 2 ^ 64"
  shows "unat (sched_left m ps) = sum_list (map (\<lambda>q. (vr q - unat m) * wt q) (runq ps))"
proof (cases "runq ps = []")
  case True
  then show ?thesis by (simp add: sched_left_sum)
next
  case False
  let ?R = "runq ps" and ?D = "\<lambda>q. vr q - unat m"
  let ?b = "Max (?D ` set ?R)"
  have "?b \<in> ?D ` set ?R" using False by (intro Max_in) (auto simp del: set_filter)
  then have "?b * total_weight ps < 2 ^ 64" using small by auto
  moreover have "sum_list (map (\<lambda>q. ?D q * wt q) ?R) \<le> ?b * sum_list (map wt ?R)"
    by (rule sum_mult_le) (simp add: Max_ge)
  ultimately have sum: "sum_list (map (\<lambda>q. ?D q * wt q) ?R) < 2 ^ 64"
    by (simp add: total_weight_def)
  have t: "unat ((p_vruntime q - m) * of_int (weight q)) = ?D q * wt q" if q: "q \<in> set ?R" for q
  proof -
    have "wt q \<le> total_weight ps"
      unfolding total_weight_def using member_le_sum_list [of "wt q" "map wt ?R"] q by auto
    then have "?D q * wt q < 2 ^ 64"
      using small [OF q] by (meson le_less_trans mult_le_mono2)
    moreover have "unat (p_vruntime q - m) = ?D q"
      using ge [OF q] by (simp add: vr_def word_le_nat_alt unat_sub)
    ultimately show ?thesis using unat_weight [of q] nice q by (simp add: unat_mult_64)
  qed
  have e: "map (unat \<circ> (\<lambda>q. (p_vruntime q - m) * of_int (weight q))) ?R = map (\<lambda>q. ?D q * wt q) ?R"
    using t by (intro map_cong) simp_all
  show ?thesis
    using unat_sum_list [of "\<lambda>q. (p_vruntime q - m) * of_int (weight q)" ?R] sum
    unfolding e sched_left_sum by simp
qed

lemma shifted_sum:
  fixes v w :: "'a \<Rightarrow> nat"
  shows "(\<And>x. x \<in> set xs \<Longrightarrow> m \<le> v x) \<Longrightarrow> sum_list (map (\<lambda>x. v x * w x) xs) =
    sum_list (map (\<lambda>x. (v x - m) * w x) xs) + m * sum_list (map w xs)"
proof (induction xs)
  case (Cons x xs)
  then have "v x * w x = (v x - m) * w x + m * w x" by (simp flip: add_mult_distrib)
  moreover have "sum_list (map (\<lambda>x. v x * w x) xs) =
    sum_list (map (\<lambda>x. (v x - m) * w x) xs) + m * sum_list (map w xs)"
    using Cons by simp
  ultimately show ?case by (simp add: add_mult_distrib2)
qed simp

lemma eligible_iff:
  assumes nice: "\<And>q. q \<in> set ps \<Longrightarrow> nice_ok q" and nw: "no_wrap ps"
    and p: "p \<in> set ps" "on_runq p" and scan: "sched_scan ps = (m, w, r)"
  shows "is_eligible m w (sched_left m ps) p \<longleftrightarrow> eligible_spec ps p"
proof -
  let ?R = "runq ps" and ?T = "total_weight ps" and ?D = "\<lambda>q. vr q - unat m"
  obtain q0 where q0: "q0 \<in> set ?R" "unat m = vr q0"
    using sched_scan_attained [OF p] scan by (auto simp: vr_def)
  have ge: "m \<le> p_vruntime q" if "q \<in> set ?R" for q
    using sched_scan_min [of q ps] that scan by simp
  have small: "?D q * ?T < 2 ^ 64" if "q \<in> set ?R" for q
    using nw that q0 unfolding no_wrap_def by metis
  have left: "unat (sched_left m ps) = sum_list (map (\<lambda>q. ?D q * wt q) ?R)"
    using sched_left_unat [OF nice ge small] .
  have pR: "p \<in> set ?R" using p by simp
  have mp: "unat m \<le> vr p" using ge [OF pR] by (simp add: vr_def word_le_nat_alt)
  have w: "w = of_nat ?T" using sched_scan_weight [of ps] nice scan by simp
  have sub: "unat (p_vruntime p - m) = ?D p"
    using ge [OF pR] by (simp add: vr_def word_le_nat_alt unat_sub)
  have right: "unat ((p_vruntime p - m) * w) = ?D p * ?T"
  proof (cases "?D p")
    case 0
    with sub have "p_vruntime p - m = 0" by (simp add: unat_eq_0)
    with 0 show ?thesis by simp
  next
    case (Suc d)
    with small [OF pR] have "?T < 18446744073709551616" by simp
    then have "unat w = ?T" by (simp add: w unat_of_nat_64)
    with small [OF pR] sub show ?thesis by (simp add: unat_mult_64)
  qed
  have "sum_list (map (\<lambda>q. vr q * wt q) ?R) = sum_list (map (\<lambda>q. ?D q * wt q) ?R) + unat m * ?T"
    unfolding total_weight_def using ge by (intro shifted_sum) (simp add: vr_def word_le_nat_alt)
  moreover have "vr p * ?T = ?D p * ?T + unat m * ?T"
    using mp by (simp flip: add_mult_distrib)
  ultimately show ?thesis
    by (simp add: is_eligible_def eligible_spec_def word_le_nat_alt left right)
qed

section \<open>The chosen process\<close>

definition candidate :: "uint64 \<Rightarrow> uint64 \<Rightarrow> uint64 \<Rightarrow> proc \<Rightarrow> bool" where
  "candidate min_v w_sum left_side p \<longleftrightarrow> p_state p = RUNNABLE \<and> is_eligible min_v w_sum left_side p"

lemma sched_best_cases:
  "(sched_best mv w l i best bvd ps = best \<and>
      (\<forall>p\<in>set ps. candidate mv w l p \<longrightarrow> bvd \<le> p_vdeadline p)) \<or>
   (\<exists>j<length ps. sched_best mv w l i best bvd ps = Some (i + j) \<and> candidate mv w l (ps ! j) \<and>
      p_vdeadline (ps ! j) < bvd \<and>
      (\<forall>p\<in>set ps. candidate mv w l p \<longrightarrow> p_vdeadline (ps ! j) \<le> p_vdeadline p) \<and>
      (\<forall>k<j. candidate mv w l (ps ! k) \<longrightarrow> p_vdeadline (ps ! j) < p_vdeadline (ps ! k)))"
proof (induction ps arbitrary: i best bvd)
  case (Cons p ps)
  show ?case
  proof (cases "candidate mv w l p \<and> p_vdeadline p < bvd")
    case True
    then have e: "sched_best mv w l i best bvd (p # ps) =
        sched_best mv w l (Suc i) (Some i) (p_vdeadline p) ps"
      by (simp add: candidate_def)
    from Cons.IH [of "Suc i" "Some i" "p_vdeadline p"] show ?thesis
    proof (elim disjE exE conjE)
      assume "sched_best mv w l (Suc i) (Some i) (p_vdeadline p) ps = Some i"
        "\<forall>q\<in>set ps. candidate mv w l q \<longrightarrow> p_vdeadline p \<le> p_vdeadline q"
      with True e show ?thesis by (intro disjI2 exI [of _ 0]) simp
    next
      fix j assume "j < length ps"
        "sched_best mv w l (Suc i) (Some i) (p_vdeadline p) ps = Some (Suc i + j)"
        "candidate mv w l (ps ! j)" "p_vdeadline (ps ! j) < p_vdeadline p"
        "\<forall>q\<in>set ps. candidate mv w l q \<longrightarrow> p_vdeadline (ps ! j) \<le> p_vdeadline q"
        "\<forall>k<j. candidate mv w l (ps ! k) \<longrightarrow> p_vdeadline (ps ! j) < p_vdeadline (ps ! k)"
      with True e show ?thesis
        by (intro disjI2 exI [of _ "Suc j"]) (auto simp: less_Suc_eq_0_disj nth_Cons')
    qed
  next
    case False
    then have e: "sched_best mv w l i best bvd (p # ps) = sched_best mv w l (Suc i) best bvd ps"
      by (auto simp: candidate_def)
    from Cons.IH [of "Suc i" best bvd] show ?thesis
    proof (elim disjE exE conjE)
      assume "sched_best mv w l (Suc i) best bvd ps = best"
        "\<forall>q\<in>set ps. candidate mv w l q \<longrightarrow> bvd \<le> p_vdeadline q"
      with False e show ?thesis by auto
    next
      fix j assume "j < length ps" "sched_best mv w l (Suc i) best bvd ps = Some (Suc i + j)"
        "candidate mv w l (ps ! j)" "p_vdeadline (ps ! j) < bvd"
        "\<forall>q\<in>set ps. candidate mv w l q \<longrightarrow> p_vdeadline (ps ! j) \<le> p_vdeadline q"
        "\<forall>k<j. candidate mv w l (ps ! k) \<longrightarrow> p_vdeadline (ps ! j) < p_vdeadline (ps ! k)"
      with False e show ?thesis
        by (intro disjI2 exI [of _ "Suc j"]) (auto simp: less_Suc_eq_0_disj nth_Cons')
    qed
  qed
qed simp

lemma sched_best_Some:
  assumes "sched_best mv w l 0 None (-1) ps = Some j"
  shows "j < length ps" "candidate mv w l (ps ! j)"
    "\<And>p. p \<in> set ps \<Longrightarrow> candidate mv w l p \<Longrightarrow> p_vdeadline (ps ! j) \<le> p_vdeadline p"
    "\<And>k. k < j \<Longrightarrow> candidate mv w l (ps ! k) \<Longrightarrow> p_vdeadline (ps ! j) < p_vdeadline (ps ! k)"
  using sched_best_cases [of mv w l 0 None "-1" ps] assms by auto

lemma sched_best_None:
  "sched_best mv w l 0 None (-1) ps = None \<Longrightarrow> p \<in> set ps \<Longrightarrow> candidate mv w l p \<Longrightarrow> p_vdeadline p = -1"
  using sched_best_cases [of mv w l 0 None "-1" ps] by (auto simp: word_order.extremum_unique)

text \<open>With one version of the table, the choice in terms of the reference definition.\<close>

lemma sched_choose_spec:
  assumes nice: "\<And>q. q \<in> set ps \<Longrightarrow> nice_ok q" and nw: "no_wrap ps"
    and c: "sched_choose ps ps ps = Some j"
  shows "j < length ps" "p_state (ps ! j) = RUNNABLE" "eligible_spec ps (ps ! j)"
    "\<And>k. k < length ps \<Longrightarrow> p_state (ps ! k) = RUNNABLE \<Longrightarrow> eligible_spec ps (ps ! k) \<Longrightarrow>
       p_vdeadline (ps ! j) \<le> p_vdeadline (ps ! k) \<and> (k < j \<longrightarrow> p_vdeadline (ps ! j) < p_vdeadline (ps ! k))"
proof -
  obtain m w r where scan: "sched_scan ps = (m, w, r)" by (cases "sched_scan ps")
  let ?l = "sched_left m ps"
  have b: "sched_best m w ?l 0 None (-1) ps = Some j"
    using c by (auto simp: sched_choose_def scan split: if_splits)
  note best = sched_best_Some [OF b]
  have cand: "candidate m w ?l q \<longleftrightarrow> p_state q = RUNNABLE \<and> eligible_spec ps q" if "q \<in> set ps" for q
    using eligible_iff [OF nice nw that _ scan] by (auto simp: candidate_def on_runq_def)
  show "j < length ps" by (rule best(1))
  then show "p_state (ps ! j) = RUNNABLE" "eligible_spec ps (ps ! j)"
    using cand [of "ps ! j"] best(2) by auto
  fix k assume "k < length ps" "p_state (ps ! k) = RUNNABLE" "eligible_spec ps (ps ! k)"
  then show "p_vdeadline (ps ! j) \<le> p_vdeadline (ps ! k) \<and> (k < j \<longrightarrow> p_vdeadline (ps ! j) < p_vdeadline (ps ! k))"
    using cand [of "ps ! k"] best(3) [of "ps ! k"] best(4) [of k] by auto
qed

text \<open>
  When every process of the run queue is waiting for a CPU, the one with the least virtual
  run time is eligible, so the scheduler chooses a process.
\<close>

lemma sched_choose_runs:
  assumes r: "p \<in> set ps" "p_state p = RUNNABLE" and nr: "\<And>q. q \<in> set ps \<Longrightarrow> p_state q \<noteq> RUNNING"
    and vd: "\<And>q. q \<in> set ps \<Longrightarrow> p_vdeadline q \<noteq> -1"
  shows "\<exists>j. sched_choose ps ps ps = Some j"
proof -
  obtain m w r where scan: "sched_scan ps = (m, w, r)" by (cases "sched_scan ps")
  have r': "r" using sched_scan_runnable [of ps] scan assms(1,2) by auto
  obtain q where q: "q \<in> set ps" "on_runq q" "p_vruntime q = m"
    using sched_scan_attained [of p ps] assms(1,2) scan by (auto simp: on_runq_def)
  then have "candidate m w (sched_left m ps) q"
    using nr [of q] by (auto simp: candidate_def is_eligible_def on_runq_def)
  with sched_best_None [OF _ q(1)] vd [OF q(1)]
  have "sched_best m w (sched_left m ps) 0 None (-1) ps \<noteq> None" by auto
  with r' show ?thesis by (auto simp: sched_choose_def scan)
qed

section \<open>Ticks\<close>

abbreviation ticked :: "nat \<Rightarrow> proc \<Rightarrow> proc" where
  "ticked n p \<equiv> ((\<lambda>p. fst (tick_proc p)) ^^ n) p"

lemma tick_proc_fields:
  "p_time_slice (fst (tick_proc p)) = p_time_slice p - 1"
  "p_nice (fst (tick_proc p)) = p_nice p"
  "p_runtime (fst (tick_proc p)) = p_runtime p + 1000"
  "p_total_tick (fst (tick_proc p)) = p_total_tick p + 1000"
  "p_vruntime (fst (tick_proc p)) = p_vruntime p + of_int ((1000 * 1024) div weight p)"
  "snd (tick_proc p) \<longleftrightarrow> p_time_slice p \<le> 1"
  by (auto simp: tick_proc_def Let_def weight_def)

lemma tick_proc_deadline:
  "p_vdeadline (fst (tick_proc p)) =
     (if p_time_slice p \<le> 1 then slice_deadline (fst (tick_proc p)) else p_vdeadline p)"
  by (simp add: tick_proc_def Let_def slice_deadline_def weight_def)

lemma ticked_fields:
  "p_time_slice (ticked n p) = p_time_slice p - int n"
  "p_nice (ticked n p) = p_nice p"
  "p_runtime (ticked n p) = p_runtime p + of_nat (1000 * n)"
  "p_vruntime (ticked n p) = p_vruntime p + of_int (int n * ((1000 * 1024) div weight p))"
  by (induction n) (simp_all add: tick_proc_fields weight_def algebra_simps)

text \<open>
  The slice is not renewed when it runs out, only by \<open>wakeup\<close>, \<open>setnice\<close> and \<open>allocproc\<close>: from the
  fifth tick on, every tick of a process that does not sleep gives up the CPU.
\<close>

lemma ticked_yields: "snd (tick_proc (ticked n p)) \<longleftrightarrow> p_time_slice p \<le> int n + 1"
  by (simp add: tick_proc_fields(6) ticked_fields(1)) linarith

section \<open>Updates of the table\<close>

lemma length_upd_proc [simp]: "length (procs (upd_proc i f s)) = length (procs s)"
  by (simp add: upd_proc_def)

lemma nth_upd_proc: "j < length (procs s) \<Longrightarrow>
    procs (upd_proc i f s) ! j = (if j = i then f (procs s ! i) else procs s ! j)"
  by (auto simp: upd_proc_def nth_list_update)

lemma cpu_proc_upd_proc [simp]: "cpu_proc (upd_proc i f s) = cpu_proc s"
  by (simp add: upd_proc_def)

lemma length_wakeup [simp]: "length (procs (wakeup ch me s)) = length (procs s)"
  by (simp add: wakeup_def)

lemma nth_wakeup: "i < length (procs s) \<Longrightarrow> procs (wakeup ch me s) ! i =
    (if Some i \<noteq> me \<and> p_state (procs s ! i) = SLEEPING \<and> p_chan (procs s ! i) = ch
     then wake_proc (procs s ! i) else procs s ! i)"
  by (simp add: wakeup_def nth_enumerate_eq)

lemma find_proc_Some:
  "find_proc P ps = Some i \<Longrightarrow> i < length ps \<and> P (ps ! i) \<and> (\<forall>j<i. \<not> P (ps ! j))"
  by (induction ps arbitrary: i) (auto split: if_splits simp: less_Suc_eq_0_disj nth_Cons')

lemma find_proc_None: "find_proc P ps = None \<longleftrightarrow> (\<forall>p\<in>set ps. \<not> P p)"
  by (induction ps) auto

lemma wake_proc_fields:
  "p_state (wake_proc p) = RUNNABLE" "p_time_slice (wake_proc p) = 5" "p_nice (wake_proc p) = p_nice p"
  "p_vruntime (wake_proc p) = p_vruntime p" "p_vdeadline (wake_proc p) = slice_deadline p"
  by (simp_all add: wake_proc_def Let_def slice_deadline_def weight_def)

section \<open>Properties\<close>

text \<open>An idle process slot and a table with three processes, to instantiate the properties.\<close>

definition idle_proc :: proc where
  "idle_proc = \<lparr>p_state = UNUSED, p_chan = NullChan, p_killed = 0, p_xstate = 0, p_pid = 0, p_nice = 20,
     p_parent = None, p_kstack = 0, p_sz = 0, p_pagetable = 0, p_trapframe = 0,
     p_context = \<lparr>ctx_ra = 0, ctx_sp = 0, ctx_s = []\<rparr>, p_ofile = replicate 16 None, p_cwd = None, p_name = [],
     p_runtime = 0, p_vruntime = 0, p_vdeadline = 0, p_time_slice = 5, p_total_tick = 0\<rparr>"

definition three_procs :: "proc list" where
  "three_procs = [idle_proc\<lparr>p_state := RUNNABLE, p_pid := 1, p_vruntime := 9000, p_vdeadline := 9100\<rparr>,
     idle_proc\<lparr>p_state := RUNNABLE, p_pid := 2, p_nice := 10, p_vruntime := 3000, p_vdeadline := 9600\<rparr>,
     idle_proc\<lparr>p_state := RUNNABLE, p_pid := 3, p_vruntime := 3100, p_vdeadline := 9500\<rparr>]"

text \<open>C6: EEVDF: when the scheduler picks a process, the process is runnable, it is eligible (its virtual
  run time is at most the weighted average of the run queue, computed in exact arithmetic although
  the code uses wrapping 64-bit products), its virtual deadline is minimal among the eligible runnable
  processes, and ties go to the lowest table index. The hypotheses: nice values in range, and the
  spread of virtual run times times the total weight stays below \<open>2 ^ 64\<close>.\<close>

theorem scheduler_picks_earliest_eligible:
  assumes "\<And>q. q \<in> set ps \<Longrightarrow> nice_ok q" "no_wrap ps" "sched_choose ps ps ps = Some j"
  shows "j < length ps \<and> p_state (ps ! j) = RUNNABLE \<and> eligible_spec ps (ps ! j) \<and>
     (\<forall>k < length ps. p_state (ps ! k) = RUNNABLE \<longrightarrow> eligible_spec ps (ps ! k) \<longrightarrow>
        p_vdeadline (ps ! j) \<le> p_vdeadline (ps ! k) \<and> (k < j \<longrightarrow> p_vdeadline (ps ! j) < p_vdeadline (ps ! k)))"
  using sched_choose_spec [OF assms] by blast

theorem scheduler_picks_earliest_eligible_witness:
  "sched_choose three_procs three_procs three_procs = Some 2 \<and> eligible_spec three_procs (three_procs ! 2) \<and>
   \<not> eligible_spec three_procs (three_procs ! 0)"
proof -
  have c: "sched_choose three_procs three_procs three_procs = Some 2" by code_simp
  have n: "\<And>q. q \<in> set three_procs \<Longrightarrow> nice_ok q"
    by (auto simp: three_procs_def nice_ok_def idle_proc_def NICE_MIN_def NICE_MAX_def)
  have w: "no_wrap three_procs"
    by (simp add: no_wrap_def three_procs_def on_runq_def idle_proc_def vr_def total_weight_def wt_def
        weight_def weight_array_def)
  have "\<not> eligible_spec three_procs (three_procs ! 0)"
    by (simp add: eligible_spec_def three_procs_def on_runq_def idle_proc_def vr_def total_weight_def wt_def
        weight_def weight_array_def)
  with c scheduler_picks_earliest_eligible [OF n w c] show ?thesis by simp
qed

text \<open>C35: Work conservation on one CPU: if some process is runnable and none is running elsewhere, the
  scheduler always finds a process to run; the 64-bit arithmetic cannot make it come away empty.
  The deadline \<open>2 ^ 64 - 1\<close>, which the code uses for "none", is excluded.\<close>

theorem scheduler_finds_work:
  assumes "p \<in> set ps" "p_state p = RUNNABLE" "\<And>q. q \<in> set ps \<Longrightarrow> p_state q \<noteq> RUNNING"
    and "\<And>q. q \<in> set ps \<Longrightarrow> p_vdeadline q \<noteq> -1"
  shows "\<exists>j. sched_choose ps ps ps = Some j"
  using assms by (rule sched_choose_runs)

theorem scheduler_finds_work_witness: "\<exists>j. sched_choose three_procs three_procs three_procs = Some j"
  by (rule scheduler_finds_work [of "three_procs ! 0"]) (auto simp: three_procs_def idle_proc_def)




end
