(* ===== verification/Pipe.thy ===== *)
theory Pipe
  imports Ring Sched
begin

text \<open>
  \<open>kernel/pipe.c\<close>. A pipe is a ring buffer of 512 bytes in a page of its own; the model
  keeps it as a record found under the page's address. The loops run with \<open>pi->lock\<close>
  held, so from the call to the return or to the next \<open>sleep\<close> they are one atomic step:
  \<open>Blk i\<close> says that the call sleeps with \<open>i\<close> bytes done, and goes on from there when it
  is woken. User memory is reached through the two functions \<open>copyin\<close> and \<open>copyout\<close>,
  arguments here because they are defined on a larger state.
\<close>

section \<open>State and operations\<close>

definition PIPESIZE :: nat where "PIPESIZE = 512"

record pipe =
  pi_data :: "byte list"
  pi_nread :: uint32
  pi_nwrite :: uint32
  pi_readopen :: int
  pi_writeopen :: int

record kpipe = kproc +
  pipes :: "addr \<Rightarrow> pipe"

datatype 's progress = Ret int 's | Blk int 's

definition pipe_put :: "byte \<Rightarrow> pipe \<Rightarrow> pipe" where
  "pipe_put ch pi = pi\<lparr>pi_data := (pi_data pi)[ring_index PIPESIZE (pi_nwrite pi) := ch],
     pi_nwrite := pi_nwrite pi + 1\<rparr>"

definition pipe_get :: "pipe \<Rightarrow> byte \<times> pipe" where
  "pipe_get pi = (pi_data pi ! ring_index PIPESIZE (pi_nread pi), pi\<lparr>pi_nread := pi_nread pi + 1\<rparr>)"

definition upd_pipe :: "addr \<Rightarrow> pipe \<Rightarrow> 'a kpipe_scheme \<Rightarrow> 'a kpipe_scheme" where
  "upd_pipe a pi s = s\<lparr>pipes := (pipes s)(a := pi)\<rparr>"

text \<open>The fields that \<open>pipealloc\<close> sets in a fresh page; the data bytes keep their old values.\<close>

definition pipe_init :: "pipe \<Rightarrow> pipe" where
  "pipe_init pi = pi\<lparr>pi_readopen := 1, pi_writeopen := 1, pi_nwrite := 0, pi_nread := 0\<rparr>"

definition pipeclose :: "addr \<Rightarrow> bool \<Rightarrow> nat option \<Rightarrow> 'a kpipe_scheme \<Rightarrow> 'a kpipe_scheme outcome" where
  "pipeclose a writable me s =
     (let s = (if writable
               then wakeup (PipeRd a) me (upd_pipe a ((pipes s a)\<lparr>pi_writeopen := 0\<rparr>) s)
               else wakeup (PipeWr a) me (upd_pipe a ((pipes s a)\<lparr>pi_readopen := 0\<rparr>) s))
      in if pi_readopen (pipes s a) = 0 \<and> pi_writeopen (pipes s a) = 0 then kfree a s else Ok s)"

text \<open>The loop of \<open>pipewrite\<close> with \<open>i\<close> bytes written so far.\<close>

function pipewrite_loop ::
  "(addr \<Rightarrow> uint64 \<Rightarrow> 'a kpipe_scheme \<Rightarrow> (byte option \<times> 'a kpipe_scheme) outcome) \<Rightarrow> nat \<Rightarrow> addr \<Rightarrow> uint64 \<Rightarrow> int \<Rightarrow>
   int \<Rightarrow> 'a kpipe_scheme \<Rightarrow> 'a kpipe_scheme progress outcome" where
  "pipewrite_loop cin me a addr n i s =
     (if i < n then
        if pi_readopen (pipes s a) = 0 \<or> killed me s \<noteq> 0 then Ok (Ret (-1) s)
        else if pi_nwrite (pipes s a) = pi_nread (pipes s a) + of_nat PIPESIZE
        then Ok (Blk i (wakeup (PipeRd a) (Some me) s))
        else bindO (cin (p_pagetable (procs s ! me)) (addr + of_int i) s) (\<lambda>(r, s).
          case r of None \<Rightarrow> Ok (Ret i (wakeup (PipeRd a) (Some me) s))
          | Some ch \<Rightarrow> pipewrite_loop cin me a addr n (i + 1) (upd_pipe a (pipe_put ch (pipes s a)) s))
      else Ok (Ret i (wakeup (PipeRd a) (Some me) s)))"
  by pat_completeness auto
termination
  by (relation "measure (\<lambda>(cin, me, a, addr, n, i, s). nat (n - i))") auto

declare pipewrite_loop.simps [simp del]

definition pipewrite ::
  "(addr \<Rightarrow> uint64 \<Rightarrow> 'a kpipe_scheme \<Rightarrow> (byte option \<times> 'a kpipe_scheme) outcome) \<Rightarrow> nat \<Rightarrow> addr \<Rightarrow> uint64 \<Rightarrow> int \<Rightarrow>
   'a kpipe_scheme \<Rightarrow> 'a kpipe_scheme progress outcome" where
  "pipewrite cin me a addr n s = pipewrite_loop cin me a addr n 0 s"

text \<open>The copying loop of \<open>piperead\<close>.\<close>

function piperead_loop ::
  "(addr \<Rightarrow> uint64 \<Rightarrow> byte \<Rightarrow> 'a kpipe_scheme \<Rightarrow> (bool \<times> 'a kpipe_scheme) outcome) \<Rightarrow> nat \<Rightarrow> addr \<Rightarrow> uint64 \<Rightarrow> int \<Rightarrow>
   int \<Rightarrow> 'a kpipe_scheme \<Rightarrow> (int \<times> 'a kpipe_scheme) outcome" where
  "piperead_loop cout me a addr n i s =
     (if i < n then
        if pi_nread (pipes s a) = pi_nwrite (pipes s a) then Ok (i, s)
        else bindO (cout (p_pagetable (procs s ! me)) (addr + of_int i) (fst (pipe_get (pipes s a))) s) (\<lambda>(ok, s).
          if \<not> ok then Ok (if i = 0 then -1 else i, s)
          else piperead_loop cout me a addr n (i + 1) (upd_pipe a (snd (pipe_get (pipes s a))) s))
      else Ok (i, s))"
  by pat_completeness auto
termination
  by (relation "measure (\<lambda>(cout, me, a, addr, n, i, s). nat (n - i))") auto

declare piperead_loop.simps [simp del]

text \<open>\<open>piperead\<close>: it sleeps while the pipe is empty and a writer is left.\<close>

definition piperead ::
  "(addr \<Rightarrow> uint64 \<Rightarrow> byte \<Rightarrow> 'a kpipe_scheme \<Rightarrow> (bool \<times> 'a kpipe_scheme) outcome) \<Rightarrow> nat \<Rightarrow> addr \<Rightarrow> uint64 \<Rightarrow> int \<Rightarrow>
   'a kpipe_scheme \<Rightarrow> 'a kpipe_scheme progress outcome" where
  "piperead cout me a addr n s =
     (if pi_nread (pipes s a) = pi_nwrite (pipes s a) \<and> pi_writeopen (pipes s a) \<noteq> 0 then
        if killed me s \<noteq> 0 then Ok (Ret (-1) s) else Ok (Blk 0 s)
      else bindO (piperead_loop cout me a addr n 0 s) (\<lambda>(i, s).
        Ok (Ret i (wakeup (PipeWr a) (Some me) s))))"

section \<open>The queue\<close>

definition pipe_list :: "pipe \<Rightarrow> byte list" where
  "pipe_list pi = ring_list PIPESIZE (pi_data pi) (pi_nread pi) (pi_nwrite pi)"

definition pipe_inv :: "pipe \<Rightarrow> bool" where
  "pipe_inv pi \<longleftrightarrow> length (pi_data pi) = PIPESIZE \<and> unat (pi_nwrite pi - pi_nread pi) \<le> PIPESIZE"

lemma ring_size_PIPESIZE [simp]: "ring_size PIPESIZE"
  by (simp add: ring_size_def PIPESIZE_def)

interpretation pq: fifo pipe_inv pipe_list PIPESIZE pipe_put pipe_get
proof unfold_locales
  fix pi x assume inv: "pipe_inv pi" and room: "length (pipe_list pi) < PIPESIZE"
  then have "unat (pi_nwrite pi - pi_nread pi) < PIPESIZE" by (simp add: pipe_list_def)
  then show "pipe_inv (pipe_put x pi) \<and> pipe_list (pipe_put x pi) = pipe_list pi @ [x]"
    using inv ring_put [of PIPESIZE "pi_data pi"] ring_put_length [of PIPESIZE "pi_nwrite pi"]
    by (simp add: pipe_inv_def pipe_list_def pipe_put_def)
next
  fix pi assume inv: "pipe_inv pi" and ne: "pipe_list pi \<noteq> []"
  then have "pi_nread pi \<noteq> pi_nwrite pi" by (auto simp: pipe_list_def)
  then show "pipe_inv (snd (pipe_get pi)) \<and> pipe_list pi = fst (pipe_get pi) # pipe_list (snd (pipe_get pi))"
    using inv ring_get [of "pi_nread pi" "pi_nwrite pi"] ring_get_length [of "pi_nread pi" "pi_nwrite pi"]
    by (simp add: pipe_inv_def pipe_list_def pipe_get_def)
next
  fix pi assume "pipe_inv pi"
  then show "length (pipe_list pi) \<le> PIPESIZE" by (simp add: pipe_inv_def pipe_list_def)
qed

lemma pipe_full:
  assumes "pipe_inv pi"
  shows "pi_nwrite pi = pi_nread pi + of_nat PIPESIZE \<longleftrightarrow> length (pipe_list pi) = PIPESIZE"
proof -
  have "pi_nwrite pi = pi_nread pi + of_nat PIPESIZE \<longleftrightarrow> pi_nwrite pi - pi_nread pi = of_nat PIPESIZE"
    by (auto simp: algebra_simps)
  also have "\<dots> \<longleftrightarrow> unat (pi_nwrite pi - pi_nread pi) = PIPESIZE"
    by (simp add: word_unat_eq_iff unat_of_nat_32 PIPESIZE_def)
  finally show ?thesis by (simp add: pipe_list_def)
qed

lemma pipe_empty: "pi_nread pi = pi_nwrite pi \<longleftrightarrow> pipe_list pi = []"
  by (auto simp: pipe_list_def ring_list_def unat_eq_0)

section \<open>Whole calls\<close>

text \<open>
  What the two loops rely on when the user's buffer is mapped: a byte is read without changing
  the state, and a written byte changes only what \<open>view\<close> sees, at its address.
\<close>

definition reads_user :: "(addr \<Rightarrow> uint64 \<Rightarrow> 'a kpipe_scheme \<Rightarrow> (byte option \<times> 'a kpipe_scheme) outcome) \<Rightarrow>
    (uint64 \<Rightarrow> byte) \<Rightarrow> bool" where
  "reads_user cin u \<longleftrightarrow> (\<forall>pt va s. cin pt va s = Ok (Some (u va), s))"

definition writes_user :: "(addr \<Rightarrow> uint64 \<Rightarrow> byte \<Rightarrow> 'a kpipe_scheme \<Rightarrow> (bool \<times> 'a kpipe_scheme) outcome) \<Rightarrow>
    ('a kpipe_scheme \<Rightarrow> uint64 \<Rightarrow> byte) \<Rightarrow> bool" where
  "writes_user cout view \<longleftrightarrow> (\<forall>pt va ch s. \<exists>t. cout pt va ch s = Ok (True, t) \<and>
     pipes t = pipes s \<and> procs t = procs s \<and> view t = (view s)(va := ch)) \<and>
     (\<forall>a pi s. view (upd_pipe a pi s) = view s) \<and> (\<forall>ch p s. view (wakeup ch p s) = view s)"

lemma writes_userD:
  "writes_user cout view \<Longrightarrow> \<exists>t. cout pt va ch s = Ok (True, t) \<and> pipes t = pipes s \<and> view t = (view s)(va := ch)"
  unfolding writes_user_def by (elim conjE allE [of _ pt] allE [of _ va] allE [of _ ch] allE [of _ s]) blast

lemma pipes_wakeup [simp]: "pipes (wakeup ch me s) = pipes s"
  by (simp add: wakeup_def)

lemma upd_pipe_simps [simp]:
  "pipes (upd_pipe a pi s) = (pipes s)(a := pi)" "procs (upd_pipe a pi s) = procs s"
  by (simp_all add: upd_pipe_def)

lemma killed_upd_pipe [simp]: "killed me (upd_pipe a pi s) = killed me s"
  by (simp add: killed_def)

lemma pipe_put_open [simp]: "pi_readopen (pipe_put ch pi) = pi_readopen pi"
  by (simp add: pipe_put_def)

primrec user_bytes :: "(uint64 \<Rightarrow> byte) \<Rightarrow> uint64 \<Rightarrow> nat \<Rightarrow> byte list" where
  "user_bytes u va 0 = []"
| "user_bytes u va (Suc k) = u va # user_bytes u (va + 1) k"

primrec put_bytes :: "(uint64 \<Rightarrow> byte) \<Rightarrow> uint64 \<Rightarrow> byte list \<Rightarrow> uint64 \<Rightarrow> byte" where
  "put_bytes m va [] = m"
| "put_bytes m va (b # bs) = put_bytes (m(va := b)) (va + 1) bs"

lemma pipewrite_loop_spec:
  assumes "reads_user cin u" "pipe_inv (pipes s a)" "pi_readopen (pipes s a) \<noteq> 0" "killed me s = 0" "i \<le> n"
    and "k = min (nat (n - i)) (PIPESIZE - length (pipe_list (pipes s a)))"
  shows "\<exists>t. pipewrite_loop cin me a addr n i s = Ok (if i + int k = n then Ret n t else Blk (i + int k) t) \<and>
     pipe_inv (pipes t a) \<and>
     pipe_list (pipes t a) = pipe_list (pipes s a) @ user_bytes u (addr + of_int i) k"
  using assms
proof (induction k arbitrary: i s)
  case 0
  then consider "i = n" | "i < n" "length (pipe_list (pipes s a)) = PIPESIZE"
    using pq.cap_law [OF 0(2)] by linarith
  then show ?case
  proof cases
    case 1
    with 0(2) show ?thesis by (subst pipewrite_loop.simps) simp
  next
    case 2
    with 0(2-4) pipe_full [OF 0(2)] show ?thesis by (subst pipewrite_loop.simps) simp
  qed
next
  case (Suc k)
  let ?ch = "u (addr + of_int i)"
  let ?s = "upd_pipe a (pipe_put ?ch (pipes s a)) s"
  have lt: "i < n" and room: "length (pipe_list (pipes s a)) < PIPESIZE" using Suc.prems(6) by linarith+
  have put: "pipe_inv (pipes ?s a)" "pipe_list (pipes ?s a) = pipe_list (pipes s a) @ [?ch]"
    using pq.put_law [OF Suc.prems(2) room] by simp_all
  have step: "pipewrite_loop cin me a addr n i s = pipewrite_loop cin me a addr n (i + 1) ?s"
    using lt room Suc.prems(1,3,4) pipe_full [OF Suc.prems(2)]
    by (subst pipewrite_loop.simps) (simp add: reads_user_def)
  have k: "k = min (nat (n - (i + 1))) (PIPESIZE - length (pipe_list (pipes ?s a)))"
    using Suc.prems(6) put(2) by simp
  obtain t where t: "pipewrite_loop cin me a addr n (i + 1) ?s =
      Ok (if i + 1 + int k = n then Ret n t else Blk (i + 1 + int k) t)" "pipe_inv (pipes t a)"
    "pipe_list (pipes t a) = pipe_list (pipes ?s a) @ user_bytes u (addr + of_int (i + 1)) k"
    using Suc.IH [OF Suc.prems(1) put(1) _ _ _ k] Suc.prems(3,4) lt by auto
  show ?case
    using t put(2) by (intro exI [of _ t]) (simp add: step add.assoc)
qed

lemma piperead_loop_spec:
  assumes "writes_user cout view" "pipe_inv (pipes s a)" "0 \<le> i" "i \<le> n"
    and "k = min (nat (n - i)) (length (pipe_list (pipes s a)))"
  shows "\<exists>t. piperead_loop cout me a addr n i s = Ok (i + int k, t) \<and> pipe_inv (pipes t a) \<and>
     pipe_list (pipes t a) = drop k (pipe_list (pipes s a)) \<and>
     view t = put_bytes (view s) (addr + of_int i) (take k (pipe_list (pipes s a)))"
  using assms
proof (induction k arbitrary: i s)
  case 0
  then have "i = n \<or> pipe_list (pipes s a) = []" by (auto simp: min_def split: if_splits)
  then have "piperead_loop cout me a addr n i s = Ok (i, s)"
    by (auto simp: piperead_loop.simps pipe_empty [symmetric])
  with 0 show ?case by auto
next
  case (Suc k)
  let ?l = "pipe_list (pipes s a)"
  have lt: "i < n" and ne: "?l \<noteq> []" using Suc.prems(5) by auto
  note get = pq.get_law [OF Suc.prems(2) ne]
  let ?ch = "fst (pipe_get (pipes s a))" and ?pt = "p_pagetable (procs s ! me)"
  obtain t1 where t1: "cout ?pt (addr + of_int i) ?ch s = Ok (True, t1)" "pipes t1 = pipes s"
    "view t1 = (view s)(addr + of_int i := ?ch)"
    using writes_userD [OF Suc.prems(1), of ?pt "addr + of_int i" ?ch s] by (elim exE conjE)
  let ?s = "upd_pipe a (snd (pipe_get (pipes t1 a))) t1"
  have l: "?l = ?ch # pipe_list (pipes ?s a)" "pipe_inv (pipes ?s a)" using get t1(2) by simp_all
  have v: "view ?s = (view s)(addr + of_int i := ?ch)"
    using Suc.prems(1) t1(3) by (simp add: writes_user_def)
  have step: "piperead_loop cout me a addr n i s = piperead_loop cout me a addr n (i + 1) ?s"
    using lt ne t1(1) by (subst piperead_loop.simps) (simp add: pipe_empty)
  have k: "k = min (nat (n - (i + 1))) (length (pipe_list (pipes ?s a)))"
    using Suc.prems(5) by (subst (asm) l(1)) simp
  obtain t where t: "piperead_loop cout me a addr n (i + 1) ?s = Ok (i + 1 + int k, t)" "pipe_inv (pipes t a)"
    "pipe_list (pipes t a) = drop k (pipe_list (pipes ?s a))"
    "view t = put_bytes (view ?s) (addr + of_int (i + 1)) (take k (pipe_list (pipes ?s a)))"
    using Suc.IH [OF Suc.prems(1) l(2) _ _ k] Suc.prems(3) lt by auto
  have "put_bytes (view s) (addr + of_int i) (take (Suc k) ?l) = view t"
    unfolding t(4) v by (subst l(1)) (simp add: add.assoc)
  moreover have "drop (Suc k) ?l = pipe_list (pipes t a)" by (subst l(1)) (simp add: t(3))
  ultimately show ?case using t(1,2) by (intro exI [of _ t]) (simp add: step)
qed

section \<open>Properties\<close>

text \<open>C21: A pipe is a FIFO queue: for every sequence of byte writes and reads that the full and empty
  tests let through, the bytes read followed by the bytes still in the pipe are the bytes that were
  in it followed by the bytes written, although the two counters wrap around at \<open>2 ^ 32\<close> and the
  buffer index wraps at 512.\<close>

theorem pipe_is_fifo:
  assumes "pipe_inv pi" "pq.run_ops ops pi = Some (out, pi')"
  shows "pipe_inv pi' \<and> pipe_list pi @ put_values ops = out @ pipe_list pi'"
  using assms by (rule pq.fifo_order)

definition wrapping_pipe :: pipe where
  "wrapping_pipe = \<lparr>pi_data = replicate 512 0, pi_nread = -1, pi_nwrite = -1, pi_readopen = 1, pi_writeopen = 1\<rparr>"

lemma wrapping_pipe_inv: "pipe_inv wrapping_pipe" "pipe_list wrapping_pipe = []"
  by (simp_all add: pipe_inv_def wrapping_pipe_def PIPESIZE_def pipe_list_def)

theorem pipe_is_fifo_witness:
  "\<exists>pi'. pq.run_ops [Put 10, Put 20, Get] wrapping_pipe = Some ([10], pi') \<and> pipe_list pi' = [20]"
proof -
  let ?p = "pipe_put 20 (pipe_put 10 wrapping_pipe)"
  have P: "0 < PIPESIZE" "Suc 0 < PIPESIZE" by (simp_all add: PIPESIZE_def)
  have 1: "pipe_inv (pipe_put 10 wrapping_pipe)" "pipe_list (pipe_put 10 wrapping_pipe) = [10]"
    using pq.put_law [OF wrapping_pipe_inv(1), of 10] wrapping_pipe_inv(2) by (simp_all add: PIPESIZE_def)
  then have 2: "pipe_inv ?p" "pipe_list ?p = [10, 20]"
    using pq.put_law [OF 1(1), of 20] by (simp_all add: PIPESIZE_def)
  then have "pipe_list ?p = fst (pipe_get ?p) # pipe_list (snd (pipe_get ?p))" using pq.get_law [of ?p] by simp
  then have r: "pq.run_ops [Put 10, Put 20, Get] wrapping_pipe = Some ([10], snd (pipe_get ?p))"
    using 1 2 wrapping_pipe_inv P by simp
  with pipe_is_fifo [OF wrapping_pipe_inv(1) r] wrapping_pipe_inv(2) show ?thesis by simp
qed


definition pipe_state :: kpipe where
  "pipe_state = \<lparr>mem = (\<lambda>_. 0), kend = 1, freelist = 0, free_pages = 0, refcnt = (\<lambda>_. 0),
      procs = [idle_proc, idle_proc], nextpid = 1, initproc = None, cpu_proc = [], ticks = 0, trampoline_pa = 0,
      forkret_pc = 0, pipes = (\<lambda>_. wrapping_pipe)\<rparr>"


end
