(* ===== verification/Bio.thy ===== *)
theory Bio
  imports Pipe
begin

text \<open>
  \<open>kernel/sleeplock.c\<close> and \<open>kernel/bio.c\<close>: sleep locks and the buffer cache. A \<open>struct buf *\<close>
  is an index into the buffer array; the doubly linked list through \<open>bcache.head\<close> is the
  list of indices from \<open>head.next\<close> to \<open>head.prev\<close>. The disk is a function from block
  numbers to block contents, and \<open>dtrace\<close> lists the writes it has seen, oldest first, so that a
  crash between two writes can be described. \<open>virtio_disk_rw\<close> appears here through what it does,
  one synchronous transfer. Reference counts are mathematical integers.
\<close>

section \<open>Sleep locks\<close>

record sleeplock =
  sl_locked :: int
  sl_pid :: int

definition initsleeplock :: sleeplock where
  "initsleeplock = \<lparr>sl_locked = 0, sl_pid = 0\<rparr>"

text \<open>\<open>acquiresleep\<close> by the process with this pid: it sleeps while the lock is taken.\<close>

definition acquiresleep :: "int \<Rightarrow> sleeplock \<Rightarrow> sleeplock outcome" where
  "acquiresleep pid lk =
     (if sl_locked lk \<noteq> 0 then Sleeps else Ok (lk\<lparr>sl_locked := 1, sl_pid := pid\<rparr>))"

text \<open>\<open>releasesleep\<close> without its \<open>wakeup(lk)\<close>, which the callers below add.\<close>

definition releasesleep :: "sleeplock \<Rightarrow> sleeplock" where
  "releasesleep lk = lk\<lparr>sl_locked := 0, sl_pid := 0\<rparr>"

definition holdingsleep :: "int \<Rightarrow> sleeplock \<Rightarrow> bool" where
  "holdingsleep pid lk \<longleftrightarrow> sl_locked lk \<noteq> 0 \<and> sl_pid lk = pid"

section \<open>Buffers and the disk\<close>

definition BSIZE :: nat where "BSIZE = 1024"

definition MAXOPBLOCKS :: nat where "MAXOPBLOCKS = 10"

definition NBUF :: nat where "NBUF = MAXOPBLOCKS * 3"

record buf =
  b_valid :: int
  b_dev :: uint32
  b_blockno :: uint32
  b_lock :: sleeplock
  b_refcnt :: int
  b_data :: "byte list"

record kdisk = kpipe +
  bufs :: "buf list"
  lru :: "nat list"
  disk :: "uint32 \<Rightarrow> byte list"
  dtrace :: "(uint32 \<times> byte list) list"

definition upd_buf :: "nat \<Rightarrow> (buf \<Rightarrow> buf) \<Rightarrow> 'a kdisk_scheme \<Rightarrow> 'a kdisk_scheme" where
  "upd_buf i f s = s\<lparr>bufs := (bufs s)[i := f (bufs s ! i)]\<rparr>"

definition mypid :: "nat \<Rightarrow> 'a kproc_scheme \<Rightarrow> int" where
  "mypid me s = p_pid (procs s ! me)"

text \<open>The list built by \<open>binit\<close>: each buffer is inserted at the front.\<close>

definition binit :: "'a kdisk_scheme \<Rightarrow> 'a kdisk_scheme" where
  "binit s = s\<lparr>lru := foldl (\<lambda>l i. i # l) [] [0..<NBUF],
     bufs := map (\<lambda>b. b\<lparr>b_lock := initsleeplock\<rparr>) (bufs s)\<rparr>"

definition virtio_disk_rw :: "nat \<Rightarrow> bool \<Rightarrow> 'a kdisk_scheme \<Rightarrow> 'a kdisk_scheme" where
  "virtio_disk_rw i write s =
     (if write
      then s\<lparr>disk := (disk s)(b_blockno (bufs s ! i) := b_data (bufs s ! i)),
             dtrace := dtrace s @ [(b_blockno (bufs s ! i), b_data (bufs s ! i))]\<rparr>
      else upd_buf i (\<lambda>b. b\<lparr>b_data := disk s (b_blockno b)\<rparr>) s)"

definition lock_buf :: "nat \<Rightarrow> nat \<Rightarrow> 'a kdisk_scheme \<Rightarrow> (nat \<times> 'a kdisk_scheme) outcome" where
  "lock_buf me i s = bindO (acquiresleep (mypid me s) (b_lock (bufs s ! i))) (\<lambda>lk.
     Ok (i, upd_buf i (\<lambda>b. b\<lparr>b_lock := lk\<rparr>) s))"

definition bget :: "nat \<Rightarrow> uint32 \<Rightarrow> uint32 \<Rightarrow> 'a kdisk_scheme \<Rightarrow> (nat \<times> 'a kdisk_scheme) outcome" where
  "bget me dev blockno s =
     (case find (\<lambda>i. b_dev (bufs s ! i) = dev \<and> b_blockno (bufs s ! i) = blockno) (lru s) of
        Some i \<Rightarrow> lock_buf me i (upd_buf i (\<lambda>b. b\<lparr>b_refcnt := b_refcnt b + 1\<rparr>) s)
      | None \<Rightarrow>
          (case find (\<lambda>i. b_refcnt (bufs s ! i) = 0) (rev (lru s)) of
             Some i \<Rightarrow> lock_buf me i (upd_buf i (\<lambda>b.
               b\<lparr>b_dev := dev, b_blockno := blockno, b_valid := 0, b_refcnt := 1\<rparr>) s)
           | None \<Rightarrow> Panic ''bget: no buffers''))"

definition bread :: "nat \<Rightarrow> uint32 \<Rightarrow> uint32 \<Rightarrow> 'a kdisk_scheme \<Rightarrow> (nat \<times> 'a kdisk_scheme) outcome" where
  "bread me dev blockno s = bindO (bget me dev blockno s) (\<lambda>(i, s).
     if b_valid (bufs s ! i) = 0
     then Ok (i, upd_buf i (\<lambda>b. b\<lparr>b_valid := 1\<rparr>) (virtio_disk_rw i False s))
     else Ok (i, s))"

definition bwrite :: "nat \<Rightarrow> nat \<Rightarrow> 'a kdisk_scheme \<Rightarrow> 'a kdisk_scheme outcome" where
  "bwrite me i s =
     (if \<not> holdingsleep (mypid me s) (b_lock (bufs s ! i)) then Panic ''bwrite''
      else Ok (virtio_disk_rw i True s))"

definition brelse :: "nat \<Rightarrow> nat \<Rightarrow> 'a kdisk_scheme \<Rightarrow> 'a kdisk_scheme outcome" where
  "brelse me i s =
     (if \<not> holdingsleep (mypid me s) (b_lock (bufs s ! i)) then Panic ''brelse''
      else let s = upd_buf i (\<lambda>b. b\<lparr>b_lock := releasesleep (b_lock b)\<rparr>) s;
               s = wakeup (BufChan i) (Some me) s;
               s = upd_buf i (\<lambda>b. b\<lparr>b_refcnt := b_refcnt b - 1\<rparr>) s
           in if b_refcnt (bufs s ! i) = 0 then Ok (s\<lparr>lru := i # remove1 i (lru s)\<rparr>) else Ok s)"

definition bpin :: "nat \<Rightarrow> 'a kdisk_scheme \<Rightarrow> 'a kdisk_scheme" where
  "bpin i s = upd_buf i (\<lambda>b. b\<lparr>b_refcnt := b_refcnt b + 1\<rparr>) s"

definition bunpin :: "nat \<Rightarrow> 'a kdisk_scheme \<Rightarrow> 'a kdisk_scheme" where
  "bunpin i s = upd_buf i (\<lambda>b. b\<lparr>b_refcnt := b_refcnt b - 1\<rparr>) s"

text \<open>The caller changes \<open>b->data\<close> of a buffer it has locked.\<close>

definition set_data :: "nat \<Rightarrow> byte list \<Rightarrow> 'a kdisk_scheme \<Rightarrow> 'a kdisk_scheme" where
  "set_data i d s = upd_buf i (\<lambda>b. b\<lparr>b_data := d\<rparr>) s"

section \<open>The cache's invariant\<close>

text \<open>
  A buffer is unused (device 0) or belongs to device 1, the only one; a lock is only held on a
  referenced buffer; an unreferenced buffer with valid contents holds what the disk holds.
\<close>

definition buf_ok :: "(uint32 \<Rightarrow> byte list) \<Rightarrow> buf \<Rightarrow> bool" where
  "buf_ok d b \<longleftrightarrow> 0 \<le> b_refcnt b \<and> (b_dev b = 0 \<or> b_dev b = 1) \<and> (b_dev b = 0 \<longrightarrow> b_valid b = 0 \<and> b_refcnt b = 0) \<and>
     (sl_locked (b_lock b) \<noteq> 0 \<longrightarrow> 0 < b_refcnt b) \<and>
     (b_valid b \<noteq> 0 \<longrightarrow> length (b_data b) = BSIZE) \<and>
     (b_refcnt b = 0 \<longrightarrow> b_valid b \<noteq> 0 \<longrightarrow> b_data b = d (b_blockno b))"

text \<open>No block is cached twice.\<close>

definition bufs_uniq :: "buf list \<Rightarrow> bool" where
  "bufs_uniq bs \<longleftrightarrow> (\<forall>i<length bs. \<forall>j<length bs. b_dev (bs ! i) = 1 \<longrightarrow> b_dev (bs ! j) = 1 \<longrightarrow>
     b_blockno (bs ! i) = b_blockno (bs ! j) \<longrightarrow> i = j)"

definition bcache_inv :: "'a kdisk_scheme \<Rightarrow> bool" where
  "bcache_inv s \<longleftrightarrow> length (bufs s) = NBUF \<and> distinct (lru s) \<and> set (lru s) = {..<NBUF} \<and>
     bufs_uniq (bufs s) \<and> (\<forall>i<NBUF. buf_ok (disk s) (bufs s ! i)) \<and> (\<forall>b. length (disk s b) = BSIZE)"

text \<open>What a reader sees for a block: the cached contents if there are any.\<close>

definition cached :: "'a kdisk_scheme \<Rightarrow> uint32 \<Rightarrow> nat \<Rightarrow> bool" where
  "cached s b i \<longleftrightarrow> i < NBUF \<and> b_dev (bufs s ! i) = 1 \<and> b_blockno (bufs s ! i) = b \<and> b_valid (bufs s ! i) \<noteq> 0"

definition bview :: "'a kdisk_scheme \<Rightarrow> uint32 \<Rightarrow> byte list" where
  "bview s b = (case find (cached s b) [0..<NBUF] of Some i \<Rightarrow> b_data (bufs s ! i) | None \<Rightarrow> disk s b)"

lemma find_Some_nth: "find P xs = Some x \<Longrightarrow> x \<in> set xs \<and> P x"
  by (auto simp: find_Some_iff)

lemma bcache_invD:
  assumes "bcache_inv s"
  shows "length (bufs s) = NBUF" "i < NBUF \<Longrightarrow> buf_ok (disk s) (bufs s ! i)" "length (disk s b) = BSIZE"
    "i < NBUF \<Longrightarrow> j < NBUF \<Longrightarrow> b_dev (bufs s ! i) = 1 \<Longrightarrow> b_dev (bufs s ! j) = 1 \<Longrightarrow>
       b_blockno (bufs s ! i) = b_blockno (bufs s ! j) \<Longrightarrow> i = j"
  using assms unfolding bcache_inv_def bufs_uniq_def by auto

lemma cached_unique: "bcache_inv s \<Longrightarrow> cached s b i \<Longrightarrow> cached s b j \<Longrightarrow> i = j"
  using bcache_invD(4) [of s i j] by (simp add: cached_def)

lemma bview_cached:
  assumes "bcache_inv s" "cached s b i"
  shows "bview s b = b_data (bufs s ! i)"
proof (cases "find (cached s b) [0..<NBUF]")
  case None
  then show ?thesis using assms(2) by (auto simp: find_None_iff cached_def)
next
  case (Some j)
  then have "cached s b j" by (auto dest: find_Some_nth)
  with assms cached_unique have "j = i" by blast
  with Some show ?thesis by (simp add: bview_def)
qed

lemma bview_uncached: "(\<And>i. \<not> cached s b i) \<Longrightarrow> bview s b = disk s b"
  by (auto simp: bview_def dest!: find_Some_nth split: option.split)

lemma length_bview: "bcache_inv s \<Longrightarrow> length (bview s b) = BSIZE"
proof -
  assume inv: "bcache_inv s"
  show ?thesis
  proof (cases "\<exists>i. cached s b i")
    case True
    then obtain i where i: "cached s b i" by blast
    then have "buf_ok (disk s) (bufs s ! i)" "b_valid (bufs s ! i) \<noteq> 0"
      using bcache_invD(2) [OF inv, of i] by (auto simp: cached_def)
    then show ?thesis using bview_cached [OF inv i] by (simp add: buf_ok_def)
  next
    case False
    then show ?thesis using bview_uncached [of s b] bcache_invD(3) [OF inv] by auto
  qed
qed

lemma nth_upd_buf: "j < length (bufs s) \<Longrightarrow>
    bufs (upd_buf i f s) ! j = (if j = i then f (bufs s ! i) else bufs s ! j)"
  by (auto simp: upd_buf_def nth_list_update)

lemma upd_buf_simps [simp]:
  "length (bufs (upd_buf i f s)) = length (bufs s)" "lru (upd_buf i f s) = lru s"
  "disk (upd_buf i f s) = disk s" "dtrace (upd_buf i f s) = dtrace s" "procs (upd_buf i f s) = procs s"
  by (simp_all add: upd_buf_def)

lemma upd_buf_upd_buf: "upd_buf i g (upd_buf i f s) = upd_buf i (g \<circ> f) s"
  if "i < length (bufs s)"
  using that by (simp add: upd_buf_def)

text \<open>Changing one buffer.\<close>

lemma bcache_inv_upd:
  assumes inv: "bcache_inv s" and i: "i < NBUF" and ok: "buf_ok (disk s) (f (bufs s ! i))"
    and new: "\<And>j. j < NBUF \<Longrightarrow> j \<noteq> i \<Longrightarrow> b_dev (bufs s ! j) = 1 \<Longrightarrow> b_dev (f (bufs s ! i)) = 1 \<Longrightarrow>
      b_blockno (bufs s ! j) \<noteq> b_blockno (f (bufs s ! i))"
  shows "bcache_inv (upd_buf i f s)"
proof -
  have len: "length (bufs s) = NBUF" using inv by (simp add: bcache_inv_def)
  have "bufs_uniq (bufs (upd_buf i f s))"
    unfolding bufs_uniq_def
  proof (intro allI impI)
    fix j k assume a: "j < length (bufs (upd_buf i f s))" "k < length (bufs (upd_buf i f s))"
      "b_dev (bufs (upd_buf i f s) ! j) = 1" "b_dev (bufs (upd_buf i f s) ! k) = 1"
      "b_blockno (bufs (upd_buf i f s) ! j) = b_blockno (bufs (upd_buf i f s) ! k)"
    then show "j = k"
      using new [of j] new [of k] bcache_invD(4) [OF inv, of j k] len
      by (auto simp: nth_upd_buf split: if_splits)
  qed
  moreover have "buf_ok (disk s) (bufs (upd_buf i f s) ! j)" if "j < NBUF" for j
    using that len ok bcache_invD(2) [OF inv, of j] by (simp add: nth_upd_buf)
  ultimately show ?thesis using inv by (simp add: bcache_inv_def)
qed

lemma bview_eqI:
  assumes inv: "bcache_inv s" and inv': "bcache_inv t"
    and c: "\<And>i. cached s b i \<Longrightarrow> (\<exists>j. cached t b j \<and> b_data (bufs t ! j) = b_data (bufs s ! i)) \<or>
      (\<forall>j. \<not> cached t b j) \<and> disk t b = b_data (bufs s ! i)"
    and u: "(\<And>i. \<not> cached s b i) \<Longrightarrow> (\<forall>j. cached t b j \<longrightarrow> b_data (bufs t ! j) = disk s b) \<and> disk t b = disk s b"
  shows "bview t b = bview s b"
proof (cases "\<exists>i. cached s b i")
  case True
  then obtain i where i: "cached s b i" by blast
  from c [OF i] show ?thesis
    using bview_cached [OF inv i] bview_cached [OF inv'] bview_uncached [of t b] by auto
next
  case False
  then have s: "bview s b = disk s b" by (simp add: bview_uncached)
  note u = u [simplified False]
  show ?thesis
  proof (cases "\<exists>j. cached t b j")
    case True
    then show ?thesis using u False s bview_cached [OF inv'] by auto
  next
    case False
    then show ?thesis using u \<open>\<nexists>i. cached s b i\<close> s bview_uncached [of t b] by auto
  qed
qed

section \<open>Reading a block\<close>

text \<open>The three changes \<open>bread\<close> may make to the buffer it returns.\<close>

definition take_buf :: "int \<Rightarrow> buf \<Rightarrow> buf" where
  "take_buf pid b = b\<lparr>b_refcnt := b_refcnt b + 1, b_lock := (b_lock b)\<lparr>sl_locked := 1, sl_pid := pid\<rparr>\<rparr>"

definition fill_buf :: "(uint32 \<Rightarrow> byte list) \<Rightarrow> buf \<Rightarrow> buf" where
  "fill_buf d b = (if b_valid b = 0 then b\<lparr>b_data := d (b_blockno b), b_valid := 1\<rparr> else b)"

definition recycle_buf :: "uint32 \<Rightarrow> uint32 \<Rightarrow> buf \<Rightarrow> buf" where
  "recycle_buf dev blockno b = b\<lparr>b_dev := dev, b_blockno := blockno, b_valid := 0, b_refcnt := 0\<rparr>"

definition find_buf :: "uint32 \<Rightarrow> uint32 \<Rightarrow> 'a kdisk_scheme \<Rightarrow> nat option" where
  "find_buf dev blockno s = find (\<lambda>i. b_dev (bufs s ! i) = dev \<and> b_blockno (bufs s ! i) = blockno) (lru s)"

definition free_buf :: "'a kdisk_scheme \<Rightarrow> nat option" where
  "free_buf s = find (\<lambda>i. b_refcnt (bufs s ! i) = 0) (rev (lru s))"

lemma find_buf_Some:
  "find_buf dev b s = Some i \<Longrightarrow> set (lru s) = {..<NBUF} \<Longrightarrow>
     i < NBUF \<and> b_dev (bufs s ! i) = dev \<and> b_blockno (bufs s ! i) = b"
  unfolding find_buf_def by (drule find_Some_nth) auto

lemma find_buf_None:
  "find_buf dev b s = None \<Longrightarrow> set (lru s) = {..<NBUF} \<Longrightarrow> i < NBUF \<Longrightarrow>
     b_dev (bufs s ! i) = dev \<Longrightarrow> b_blockno (bufs s ! i) \<noteq> b"
  unfolding find_buf_def by (auto simp: find_None_iff)

lemma free_buf_Some:
  "free_buf s = Some i \<Longrightarrow> set (lru s) = {..<NBUF} \<Longrightarrow> i < NBUF \<and> b_refcnt (bufs s ! i) = 0"
  unfolding free_buf_def by (drule find_Some_nth) auto

lemma free_buf_None:
  "free_buf s = None \<Longrightarrow> set (lru s) = {..<NBUF} \<Longrightarrow> i < NBUF \<Longrightarrow> b_refcnt (bufs s ! i) \<noteq> 0"
  unfolding free_buf_def by (auto simp: find_None_iff)

lemma mypid_upd_buf [simp]: "mypid me (upd_buf i f s) = mypid me s"
  by (simp add: mypid_def)

lemma bread_unfold:
  assumes "length (bufs s) = NBUF" "set (lru s) = {..<NBUF}"
  shows "bread me dev b s = (case find_buf dev b s of
       Some i \<Rightarrow> if sl_locked (b_lock (bufs s ! i)) \<noteq> 0 then Sleeps
         else Ok (i, upd_buf i (fill_buf (disk s) \<circ> take_buf (mypid me s)) s)
     | None \<Rightarrow> (case free_buf s of None \<Rightarrow> Panic ''bget: no buffers''
         | Some i \<Rightarrow> if sl_locked (b_lock (bufs s ! i)) \<noteq> 0 then Sleeps
             else Ok (i, upd_buf i (fill_buf (disk s) \<circ> take_buf (mypid me s) \<circ> recycle_buf dev b) s)))"
proof -
  have step: "bindO (lock_buf me i (upd_buf i f s)) (\<lambda>(i, s).
       if b_valid (bufs s ! i) = 0
       then Ok (i, upd_buf i (\<lambda>b. b\<lparr>b_valid := 1\<rparr>) (virtio_disk_rw i False s)) else Ok (i, s)) =
     (if sl_locked (b_lock (f (bufs s ! i))) \<noteq> 0 then Sleeps
      else Ok (i, upd_buf i (fill_buf (disk s) \<circ>
        (\<lambda>b. b\<lparr>b_lock := (b_lock b)\<lparr>sl_locked := 1, sl_pid := mypid me s\<rparr>\<rparr>) \<circ> f) s))"
    if "i < NBUF" for i f
    using that assms(1)
    by (auto simp: lock_buf_def acquiresleep_def nth_upd_buf upd_buf_upd_buf virtio_disk_rw_def
        fill_buf_def upd_buf_def comp_def mypid_def)
  show ?thesis
  proof (cases "find_buf dev b s")
    case (Some i)
    then have "i < NBUF" using find_buf_Some assms(2) by blast
    with Some show ?thesis
      by (simp add: bread_def bget_def step flip: find_buf_def) (simp add: take_buf_def comp_def)
  next
    case None
    show ?thesis
    proof (cases "free_buf s")
      case None
      with \<open>find_buf dev b s = None\<close> show ?thesis
        by (simp add: bread_def bget_def flip: find_buf_def free_buf_def)
    next
      case (Some i)
      then have "i < NBUF" using free_buf_Some assms(2) by blast
      with Some \<open>find_buf dev b s = None\<close> show ?thesis
        by (simp add: bread_def bget_def step flip: find_buf_def free_buf_def)
          (simp add: take_buf_def recycle_buf_def comp_def)
    qed
  qed
qed

lemma take_fill_simps [simp]:
  "b_dev (take_buf pid b) = b_dev b" "b_blockno (take_buf pid b) = b_blockno b"
  "b_valid (take_buf pid b) = b_valid b" "b_data (take_buf pid b) = b_data b"
  "b_refcnt (take_buf pid b) = b_refcnt b + 1" "sl_locked (b_lock (take_buf pid b)) = 1"
  "sl_pid (b_lock (take_buf pid b)) = pid"
  "b_dev (fill_buf d b) = b_dev b" "b_blockno (fill_buf d b) = b_blockno b"
  "b_refcnt (fill_buf d b) = b_refcnt b" "b_lock (fill_buf d b) = b_lock b" "b_valid (fill_buf d b) \<noteq> 0"
  "b_data (fill_buf d b) = (if b_valid b = 0 then d (b_blockno b) else b_data b)"
  "b_dev (recycle_buf dev n b) = dev" "b_blockno (recycle_buf dev n b) = n"
  "b_valid (recycle_buf dev n b) = 0" "b_refcnt (recycle_buf dev n b) = 0"
  by (simp_all add: take_buf_def fill_buf_def recycle_buf_def)

text \<open>The facts shared by the two ways to get a buffer for block \<open>b\<close>.\<close>

lemma bread_common:
  assumes inv: "bcache_inv s" and i: "i < NBUF"
    and f: "b_dev (f (bufs s ! i)) = 1" "b_blockno (f (bufs s ! i)) = b" "b_valid (f (bufs s ! i)) \<noteq> 0"
      "b_refcnt (f (bufs s ! i)) = b_refcnt (bufs s ! i) + 1"
      "b_data (f (bufs s ! i)) = (if cached s b i then b_data (bufs s ! i) else disk s b)"
    and same: "\<And>j. j < NBUF \<Longrightarrow> j \<noteq> i \<Longrightarrow> b_dev (bufs s ! j) = 1 \<Longrightarrow> b_blockno (bufs s ! j) \<noteq> b"
    and clean: "b_blockno (bufs s ! i) = b \<or> b_refcnt (bufs s ! i) = 0"
  shows "bcache_inv (upd_buf i f s)" "cached (upd_buf i f s) b i" "b_data (bufs (upd_buf i f s) ! i) = bview s b"
    "bview (upd_buf i f s) = bview s"
proof -
  let ?t = "upd_buf i f s"
  have len: "length (bufs s) = NBUF" by (rule bcache_invD(1) [OF inv])
  have ok: "buf_ok (disk s) (bufs s ! i)" by (rule bcache_invD(2) [OF inv i])
  have "length (b_data (f (bufs s ! i))) = BSIZE"
    using f(5) ok bcache_invD(3) [OF inv] by (auto simp: cached_def buf_ok_def)
  then show inv': "bcache_inv ?t"
    using f same ok by (intro bcache_inv_upd [OF inv i]) (auto simp: buf_ok_def)
  show c: "cached ?t b i" using f i len by (simp add: cached_def nth_upd_buf)
  have other: "\<not> cached s b j" if "j \<noteq> i" for j using same [of j] that by (auto simp: cached_def)
  show d: "b_data (bufs ?t ! i) = bview s b"
  proof (cases "cached s b i")
    case True
    then show ?thesis using f(5) i len bview_cached [OF inv True] by (simp add: nth_upd_buf)
  next
    case False
    then have "\<And>j. \<not> cached s b j" using other by metis
    then show ?thesis using f(5) False i len bview_uncached [of s b] by (simp add: nth_upd_buf)
  qed
  show "bview ?t = bview s"
  proof
    fix x
    show "bview ?t x = bview s x"
    proof (cases "x = b")
      case True
      then show ?thesis using bview_cached [OF inv' c] d by simp
    next
      case False
      then have ct: "cached ?t x j \<longleftrightarrow> cached s x j \<and> j \<noteq> i" for j
        using f i len by (cases "j = i") (auto simp: cached_def nth_upd_buf)
      have ci: "b_data (bufs s ! i) = disk s x" if "cached s x i"
        using that False clean ok by (auto simp: cached_def buf_ok_def)
      show ?thesis
      proof (cases "\<exists>j. cached s x j")
        case True
        then obtain j where j: "cached s x j" by blast
        show ?thesis
        proof (cases "j = i")
          case True
          then have "\<not> cached ?t x k" for k using ct cached_unique [OF inv j] by blast
          then show ?thesis using ci j True bview_cached [OF inv j] bview_uncached [of ?t x] by simp
        next
          case False
          then show ?thesis
            using bview_cached [OF inv j] bview_cached [OF inv', of x j] ct j len
            by (simp add: nth_upd_buf cached_def)
        qed
      next
        case False
        then show ?thesis using ct bview_uncached [of s x] bview_uncached [of ?t x] by simp
      qed
    qed
  qed
qed

lemma bread_spec:
  assumes inv: "bcache_inv s" and r: "bread me 1 b s = Ok (i, t)"
  shows "bcache_inv t \<and> cached t b i \<and> b_data (bufs t ! i) = bview s b \<and> bview t = bview s"
    and "\<exists>f. t = upd_buf i f s \<and> b_lock (f (bufs s ! i)) = (b_lock (bufs s ! i))\<lparr>sl_locked := 1, sl_pid := mypid me s\<rparr> \<and>
       b_refcnt (f (bufs s ! i)) = b_refcnt (bufs s ! i) + 1"
    and "i < NBUF" "sl_locked (b_lock (bufs s ! i)) = 0"
proof -
  have len: "length (bufs s) = NBUF" and lru: "set (lru s) = {..<NBUF}"
    using inv by (simp_all add: bcache_inv_def)
  let ?g = "fill_buf (disk s) \<circ> take_buf (mypid me s)"
  consider (hit) "find_buf 1 b s = Some i" "t = upd_buf i ?g s" "sl_locked (b_lock (bufs s ! i)) = 0"
    | (miss) "find_buf 1 b s = None" "free_buf s = Some i" "t = upd_buf i (?g \<circ> recycle_buf 1 b) s"
      "sl_locked (b_lock (bufs s ! i)) = 0"
    using r by (auto simp: bread_unfold [OF len lru] split: option.splits if_splits)
  then have "(bcache_inv t \<and> cached t b i \<and> b_data (bufs t ! i) = bview s b \<and> bview t = bview s) \<and>
    (\<exists>f. t = upd_buf i f s \<and> b_lock (f (bufs s ! i)) = (b_lock (bufs s ! i))\<lparr>sl_locked := 1, sl_pid := mypid me s\<rparr> \<and>
       b_refcnt (f (bufs s ! i)) = b_refcnt (bufs s ! i) + 1) \<and> i < NBUF \<and> sl_locked (b_lock (bufs s ! i)) = 0"
  proof cases
    case hit
    have i: "i < NBUF" "b_dev (bufs s ! i) = 1" "b_blockno (bufs s ! i) = b"
      using find_buf_Some [OF hit(1) lru] by simp_all
    have "j < NBUF \<Longrightarrow> j \<noteq> i \<Longrightarrow> b_dev (bufs s ! j) = 1 \<Longrightarrow> b_blockno (bufs s ! j) \<noteq> b" for j
      using bcache_invD(4) [OF inv, of i j] i by auto
    then have "bcache_inv t \<and> cached t b i \<and> b_data (bufs t ! i) = bview s b \<and> bview t = bview s"
      unfolding hit(2) using i by (intro conjI bread_common [OF inv i(1), where b = b]) (simp_all add: cached_def)
    moreover have "b_lock (?g (bufs s ! i)) = (b_lock (bufs s ! i))\<lparr>sl_locked := 1, sl_pid := mypid me s\<rparr>"
      by (simp add: take_buf_def)
    moreover have "b_refcnt (?g (bufs s ! i)) = b_refcnt (bufs s ! i) + 1" by simp
    ultimately show ?thesis using hit(2,3) i(1) by blast
  next
    case miss
    have i: "i < NBUF" "b_refcnt (bufs s ! i) = 0" using free_buf_Some [OF miss(2) lru] by simp_all
    have nb: "j < NBUF \<Longrightarrow> b_dev (bufs s ! j) = 1 \<Longrightarrow> b_blockno (bufs s ! j) \<noteq> b" for j
      using find_buf_None [OF miss(1) lru] by blast
    then have "bcache_inv t \<and> cached t b i \<and> b_data (bufs t ! i) = bview s b \<and> bview t = bview s"
      unfolding miss(3) using i by (intro conjI bread_common [OF inv i(1), where b = b]) (auto simp: cached_def)
    moreover have "b_lock ((?g \<circ> recycle_buf 1 b) (bufs s ! i)) = (b_lock (bufs s ! i))\<lparr>sl_locked := 1, sl_pid := mypid me s\<rparr>"
      by (simp add: take_buf_def recycle_buf_def)
    moreover have "b_refcnt ((?g \<circ> recycle_buf 1 b) (bufs s ! i)) = b_refcnt (bufs s ! i) + 1"
      using i(2) by simp
    ultimately show ?thesis using miss(3,4) i(1) by blast
  qed
  then show "bcache_inv t \<and> cached t b i \<and> b_data (bufs t ! i) = bview s b \<and> bview t = bview s"
    "\<exists>f. t = upd_buf i f s \<and> b_lock (f (bufs s ! i)) = (b_lock (bufs s ! i))\<lparr>sl_locked := 1, sl_pid := mypid me s\<rparr> \<and>
       b_refcnt (f (bufs s ! i)) = b_refcnt (bufs s ! i) + 1"
    "i < NBUF" "sl_locked (b_lock (bufs s ! i)) = 0" by auto
qed

section \<open>The cache as a map from blocks\<close>

text \<open>
  The reference count and the lock of a block, whichever buffer holds it: \<open>pins\<close> and \<open>locked\<close>
  together with \<open>bview\<close> are all that the callers of the cache depend on.
\<close>

definition buf_at :: "'a kdisk_scheme \<Rightarrow> uint32 \<Rightarrow> nat \<Rightarrow> bool" where
  "buf_at s b i \<longleftrightarrow> i < NBUF \<and> b_dev (bufs s ! i) = 1 \<and> b_blockno (bufs s ! i) = b"

definition bproj :: "(buf \<Rightarrow> 'v) \<Rightarrow> 'v \<Rightarrow> 'a kdisk_scheme \<Rightarrow> uint32 \<Rightarrow> 'v" where
  "bproj g dflt s b = (case find (buf_at s b) [0..<NBUF] of Some i \<Rightarrow> g (bufs s ! i) | None \<Rightarrow> dflt)"

definition pins :: "'a kdisk_scheme \<Rightarrow> uint32 \<Rightarrow> int" where
  "pins = bproj b_refcnt 0"

definition locked :: "'a kdisk_scheme \<Rightarrow> uint32 \<Rightarrow> bool" where
  "locked = bproj (\<lambda>b. sl_locked (b_lock b) \<noteq> 0) False"

lemma buf_at_unique: "bcache_inv s \<Longrightarrow> buf_at s b i \<Longrightarrow> buf_at s b j \<Longrightarrow> i = j"
  using bcache_invD(4) [of s i j] by (simp add: buf_at_def)

lemma bproj_at:
  assumes "bcache_inv s" "buf_at s b i"
  shows "bproj g dflt s b = g (bufs s ! i)"
proof (cases "find (buf_at s b) [0..<NBUF]")
  case None
  then show ?thesis using assms(2) by (auto simp: find_None_iff buf_at_def)
next
  case (Some j)
  then have "buf_at s b j" by (auto dest: find_Some_nth)
  with assms buf_at_unique have "j = i" by blast
  with Some show ?thesis by (simp add: bproj_def)
qed

lemma bproj_none: "(\<And>i. \<not> buf_at s b i) \<Longrightarrow> bproj g dflt s b = dflt"
  by (auto simp: bproj_def dest!: find_Some_nth split: option.split)

lemma bproj_upd:
  assumes inv: "bcache_inv s" and inv': "bcache_inv (upd_buf i f s)" and at: "buf_at (upd_buf i f s) b i"
    and old: "buf_at s b i \<or> g (bufs s ! i) = dflt"
  shows "bproj g dflt (upd_buf i f s) = (bproj g dflt s)(b := g (f (bufs s ! i)))"
proof
  fix x
  let ?t = "upd_buf i f s"
  have len: "length (bufs s) = NBUF" by (rule bcache_invD(1) [OF inv])
  have i: "i < NBUF" using at by (simp add: buf_at_def)
  show "bproj g dflt ?t x = ((bproj g dflt s)(b := g (f (bufs s ! i)))) x"
  proof (cases "x = b")
    case True
    then show ?thesis using bproj_at [OF inv' at] i len by (simp add: nth_upd_buf)
  next
    case False
    then have ct: "buf_at ?t x j \<longleftrightarrow> buf_at s x j \<and> j \<noteq> i" for j
      using at i len by (cases "j = i") (auto simp: buf_at_def nth_upd_buf)
    show ?thesis
    proof (cases "\<exists>j. buf_at s x j")
      case True
      then obtain j where j: "buf_at s x j" by blast
      show ?thesis
      proof (cases "j = i")
        case True
        then have "\<not> buf_at ?t x k" for k using ct buf_at_unique [OF inv j] by blast
        moreover have "g (bufs s ! i) = dflt" using old j True False by (auto simp: buf_at_def)
        ultimately show ?thesis using bproj_at [OF inv j, of g dflt] bproj_none [of ?t x g dflt] True False by simp
      next
        case ne: False
        then have "buf_at ?t x j" using ct j by simp
        then show ?thesis
          using bproj_at [OF inv j, of g dflt] bproj_at [OF inv', of x j g dflt] ne j len False
          by (simp add: nth_upd_buf buf_at_def)
      qed
    next
      case none: False
      then show ?thesis using ct bproj_none [of s x g dflt] bproj_none [of ?t x g dflt] False by simp
    qed
  qed
qed

lemma pins_at: "bcache_inv s \<Longrightarrow> buf_at s b i \<Longrightarrow> pins s b = b_refcnt (bufs s ! i)"
  unfolding pins_def by (rule bproj_at)

lemma locked_at: "bcache_inv s \<Longrightarrow> buf_at s b i \<Longrightarrow> locked s b \<longleftrightarrow> sl_locked (b_lock (bufs s ! i)) \<noteq> 0"
  unfolding locked_def using bproj_at [of s b i "\<lambda>b. sl_locked (b_lock b) \<noteq> 0" False] by simp

lemma pins_none: "(\<And>i. \<not> buf_at s b i) \<Longrightarrow> pins s b = 0"
  unfolding pins_def by (rule bproj_none)

lemma locked_none: "(\<And>i. \<not> buf_at s b i) \<Longrightarrow> \<not> locked s b"
  unfolding locked_def using bproj_none [of s b "\<lambda>b. sl_locked (b_lock b) \<noteq> 0" False] by simp

lemma pins_upd:
  assumes "bcache_inv s" "bcache_inv (upd_buf i f s)" "buf_at (upd_buf i f s) b i"
    "buf_at s b i \<or> b_refcnt (bufs s ! i) = 0"
  shows "pins (upd_buf i f s) = (pins s)(b := b_refcnt (f (bufs s ! i)))"
  unfolding pins_def using assms by (rule bproj_upd)

lemma locked_upd:
  assumes "bcache_inv s" "bcache_inv (upd_buf i f s)" "buf_at (upd_buf i f s) b i"
    "buf_at s b i \<or> sl_locked (b_lock (bufs s ! i)) = 0"
  shows "locked (upd_buf i f s) = (locked s)(b := sl_locked (b_lock (f (bufs s ! i))) \<noteq> 0)"
  unfolding locked_def using assms by (intro bproj_upd) auto

lemma cached_buf_at: "cached s b i \<longleftrightarrow> buf_at s b i \<and> b_valid (bufs s ! i) \<noteq> 0"
  by (auto simp: cached_def buf_at_def)

lemma bread_where:
  assumes inv: "bcache_inv s" and r: "bread me 1 b s = Ok (i, t)"
  shows "buf_at s b i \<or> b_refcnt (bufs s ! i) = 0 \<and> (\<forall>j. \<not> buf_at s b j)"
proof -
  have len: "length (bufs s) = NBUF" and lru: "set (lru s) = {..<NBUF}"
    using inv by (simp_all add: bcache_inv_def)
  consider "find_buf 1 b s = Some i" | "find_buf 1 b s = None" "free_buf s = Some i"
    using r by (auto simp: bread_unfold [OF len lru] split: option.splits if_splits)
  then show ?thesis
    using find_buf_Some [OF _ lru] find_buf_None [OF _ lru] free_buf_Some [OF _ lru]
    by cases (auto simp: buf_at_def)
qed

lemma bread_pins:
  assumes inv: "bcache_inv s" and r: "bread me 1 b s = Ok (i, t)"
  shows "pins t = (pins s)(b := pins s b + 1)" "locked t = (locked s)(b := True)" "\<not> locked s b"
proof -
  note sp = bread_spec [OF inv r]
  obtain f where f: "t = upd_buf i f s"
    "b_lock (f (bufs s ! i)) = (b_lock (bufs s ! i))\<lparr>sl_locked := 1, sl_pid := mypid me s\<rparr>"
    "b_refcnt (f (bufs s ! i)) = b_refcnt (bufs s ! i) + 1"
    using sp(2) by blast
  have at: "buf_at t b i" and inv': "bcache_inv t" using sp(1) by (simp_all add: cached_buf_at)
  note w = bread_where [OF inv r]
  have p: "pins s b = b_refcnt (bufs s ! i)" "\<not> locked s b"
    using w pins_at [OF inv] locked_at [OF inv] pins_none [of s b] locked_none [of s b] sp(4) by auto
  show "pins t = (pins s)(b := pins s b + 1)"
    using pins_upd [OF inv inv' [unfolded f(1)] at [unfolded f(1)]] w p(1) f(3) unfolding f(1) by auto
  show "locked t = (locked s)(b := True)"
    using locked_upd [OF inv inv' [unfolded f(1)] at [unfolded f(1)]] sp(4) f(2) unfolding f(1) by auto
  show "\<not> locked s b" by (rule p(2))
qed

section \<open>Operations on the map\<close>

text \<open>The calling process has block \<open>b\<close> locked in buffer \<open>i\<close>, with valid contents.\<close>

definition holds :: "nat \<Rightarrow> 'a kdisk_scheme \<Rightarrow> uint32 \<Rightarrow> nat \<Rightarrow> bool" where
  "holds me s b i \<longleftrightarrow> bcache_inv s \<and> me < length (procs s) \<and> cached s b i \<and> holdingsleep (mypid me s) (b_lock (bufs s ! i))"

definition in_use :: "'a kdisk_scheme \<Rightarrow> uint32 set" where
  "in_use s = {b. pins s b \<noteq> 0}"

lemma holdsD:
  assumes "holds me s b i"
  shows "bcache_inv s" "buf_at s b i" "cached s b i" "i < NBUF" "bview s b = b_data (bufs s ! i)"
    "0 < pins s b" "locked s b" "length (bufs s) = NBUF" "buf_ok (disk s) (bufs s ! i)"
    "me < length (procs s)"
proof -
  show "me < length (procs s)" using assms by (simp add: holds_def)
  show inv: "bcache_inv s" and c: "cached s b i" using assms by (auto simp: holds_def)
  show at: "buf_at s b i" and i: "i < NBUF" using c by (auto simp: cached_buf_at buf_at_def)
  show "bview s b = b_data (bufs s ! i)" by (rule bview_cached [OF inv c])
  show ok: "buf_ok (disk s) (bufs s ! i)" by (rule bcache_invD(2) [OF inv i])
  have l: "sl_locked (b_lock (bufs s ! i)) \<noteq> 0" using assms by (simp add: holds_def holdingsleep_def)
  then show "locked s b" using locked_at [OF inv at] by simp
  show "0 < pins s b" using pins_at [OF inv at] l ok by (simp add: buf_ok_def)
  show "length (bufs s) = NBUF" by (rule bcache_invD(1) [OF inv])
qed

lemma in_use_full:
  assumes inv: "bcache_inv s" and full: "\<And>i. i < NBUF \<Longrightarrow> b_refcnt (bufs s ! i) \<noteq> 0"
  shows "NBUF \<le> card (in_use s)"
proof -
  have at: "buf_at s (b_blockno (bufs s ! i)) i" if "i < NBUF" for i
    using full [OF that] bcache_invD(2) [OF inv that] that by (auto simp: buf_at_def buf_ok_def)
  have "inj_on (\<lambda>i. b_blockno (bufs s ! i)) {..<NBUF}"
    using at buf_at_unique [OF inv] by (intro inj_onI) (metis lessThan_iff)
  moreover have "(\<lambda>i. b_blockno (bufs s ! i)) ` {..<NBUF} \<subseteq> in_use s"
    using full by (auto simp: in_use_def pins_at [OF inv at])
  ultimately show ?thesis
    using card_mono [OF finite, of _ "in_use s"] by (metis card_image card_lessThan)
qed

lemma bread_total:
  assumes inv: "bcache_inv s" and nl: "\<not> locked s b" and room: "b \<in> in_use s \<or> card (in_use s) < NBUF"
  shows "\<exists>i t. bread me 1 b s = Ok (i, t)"
proof -
  have len: "length (bufs s) = NBUF" and lru: "set (lru s) = {..<NBUF}"
    using inv by (simp_all add: bcache_inv_def)
  show ?thesis
  proof (cases "find_buf 1 b s")
    case (Some i)
    then have "buf_at s b i" using find_buf_Some [OF Some lru] by (simp add: buf_at_def)
    then show ?thesis
      using locked_at [OF inv] nl Some by (simp add: bread_unfold [OF len lru])
  next
    case None
    then have "\<not> buf_at s b i" for i using find_buf_None [OF None lru] by (auto simp: buf_at_def)
    then have "b \<notin> in_use s" using pins_none [of s b] by (simp add: in_use_def)
    with room have "card (in_use s) < NBUF" by simp
    then obtain j where j: "free_buf s = Some j"
      using in_use_full [OF inv] free_buf_None [OF _ lru] by (metis not_Some_eq not_less)
    then have "j < NBUF" "b_refcnt (bufs s ! j) = 0" using free_buf_Some [OF j lru] by auto
    then have "sl_locked (b_lock (bufs s ! j)) = 0"
      using bcache_invD(2) [OF inv, of j] by (auto simp: buf_ok_def)
    with None j show ?thesis by (simp add: bread_unfold [OF len lru])
  qed
qed

text \<open>State that the buffer functions do not touch.\<close>

definition same_rest :: "nat \<Rightarrow> 'a kdisk_scheme \<Rightarrow> 'a kdisk_scheme \<Rightarrow> bool" where
  "same_rest me s t \<longleftrightarrow> mypid me t = mypid me s \<and> length (procs t) = length (procs s) \<and> kdisk.more t = kdisk.more s"

lemma same_rest_refl [simp]: "same_rest me s s"
  by (simp add: same_rest_def)

lemma same_rest_trans: "same_rest me s t \<Longrightarrow> same_rest me t u \<Longrightarrow> same_rest me s u"
  by (simp add: same_rest_def)

lemma same_rest_upd [simp]: "same_rest me s (upd_buf i f s)"
  by (simp add: same_rest_def) (simp add: upd_buf_def)

lemma bread_full:
  assumes inv: "bcache_inv s" and nl: "\<not> locked s b" and room: "b \<in> in_use s \<or> card (in_use s) < NBUF"
    and me: "me < length (procs s)"
  obtains i t where "bread me 1 b s = Ok (i, t)" "holds me t b i" "b_data (bufs t ! i) = bview s b"
    "bview t = bview s" "pins t = (pins s)(b := pins s b + 1)" "locked t = (locked s)(b := True)"
    "disk t = disk s" "dtrace t = dtrace s" "same_rest me s t"
    "\<And>c j. holds me s c j \<Longrightarrow> holds me t c j"
proof -
  obtain i t where r: "bread me 1 b s = Ok (i, t)" using bread_total [OF inv nl room] by blast
  note sp = bread_spec [OF inv r] and pn = bread_pins [OF inv r]
  obtain f where f: "t = upd_buf i f s"
    "b_lock (f (bufs s ! i)) = (b_lock (bufs s ! i))\<lparr>sl_locked := 1, sl_pid := mypid me s\<rparr>"
    using sp(2) by blast
  have len: "length (bufs s) = NBUF" by (rule bcache_invD(1) [OF inv])
  have "holds me t b i"
    using sp(1,3) f len me by (simp add: holds_def holdingsleep_def nth_upd_buf)
  moreover have "holds me t c j" if h: "holds me s c j" for c j
  proof -
    have "j \<noteq> i" using sp(4) h by (auto simp: holds_def holdingsleep_def)
    then show ?thesis
      using h sp(1) f(1) len holdsD(4) [OF h] by (simp add: holds_def cached_def nth_upd_buf)
  qed
  ultimately show thesis
    using sp(1) pn f(1) by (intro that [OF r]) simp_all
qed

text \<open>An update of a held buffer that keeps its identity.\<close>

lemma holds_upd:
  assumes h: "holds me s b i"
    and f: "b_dev (f (bufs s ! i)) = 1" "b_blockno (f (bufs s ! i)) = b" "b_valid (f (bufs s ! i)) \<noteq> 0"
      "0 \<le> b_refcnt (f (bufs s ! i))" "length (b_data (f (bufs s ! i))) = BSIZE"
      "sl_locked (b_lock (f (bufs s ! i))) \<noteq> 0 \<Longrightarrow> 0 < b_refcnt (f (bufs s ! i))"
      "b_refcnt (f (bufs s ! i)) = 0 \<Longrightarrow> b_data (f (bufs s ! i)) = disk s b"
  shows "bcache_inv (upd_buf i f s)" "cached (upd_buf i f s) b i"
    "bview (upd_buf i f s) = (bview s)(b := b_data (f (bufs s ! i)))"
    "pins (upd_buf i f s) = (pins s)(b := b_refcnt (f (bufs s ! i)))"
    "locked (upd_buf i f s) = (locked s)(b := sl_locked (b_lock (f (bufs s ! i))) \<noteq> 0)"
proof -
  let ?t = "upd_buf i f s"
  note H = holdsD [OF h]
  have "b_blockno (bufs s ! j) \<noteq> b" if "j < NBUF" "j \<noteq> i" "b_dev (bufs s ! j) = 1" for j
    using buf_at_unique [OF H(1,2), of j] that by (auto simp: buf_at_def)
  then show inv': "bcache_inv ?t"
    using f by (intro bcache_inv_upd [OF H(1,4)]) (auto simp: buf_ok_def)
  show c: "cached ?t b i" using f H(4,8) by (simp add: cached_def nth_upd_buf)
  then have at: "buf_at ?t b i" by (simp add: cached_buf_at)
  show "pins ?t = (pins s)(b := b_refcnt (f (bufs s ! i)))"
    using pins_upd [OF H(1) inv' at] H(2) by blast
  show "locked ?t = (locked s)(b := sl_locked (b_lock (f (bufs s ! i))) \<noteq> 0)"
    using locked_upd [OF H(1) inv' at] H(2) by blast
  show "bview ?t = (bview s)(b := b_data (f (bufs s ! i)))"
  proof
    fix x
    show "bview ?t x = ((bview s)(b := b_data (f (bufs s ! i)))) x"
    proof (cases "x = b")
      case True
      then show ?thesis using bview_cached [OF inv' c] H(4,8) by (simp add: nth_upd_buf)
    next
      case False
      then have ct: "cached ?t x j \<longleftrightarrow> cached s x j" "cached s x j \<Longrightarrow> bufs ?t ! j = bufs s ! j" for j
        using H(2,4,8) f(2) by (cases "j = i"; auto simp: cached_def nth_upd_buf buf_at_def)+
      have "bview ?t x = bview s x"
        using ct by (intro bview_eqI [OF H(1) inv']) auto
      with False show ?thesis by simp
    qed
  qed
qed

lemma set_data_spec:
  assumes h: "holds me s b i" and d: "length d = BSIZE"
  shows "holds me (set_data i d s) b i" "bview (set_data i d s) = (bview s)(b := d)"
    "pins (set_data i d s) = pins s" "locked (set_data i d s) = locked s"
    "disk (set_data i d s) = disk s" "dtrace (set_data i d s) = dtrace s" "same_rest me s (set_data i d s)"
    "holds me s c j \<Longrightarrow> holds me (set_data i d s) c j"
proof -
  note H = holdsD [OF h]
  have ref: "0 < b_refcnt (bufs s ! i)" using H(6) pins_at [OF H(1,2)] by simp
  note u = holds_upd [OF h, of "\<lambda>b. b\<lparr>b_data := d\<rparr>", folded set_data_def, simplified]
  have v: "b_dev (bufs s ! i) = 1" "b_blockno (bufs s ! i) = b" "b_valid (bufs s ! i) \<noteq> 0"
    using H(3) by (simp_all add: cached_def)
  note u = u [OF v _ d]
  show "bview (set_data i d s) = (bview s)(b := d)" using u(3) ref by simp
  show "pins (set_data i d s) = pins s"
    using u(4) ref pins_at [OF H(1,2)] by (simp add: fun_upd_idem_iff)
  show "locked (set_data i d s) = locked s"
    using u(5) ref locked_at [OF H(1,2)] by (simp add: fun_upd_idem_iff)
  show "disk (set_data i d s) = disk s" "dtrace (set_data i d s) = dtrace s" "same_rest me s (set_data i d s)"
    by (simp_all add: set_data_def)
  have keep: "holds me (set_data i d s) c j" if "holds me s c j" for c j
    using that u(1) ref holdsD(4,8) [OF that]
    by (cases "j = i") (auto simp: holds_def set_data_def cached_def nth_upd_buf)
  then show "holds me (set_data i d s) b i" "holds me s c j \<Longrightarrow> holds me (set_data i d s) c j"
    using h by blast+
qed

lemma bwrite_spec:
  assumes h: "holds me s b i"
  obtains t where "bwrite me i s = Ok t" "holds me t b i" "bview t = bview s" "pins t = pins s"
    "locked t = locked s" "disk t = (disk s)(b := bview s b)" "dtrace t = dtrace s @ [(b, bview s b)]"
    "same_rest me s t" "bufs t = bufs s" "\<And>c j. holds me s c j \<Longrightarrow> holds me t c j"
proof -
  note H = holdsD [OF h]
  let ?t = "virtio_disk_rw i True s"
  have bn: "b_blockno (bufs s ! i) = b" "0 < b_refcnt (bufs s ! i)"
    using H(2,6) pins_at [OF H(1,2)] by (simp_all add: buf_at_def)
  have len: "length (bview s b) = BSIZE" by (rule length_bview [OF H(1)])
  have bufs: "bufs ?t = bufs s" and disk: "disk ?t = (disk s)(b := bview s b)" and lru: "lru ?t = lru s"
    using bn H(5) by (simp_all add: virtio_disk_rw_def)
  have "buf_ok (disk ?t) (bufs s ! j)" if "j < NBUF" for j
  proof (cases "j = i")
    case True
    then show ?thesis using bn(2) H(9) by (auto simp: buf_ok_def)
  next
    case False
    then have "b_dev (bufs s ! j) \<noteq> 1 \<or> b_blockno (bufs s ! j) \<noteq> b"
      using buf_at_unique [OF H(1,2), of j] that by (auto simp: buf_at_def)
    then show ?thesis
      using bcache_invD(2) [OF H(1) that] by (auto simp: disk buf_ok_def)
  qed
  then have inv: "bcache_inv ?t"
    using H(1) len by (simp add: bcache_inv_def bufs lru disk)
  have at: "buf_at ?t = buf_at s" "cached ?t = cached s"
    by (auto simp: buf_at_def cached_def bufs fun_eq_iff)
  have "bview ?t x = bview s x" for x
  proof (cases "x = b")
    case True
    then show ?thesis using bview_cached [OF inv, of b i] H(3,5) by (simp add: at bufs)
  next
    case False
    then show ?thesis by (simp add: bview_def at bufs disk split: option.split)
  qed
  moreover have "bwrite me i s = Ok ?t" using h by (simp add: bwrite_def holds_def)
  moreover have "holds me ?t c j" if "holds me s c j" for c j
    using that inv by (simp add: holds_def at bufs) (simp add: mypid_def virtio_disk_rw_def)
  moreover have "pins ?t = pins s" "locked ?t = locked s"
    unfolding pins_def locked_def bproj_def by (simp_all only: at bufs)
  moreover have "same_rest me s ?t" "dtrace ?t = dtrace s @ [(b, bview s b)]"
    using bn H(5) by (simp_all add: same_rest_def mypid_def virtio_disk_rw_def)
  ultimately show thesis
    using h bufs disk by (intro that [of ?t]) auto
qed

lemma p_pid_wakeup: "me < length (procs s) \<Longrightarrow> mypid me (wakeup ch x s) = mypid me s"
  by (simp add: mypid_def nth_wakeup wake_proc_def Let_def)

lemma wakeup_kdisk [simp]:
  "bufs (wakeup ch x s) = bufs s" "lru (wakeup ch x s) = lru s" "disk (wakeup ch x s) = disk s"
  "dtrace (wakeup ch x s) = dtrace s" "kdisk.more (wakeup ch x s) = kdisk.more s"
  by (simp_all add: wakeup_def)

lemma bcache_inv_wakeup [simp]: "bcache_inv (wakeup ch x s) = bcache_inv s"
  by (simp add: bcache_inv_def)

lemma bmap_cong:
  assumes "bufs t = bufs s" "disk t = disk s"
  shows "bview t = bview s" "pins t = pins s" "locked t = locked s"
proof -
  have "cached t = cached s" "buf_at t = buf_at s"
    using assms by (simp_all add: cached_def buf_at_def fun_eq_iff)
  then show "bview t = bview s" "pins t = pins s" "locked t = locked s"
    unfolding bview_def pins_def locked_def bproj_def by (simp_all only: assms)
qed

lemma brelse_spec:
  assumes h: "holds me s b i" and clean: "pins s b = 1 \<Longrightarrow> bview s b = disk s b"
  obtains t where "brelse me i s = Ok t" "bcache_inv t" "bview t = bview s" "pins t = (pins s)(b := pins s b - 1)"
    "locked t = (locked s)(b := False)" "disk t = disk s" "dtrace t = dtrace s" "same_rest me s t"
    "\<And>c j. holds me s c j \<Longrightarrow> c \<noteq> b \<Longrightarrow> holds me t c j"
proof -
  note H = holdsD [OF h]
  let ?f = "\<lambda>b. b\<lparr>b_lock := releasesleep (b_lock b), b_refcnt := b_refcnt b - 1\<rparr>"
  let ?u = "wakeup (BufChan i) (Some me) (upd_buf i ?f s)"
  let ?t = "if b_refcnt (bufs s ! i) = 1 then ?u\<lparr>lru := i # remove1 i (lru s)\<rparr> else ?u"
  have p: "pins s b = b_refcnt (bufs s ! i)" by (rule pins_at [OF H(1,2)])
  have v: "b_dev (bufs s ! i) = 1" "b_blockno (bufs s ! i) = b" "b_valid (bufs s ! i) \<noteq> 0"
    using H(3) by (simp_all add: cached_def)
  have e: "brelse me i s = Ok ?t"
  proof -
    have "upd_buf i (\<lambda>b. b\<lparr>b_refcnt := b_refcnt b - 1\<rparr>)
        (wakeup (BufChan i) (Some me) (upd_buf i (\<lambda>b. b\<lparr>b_lock := releasesleep (b_lock b)\<rparr>) s)) = ?u"
      using H(4,8) by (simp add: upd_buf_def wakeup_def)
    then show ?thesis
      using h H(4,8) by (simp add: brelse_def holds_def Let_def nth_upd_buf)
  qed
  have g: "b_dev (?f (bufs s ! i)) = 1" "b_blockno (?f (bufs s ! i)) = b" "b_valid (?f (bufs s ! i)) \<noteq> 0"
    "0 \<le> b_refcnt (?f (bufs s ! i))" "length (b_data (?f (bufs s ! i))) = BSIZE"
    "sl_locked (b_lock (?f (bufs s ! i))) \<noteq> 0 \<Longrightarrow> 0 < b_refcnt (?f (bufs s ! i))"
    "b_refcnt (?f (bufs s ! i)) = 0 \<Longrightarrow> b_data (?f (bufs s ! i)) = disk s b"
    using v H(5,6,9) p clean by (simp_all add: releasesleep_def buf_ok_def)
  note u = holds_upd [OF h, of ?f, OF g]
  have w: "bview ?u = bview s" "pins ?u = (pins s)(b := pins s b - 1)" "locked ?u = (locked s)(b := False)"
    using u(3-5) H(5) p bmap_cong [of ?u "upd_buf i ?f s"] by (simp_all add: releasesleep_def fun_upd_idem_iff)
  have inv: "bcache_inv ?t"
    using u(1) H(4) by (auto simp: bcache_inv_def)
  have keep: "holds me ?t c j" if hc: "holds me s c j" "c \<noteq> b" for c j
  proof -
    have "j \<noteq> i" using holdsD(2) [OF hc(1)] hc(2) H(2) by (auto simp: buf_at_def)
    moreover have "mypid me ?t = mypid me s" using p_pid_wakeup [of me "upd_buf i ?f s"] H(10) by (simp add: mypid_def)
    ultimately show ?thesis
      using hc(1) inv holdsD(4,8) [OF hc(1)] by (auto simp: holds_def cached_def nth_upd_buf)
  qed
  have "bview ?t = bview ?u" "pins ?t = pins ?u" "locked ?t = locked ?u"
    by (auto intro!: bmap_cong)
  moreover have "same_rest me s ?t"
    using p_pid_wakeup [of me "upd_buf i ?f s"] H(10) by (auto simp: same_rest_def mypid_def upd_buf_def)
  ultimately show thesis
    using e inv w keep by (intro that [of ?t]) auto
qed

lemma bpin_spec:
  assumes h: "holds me s b i"
  shows "holds me (bpin i s) b i" "bview (bpin i s) = bview s" "pins (bpin i s) = (pins s)(b := pins s b + 1)"
    "locked (bpin i s) = locked s" "disk (bpin i s) = disk s" "dtrace (bpin i s) = dtrace s" "same_rest me s (bpin i s)"
    "holds me s c j \<Longrightarrow> holds me (bpin i s) c j"
proof -
  note H = holdsD [OF h]
  let ?f = "\<lambda>b. b\<lparr>b_refcnt := b_refcnt b + 1\<rparr>"
  have p: "pins s b = b_refcnt (bufs s ! i)" by (rule pins_at [OF H(1,2)])
  have g: "b_dev (?f (bufs s ! i)) = 1" "b_blockno (?f (bufs s ! i)) = b" "b_valid (?f (bufs s ! i)) \<noteq> 0"
    "0 \<le> b_refcnt (?f (bufs s ! i))" "length (b_data (?f (bufs s ! i))) = BSIZE"
    "sl_locked (b_lock (?f (bufs s ! i))) \<noteq> 0 \<Longrightarrow> 0 < b_refcnt (?f (bufs s ! i))"
    "b_refcnt (?f (bufs s ! i)) = 0 \<Longrightarrow> b_data (?f (bufs s ! i)) = disk s b"
    using H(3,6,9) p by (simp_all add: cached_def buf_ok_def)
  note u = holds_upd [OF h, of ?f, OF g]
  show "bview (bpin i s) = bview s" "pins (bpin i s) = (pins s)(b := pins s b + 1)" "locked (bpin i s) = locked s"
    using u(3-5) H(5) p locked_at [OF H(1,2)] by (simp_all add: bpin_def fun_upd_idem_iff)
  show "disk (bpin i s) = disk s" "dtrace (bpin i s) = dtrace s" "same_rest me s (bpin i s)"
    by (simp_all add: bpin_def)
  have "holds me (bpin i s) c j" if "holds me s c j" for c j
    using that u(1) holdsD(4,8) [OF that]
    by (cases "j = i") (auto simp: holds_def bpin_def cached_def nth_upd_buf)
  then show "holds me (bpin i s) b i" "holds me s c j \<Longrightarrow> holds me (bpin i s) c j" using h by blast+
qed

lemma bunpin_spec:
  assumes h: "holds me s b i" and two: "1 < pins s b"
  shows "holds me (bunpin i s) b i" "bview (bunpin i s) = bview s" "pins (bunpin i s) = (pins s)(b := pins s b - 1)"
    "locked (bunpin i s) = locked s" "disk (bunpin i s) = disk s" "dtrace (bunpin i s) = dtrace s"
    "same_rest me s (bunpin i s)" "holds me s c j \<Longrightarrow> holds me (bunpin i s) c j"
proof -
  note H = holdsD [OF h]
  let ?f = "\<lambda>b. b\<lparr>b_refcnt := b_refcnt b - 1\<rparr>"
  have p: "pins s b = b_refcnt (bufs s ! i)" by (rule pins_at [OF H(1,2)])
  have g: "b_dev (?f (bufs s ! i)) = 1" "b_blockno (?f (bufs s ! i)) = b" "b_valid (?f (bufs s ! i)) \<noteq> 0"
    "0 \<le> b_refcnt (?f (bufs s ! i))" "length (b_data (?f (bufs s ! i))) = BSIZE"
    "sl_locked (b_lock (?f (bufs s ! i))) \<noteq> 0 \<Longrightarrow> 0 < b_refcnt (?f (bufs s ! i))"
    "b_refcnt (?f (bufs s ! i)) = 0 \<Longrightarrow> b_data (?f (bufs s ! i)) = disk s b"
    using H(3,6,9) p two by (simp_all add: cached_def buf_ok_def)
  note u = holds_upd [OF h, of ?f, OF g]
  show "bview (bunpin i s) = bview s" "pins (bunpin i s) = (pins s)(b := pins s b - 1)" "locked (bunpin i s) = locked s"
    using u(3-5) H(5) p locked_at [OF H(1,2)] by (simp_all add: bunpin_def fun_upd_idem_iff)
  show "disk (bunpin i s) = disk s" "dtrace (bunpin i s) = dtrace s" "same_rest me s (bunpin i s)"
    by (simp_all add: bunpin_def)
  have "holds me (bunpin i s) c j" if "holds me s c j" for c j
    using that u(1) holdsD(4,8) [OF that]
    by (cases "j = i") (auto simp: holds_def bunpin_def cached_def nth_upd_buf)
  then show "holds me (bunpin i s) b i" "holds me s c j \<Longrightarrow> holds me (bunpin i s) c j" using h by blast+
qed

end
