(* ===== verification/Log.thy ===== *)
theory Log
  imports Bio
begin

text \<open>
  \<open>kernel/log.c\<close>: the write-ahead log. The block numbers of \<open>struct logheader\<close> are kept as
  32-bit words; the header's on-disk form is the byte layout of the C struct. A loop over
  \<open>log.lh.n\<close> entries recurses over their number; an index past the array's 30 entries is \<open>Undef\<close>.
  The functions of this file are called between \<open>begin_op\<close> and \<open>end_op\<close> or by the only
  process that commits, so each runs as one sequential computation of process \<open>me\<close>.
\<close>

section \<open>State and operations\<close>

definition LOGBLOCKS :: nat where "LOGBLOCKS = MAXOPBLOCKS * 3"

record logheader =
  lh_n :: int
  lh_block :: "uint32 list"

record klog = kdisk +
  log_start :: int
  log_outstanding :: int
  log_committing :: int
  log_dev :: uint32
  lh :: logheader

definition log_slot :: "'a klog_scheme \<Rightarrow> nat \<Rightarrow> uint32" where
  "log_slot s tail = of_int (log_start s + int tail + 1)"

text \<open>\<open>memmove(dst->data, src->data, BSIZE)\<close>.\<close>

definition copy_buf :: "nat \<Rightarrow> nat \<Rightarrow> 'a kdisk_scheme \<Rightarrow> 'a kdisk_scheme" where
  "copy_buf dst src s = set_data dst (take BSIZE (b_data (bufs s ! src))) s"

fun install_loop :: "nat \<Rightarrow> bool \<Rightarrow> nat \<Rightarrow> nat \<Rightarrow> 'a klog_scheme \<Rightarrow> 'a klog_scheme outcome" where
  "install_loop me recovering 0 tail s = Ok s"
| "install_loop me recovering (Suc k) tail s =
     (if tail \<ge> length (lh_block (lh s)) then Undef
      else bindO (bread me (log_dev s) (log_slot s tail) s) (\<lambda>(lbuf, s).
        bindO (bread me (log_dev s) (lh_block (lh s) ! tail) s) (\<lambda>(dbuf, s).
        bindO (bwrite me dbuf (copy_buf dbuf lbuf s)) (\<lambda>s.
        bindO (brelse me lbuf (if recovering then s else bunpin dbuf s)) (\<lambda>s.
        bindO (brelse me dbuf s) (install_loop me recovering k (Suc tail)))))))"

definition install_trans :: "nat \<Rightarrow> bool \<Rightarrow> 'a klog_scheme \<Rightarrow> 'a klog_scheme outcome" where
  "install_trans me recovering s = install_loop me recovering (nat (lh_n (lh s))) 0 s"

text \<open>The on-disk header: \<open>n\<close> at offset 0, \<open>block[i]\<close> at offset \<open>4 + 4 * i\<close>.\<close>

definition head_n :: "byte list \<Rightarrow> int" where
  "head_n bs = sint (get_le 4 0 bs :: uint32)"

definition head_block :: "byte list \<Rightarrow> nat \<Rightarrow> uint32" where
  "head_block bs i = get_le 4 (4 + 4 * i) bs"

primrec get_blocks :: "byte list \<Rightarrow> nat \<Rightarrow> uint32 list \<Rightarrow> uint32 list" where
  "get_blocks bs 0 blk = blk"
| "get_blocks bs (Suc i) blk = (get_blocks bs i blk)[i := head_block bs i]"

primrec put_blocks :: "uint32 list \<Rightarrow> nat \<Rightarrow> byte list \<Rightarrow> byte list" where
  "put_blocks blk 0 bs = bs"
| "put_blocks blk (Suc i) bs = put_le 4 (4 + 4 * i) (blk ! i) (put_blocks blk i bs)"

definition put_head :: "logheader \<Rightarrow> byte list \<Rightarrow> byte list" where
  "put_head h bs = put_blocks (lh_block h) (nat (lh_n h)) (put_le 4 0 (of_int (lh_n h) :: uint32) bs)"

definition read_head :: "nat \<Rightarrow> 'a klog_scheme \<Rightarrow> 'a klog_scheme outcome" where
  "read_head me s = bindO (bread me (log_dev s) (of_int (log_start s)) s) (\<lambda>(buf, s).
     let bs = b_data (bufs s ! buf); n = head_n bs in
     if n > int (length (lh_block (lh s))) then Undef
     else brelse me buf (s\<lparr>lh := \<lparr>lh_n = n, lh_block = get_blocks bs (nat n) (lh_block (lh s))\<rparr>\<rparr>))"

definition write_head :: "nat \<Rightarrow> 'a klog_scheme \<Rightarrow> 'a klog_scheme outcome" where
  "write_head me s = bindO (bread me (log_dev s) (of_int (log_start s)) s) (\<lambda>(buf, s).
     if lh_n (lh s) > int (length (lh_block (lh s))) then Undef
     else bindO (bwrite me buf (set_data buf (put_head (lh s) (b_data (bufs s ! buf))) s)) (brelse me buf))"

definition set_n :: "int \<Rightarrow> 'a klog_scheme \<Rightarrow> 'a klog_scheme" where
  "set_n n s = s\<lparr>lh := (lh s)\<lparr>lh_n := n\<rparr>\<rparr>"

definition recover_from_log :: "nat \<Rightarrow> 'a klog_scheme \<Rightarrow> 'a klog_scheme outcome" where
  "recover_from_log me s = bindO (read_head me s) (\<lambda>s. bindO (install_trans me True s) (\<lambda>s.
     write_head me (set_n 0 s)))"

definition initlog :: "nat \<Rightarrow> uint32 \<Rightarrow> uint32 \<Rightarrow> 'a klog_scheme \<Rightarrow> 'a klog_scheme outcome" where
  "initlog me dev logstart s =
     (if 4 + 4 * LOGBLOCKS \<ge> BSIZE then Panic ''initlog: too big logheader''
      else recover_from_log me (s\<lparr>log_start := sint logstart, log_dev := dev\<rparr>))"

definition begin_op :: "'a klog_scheme \<Rightarrow> 'a klog_scheme outcome" where
  "begin_op s =
     (if log_committing s \<noteq> 0 then Sleeps
      else if lh_n (lh s) + (log_outstanding s + 1) * int MAXOPBLOCKS > int LOGBLOCKS then Sleeps
      else Ok (s\<lparr>log_outstanding := log_outstanding s + 1\<rparr>))"

fun write_log_loop :: "nat \<Rightarrow> nat \<Rightarrow> nat \<Rightarrow> 'a klog_scheme \<Rightarrow> 'a klog_scheme outcome" where
  "write_log_loop me 0 tail s = Ok s"
| "write_log_loop me (Suc k) tail s =
     (if tail \<ge> length (lh_block (lh s)) then Undef
      else bindO (bread me (log_dev s) (log_slot s tail) s) (\<lambda>(to_buf, s).
        bindO (bread me (log_dev s) (lh_block (lh s) ! tail) s) (\<lambda>(from_buf, s).
        bindO (bwrite me to_buf (copy_buf to_buf from_buf s)) (\<lambda>s.
        bindO (brelse me from_buf s) (\<lambda>s.
        bindO (brelse me to_buf s) (write_log_loop me k (Suc tail)))))))"

definition write_log :: "nat \<Rightarrow> 'a klog_scheme \<Rightarrow> 'a klog_scheme outcome" where
  "write_log me s = write_log_loop me (nat (lh_n (lh s))) 0 s"

definition commit :: "nat \<Rightarrow> 'a klog_scheme \<Rightarrow> 'a klog_scheme outcome" where
  "commit me s =
     (if lh_n (lh s) > 0 then
        bindO (write_log me s) (\<lambda>s. bindO (write_head me s) (\<lambda>s. bindO (install_trans me False s) (\<lambda>s.
          write_head me (set_n 0 s))))
      else Ok s)"

definition end_op :: "nat \<Rightarrow> 'a klog_scheme \<Rightarrow> 'a klog_scheme outcome" where
  "end_op me s =
     (let s = s\<lparr>log_outstanding := log_outstanding s - 1\<rparr> in
      if log_committing s \<noteq> 0 then Panic ''log.committing''
      else if log_outstanding s = 0 then
        bindO (commit me (s\<lparr>log_committing := 1\<rparr>)) (\<lambda>s.
          Ok (wakeup LogChan (Some me) (s\<lparr>log_committing := 0\<rparr>)))
      else Ok (wakeup LogChan (Some me) s))"

text \<open>The search loop of \<open>log_write\<close> from entry \<open>i\<close>.\<close>

function log_find :: "uint32 \<Rightarrow> logheader \<Rightarrow> nat \<Rightarrow> nat" where
  "log_find b h i = (if int i < lh_n h \<and> lh_block h ! i \<noteq> b then log_find b h (Suc i) else i)"
  by pat_completeness auto
termination
  by (relation "measure (\<lambda>(b, h, i). nat (lh_n h) - i)") auto

declare log_find.simps [simp del]

definition log_write :: "nat \<Rightarrow> 'a klog_scheme \<Rightarrow> 'a klog_scheme outcome" where
  "log_write buf s =
     (if lh_n (lh s) \<ge> int LOGBLOCKS then Panic ''too big a transaction''
      else if log_outstanding s < 1 then Panic ''log_write outside of trans''
      else let b = b_blockno (bufs s ! buf);
               i = log_find b (lh s) 0;
               s = s\<lparr>lh := (lh s)\<lparr>lh_block := (lh_block (lh s))[i := b]\<rparr>\<rparr>
           in if int i = lh_n (lh s) then Ok (set_n (lh_n (lh s) + 1) (bpin buf s)) else Ok s)"

end
