(* ===== verification/Fs.thy ===== *)
theory Fs
  imports Log
begin

text \<open>
  \<open>kernel/fs.c\<close>: blocks, inodes, file contents, directories and path names. A
  \<open>struct inode *\<close> is an index into the inode table, a null pointer is \<open>None\<close>. The on-disk
  structures are byte layouts inside blocks. \<open>either_copyout\<close> and \<open>either_copyin\<close> are
  arguments of \<open>readi\<close> and \<open>writei\<close>, because they are defined on a larger state: the first is
  handed an accumulator so that it can also stand for a copy into a local variable of the
  caller, the second returns the bytes it has copied, also when it fails half way. The messages
  that the code prints are not part of the state. \<open>sb\<close> is written only at boot, so a loop reads
  its bounds once.
\<close>

section \<open>Layout\<close>

definition ROOTINO :: uint32 where "ROOTINO = 1"

definition ROOTDEV :: uint32 where "ROOTDEV = 1"

definition FSMAGIC :: uint32 where "FSMAGIC = 0x10203040"

definition NDIRECT :: nat where "NDIRECT = 12"

definition NINDIRECT :: nat where "NINDIRECT = BSIZE div 4"

definition MAXFILE :: nat where "MAXFILE = NDIRECT + NINDIRECT"

definition IPB :: nat where "IPB = BSIZE div 64"

definition BPB :: nat where "BPB = BSIZE * 8"

definition DIRSIZ :: nat where "DIRSIZ = 14"

definition NINODE :: nat where "NINODE = 50"

definition T_DIR :: "16 word" where "T_DIR = 1"

definition T_FILE :: "16 word" where "T_FILE = 2"

definition T_DEVICE :: "16 word" where "T_DEVICE = 3"

record superblock =
  sb_magic :: uint32
  sb_size :: uint32
  sb_nblocks :: uint32
  sb_ninodes :: uint32
  sb_nlog :: uint32
  sb_logstart :: uint32
  sb_inodestart :: uint32
  sb_bmapstart :: uint32

record inode =
  i_dev :: uint32
  i_inum :: uint32
  i_ref :: int
  i_lock :: sleeplock
  i_valid :: int
  i_type :: "16 word"
  i_major :: "16 word"
  i_minor :: "16 word"
  i_nlink :: "16 word"
  i_size :: uint32
  i_addrs :: "uint32 list"

record kfs = klog +
  sb :: superblock
  inodes :: "inode list"

definition upd_inode :: "nat \<Rightarrow> (inode \<Rightarrow> inode) \<Rightarrow> 'a kfs_scheme \<Rightarrow> 'a kfs_scheme" where
  "upd_inode ip f s = s\<lparr>inodes := (inodes s)[ip := f (inodes s ! ip)]\<rparr>"

definition IBLOCK :: "uint32 \<Rightarrow> superblock \<Rightarrow> uint32" where
  "IBLOCK i super = of_nat (unat i div IPB) + sb_inodestart super"

definition BBLOCK :: "uint32 \<Rightarrow> superblock \<Rightarrow> uint32" where
  "BBLOCK b super = of_nat (unat b div BPB) + sb_bmapstart super"

text \<open>\<open>struct dinode\<close> at offset \<open>64 * (inum % IPB)\<close> of its block.\<close>

definition dinode_off :: "uint32 \<Rightarrow> nat" where
  "dinode_off inum = 64 * (unat inum mod IPB)"

definition dinode_type :: "nat \<Rightarrow> byte list \<Rightarrow> 16 word" where
  "dinode_type off bs = get_le 2 off bs"

definition dinode_nlink :: "nat \<Rightarrow> byte list \<Rightarrow> 16 word" where
  "dinode_nlink off bs = get_le 2 (off + 6) bs"

definition read_dinode :: "nat \<Rightarrow> byte list \<Rightarrow> inode \<Rightarrow> inode" where
  "read_dinode off bs ip = ip\<lparr>i_type := dinode_type off bs, i_major := get_le 2 (off + 2) bs,
     i_minor := get_le 2 (off + 4) bs, i_nlink := dinode_nlink off bs, i_size := get_le 4 (off + 8) bs,
     i_addrs := map (\<lambda>k. get_le 4 (off + 12 + 4 * k) bs) [0..<NDIRECT + 1]\<rparr>"

primrec put_words :: "nat \<Rightarrow> uint32 list \<Rightarrow> byte list \<Rightarrow> byte list" where
  "put_words off [] bs = bs"
| "put_words off (w # ws) bs = put_words (off + 4) ws (put_le 4 off w bs)"

definition write_dinode :: "nat \<Rightarrow> inode \<Rightarrow> byte list \<Rightarrow> byte list" where
  "write_dinode off ip bs =
     put_words (off + 12) (i_addrs ip) (put_le 4 (off + 8) (i_size ip) (put_le 2 (off + 6) (i_nlink ip)
       (put_le 2 (off + 4) (i_minor ip) (put_le 2 (off + 2) (i_major ip) (put_le 2 off (i_type ip) bs)))))"

definition read_superblock :: "byte list \<Rightarrow> superblock" where
  "read_superblock bs = \<lparr>sb_magic = get_le 4 0 bs, sb_size = get_le 4 4 bs, sb_nblocks = get_le 4 8 bs,
     sb_ninodes = get_le 4 12 bs, sb_nlog = get_le 4 16 bs, sb_logstart = get_le 4 20 bs,
     sb_inodestart = get_le 4 24 bs, sb_bmapstart = get_le 4 28 bs\<rparr>"

section \<open>Blocks\<close>

definition readsb :: "nat \<Rightarrow> uint32 \<Rightarrow> 'a kfs_scheme \<Rightarrow> 'a kfs_scheme outcome" where
  "readsb me dev s = bindO (bread me dev 1 s) (\<lambda>(bp, s).
     brelse me bp (s\<lparr>sb := read_superblock (b_data (bufs s ! bp))\<rparr>))"

definition bzero :: "nat \<Rightarrow> uint32 \<Rightarrow> uint32 \<Rightarrow> 'a klog_scheme \<Rightarrow> 'a klog_scheme outcome" where
  "bzero me dev bno s = bindO (bread me dev bno s) (\<lambda>(bp, s).
     bindO (log_write bp (set_data bp (replicate BSIZE 0) s)) (brelse me bp))"

definition bit_mask :: "nat \<Rightarrow> byte" where
  "bit_mask bi = push_bit (bi mod 8) 1"

text \<open>The inner loop of \<open>balloc\<close>, from bit \<open>bi\<close> of the bitmap block that starts at block \<open>b\<close>.\<close>

function balloc_scan :: "byte list \<Rightarrow> nat \<Rightarrow> nat \<Rightarrow> nat \<Rightarrow> nat option" where
  "balloc_scan bs sz b bi =
     (if bi < BPB \<and> b + bi < sz then
        if (bs ! (bi div 8)) AND bit_mask bi = 0 then Some bi else balloc_scan bs sz b (Suc bi)
      else None)"
  by pat_completeness auto
termination
  by (relation "measure (\<lambda>(bs, sz, b, bi). BPB - bi)") auto

declare balloc_scan.simps [simp del]

function balloc_loop :: "nat \<Rightarrow> uint32 \<Rightarrow> nat \<Rightarrow> nat \<Rightarrow> 'a kfs_scheme \<Rightarrow> (uint32 \<times> 'a kfs_scheme) outcome" where
  "balloc_loop me dev sz b s =
     (if b < sz then
        bindO (bread me dev (BBLOCK (of_nat b) (sb s)) s) (\<lambda>(bp, s).
          case balloc_scan (b_data (bufs s ! bp)) sz b 0 of
            Some bi \<Rightarrow>
              let bs = b_data (bufs s ! bp) in
              bindO (log_write bp (set_data bp (bs[bi div 8 := (bs ! (bi div 8)) OR bit_mask bi]) s)) (\<lambda>s.
              bindO (brelse me bp s) (\<lambda>s.
              bindO (bzero me dev (of_nat (b + bi)) s) (\<lambda>s. Ok (of_nat (b + bi), s))))
          | None \<Rightarrow> bindO (brelse me bp s) (balloc_loop me dev sz (b + BPB)))
      else Ok (0, s))"
  by pat_completeness auto
termination
  by (relation "measure (\<lambda>(me, dev, sz, b, s). sz - b)") (auto simp: BPB_def BSIZE_def)

declare balloc_loop.simps [simp del]

definition balloc :: "nat \<Rightarrow> uint32 \<Rightarrow> 'a kfs_scheme \<Rightarrow> (uint32 \<times> 'a kfs_scheme) outcome" where
  "balloc me dev s = balloc_loop me dev (unat (sb_size (sb s))) 0 s"

definition bfree :: "nat \<Rightarrow> uint32 \<Rightarrow> uint32 \<Rightarrow> 'a kfs_scheme \<Rightarrow> 'a kfs_scheme outcome" where
  "bfree me dev b s = bindO (bread me dev (BBLOCK b (sb s)) s) (\<lambda>(bp, s).
     let bs = b_data (bufs s ! bp); bi = unat b mod BPB in
     if (bs ! (bi div 8)) AND bit_mask bi = 0 then Panic ''freeing free block''
     else bindO (log_write bp (set_data bp (bs[bi div 8 := (bs ! (bi div 8)) AND NOT (bit_mask bi)]) s)) (brelse me bp))"

section \<open>Inodes\<close>

definition iinit :: "'a kfs_scheme \<Rightarrow> 'a kfs_scheme" where
  "iinit s = s\<lparr>inodes := map (\<lambda>i. i\<lparr>i_lock := initsleeplock\<rparr>) (inodes s)\<rparr>"

definition inode_acquire :: "nat \<Rightarrow> nat \<Rightarrow> 'a kfs_scheme \<Rightarrow> 'a kfs_scheme outcome" where
  "inode_acquire me ip s = bindO (acquiresleep (mypid me s) (i_lock (inodes s ! ip))) (\<lambda>lk.
     Ok (upd_inode ip (\<lambda>i. i\<lparr>i_lock := lk\<rparr>) s))"

definition inode_release :: "nat \<Rightarrow> nat \<Rightarrow> 'a kfs_scheme \<Rightarrow> 'a kfs_scheme" where
  "inode_release me ip s = wakeup (LockChan ip) (Some me) (upd_inode ip (\<lambda>i. i\<lparr>i_lock := releasesleep (i_lock i)\<rparr>) s)"

definition iget :: "uint32 \<Rightarrow> uint32 \<Rightarrow> 'a kfs_scheme \<Rightarrow> (nat \<times> 'a kfs_scheme) outcome" where
  "iget dev inum s =
     (case find (\<lambda>i. i_ref (inodes s ! i) > 0 \<and> i_dev (inodes s ! i) = dev \<and> i_inum (inodes s ! i) = inum) [0..<NINODE] of
        Some i \<Rightarrow> Ok (i, upd_inode i (\<lambda>i. i\<lparr>i_ref := i_ref i + 1\<rparr>) s)
      | None \<Rightarrow>
          (case find (\<lambda>i. i_ref (inodes s ! i) = 0) [0..<NINODE] of
             None \<Rightarrow> Panic ''iget: no inodes''
           | Some i \<Rightarrow> Ok (i, upd_inode i (\<lambda>i. i\<lparr>i_dev := dev, i_inum := inum, i_ref := 1, i_valid := 0\<rparr>) s)))"

function ialloc_loop ::
  "nat \<Rightarrow> uint32 \<Rightarrow> 16 word \<Rightarrow> nat \<Rightarrow> nat \<Rightarrow> 'a kfs_scheme \<Rightarrow> (nat option \<times> 'a kfs_scheme) outcome" where
  "ialloc_loop me dev ty ninodes inum s =
     (if inum < ninodes then
        bindO (bread me dev (IBLOCK (of_nat inum) (sb s)) s) (\<lambda>(bp, s).
          let bs = b_data (bufs s ! bp); off = dinode_off (of_nat inum) in
          if dinode_type off bs = 0 then
            bindO (log_write bp (set_data bp (put_le 2 off ty (put_bs off (replicate 64 0) bs)) s)) (\<lambda>s.
            bindO (brelse me bp s) (\<lambda>s.
            bindO (iget dev (of_nat inum) s) (\<lambda>(ip, s). Ok (Some ip, s))))
          else bindO (brelse me bp s) (ialloc_loop me dev ty ninodes (Suc inum)))
      else Ok (None, s))"
  by pat_completeness auto
termination
  by (relation "measure (\<lambda>(me, dev, ty, ninodes, inum, s). ninodes - inum)") auto

declare ialloc_loop.simps [simp del]

definition ialloc :: "nat \<Rightarrow> uint32 \<Rightarrow> 16 word \<Rightarrow> 'a kfs_scheme \<Rightarrow> (nat option \<times> 'a kfs_scheme) outcome" where
  "ialloc me dev ty s = ialloc_loop me dev ty (unat (sb_ninodes (sb s))) 1 s"

definition iupdate :: "nat \<Rightarrow> nat \<Rightarrow> 'a kfs_scheme \<Rightarrow> 'a kfs_scheme outcome" where
  "iupdate me ip s =
     (let i = inodes s ! ip in
      bindO (bread me (i_dev i) (IBLOCK (i_inum i) (sb s)) s) (\<lambda>(bp, s).
      bindO (log_write bp (set_data bp (write_dinode (dinode_off (i_inum i)) i (b_data (bufs s ! bp))) s)) (brelse me bp)))"

definition idup :: "nat \<Rightarrow> 'a kfs_scheme \<Rightarrow> 'a kfs_scheme" where
  "idup ip s = upd_inode ip (\<lambda>i. i\<lparr>i_ref := i_ref i + 1\<rparr>) s"

definition ilock :: "nat \<Rightarrow> nat option \<Rightarrow> 'a kfs_scheme \<Rightarrow> 'a kfs_scheme outcome" where
  "ilock me ipo s = (case ipo of None \<Rightarrow> Panic ''ilock'' | Some ip \<Rightarrow>
     if i_ref (inodes s ! ip) < 1 then Panic ''ilock''
     else bindO (inode_acquire me ip s) (\<lambda>s.
       let i = inodes s ! ip in
       if i_valid i = 0 then
         bindO (bread me (i_dev i) (IBLOCK (i_inum i) (sb s)) s) (\<lambda>(bp, s).
         let bs = b_data (bufs s ! bp);
             s = upd_inode ip (read_dinode (dinode_off (i_inum i)) bs) s in
         bindO (brelse me bp s) (\<lambda>s.
         let s = upd_inode ip (\<lambda>i. i\<lparr>i_valid := 1\<rparr>) s in
         if i_type (inodes s ! ip) = 0 then Panic ''ilock: no type'' else Ok s))
       else Ok s))"

definition iunlock :: "nat \<Rightarrow> nat option \<Rightarrow> 'a kfs_scheme \<Rightarrow> 'a kfs_scheme outcome" where
  "iunlock me ipo s = (case ipo of None \<Rightarrow> Panic ''iunlock'' | Some ip \<Rightarrow>
     if \<not> holdingsleep (mypid me s) (i_lock (inodes s ! ip)) \<or> i_ref (inodes s ! ip) < 1 then Panic ''iunlock''
     else Ok (inode_release me ip s))"

section \<open>The blocks of an inode\<close>

definition indirect_get :: "byte list \<Rightarrow> nat \<Rightarrow> uint32" where
  "indirect_get bs k = get_le 4 (4 * k) bs"

definition bmap :: "nat \<Rightarrow> nat \<Rightarrow> uint32 \<Rightarrow> 'a kfs_scheme \<Rightarrow> (uint32 \<times> 'a kfs_scheme) outcome" where
  "bmap me ip bn s =
     (if unat bn < NDIRECT then
        let addr = i_addrs (inodes s ! ip) ! unat bn in
        if addr = 0 then
          bindO (balloc me (i_dev (inodes s ! ip)) s) (\<lambda>(addr, s).
            if addr = 0 then Ok (0, s)
            else Ok (addr, upd_inode ip (\<lambda>i. i\<lparr>i_addrs := (i_addrs i)[unat bn := addr]\<rparr>) s))
        else Ok (addr, s)
      else let bn = unat bn - NDIRECT in
      if bn < NINDIRECT then
        bindO (let addr = i_addrs (inodes s ! ip) ! NDIRECT in
           if addr = 0 then
             bindO (balloc me (i_dev (inodes s ! ip)) s) (\<lambda>(addr, s).
               Ok (addr, if addr = 0 then s else upd_inode ip (\<lambda>i. i\<lparr>i_addrs := (i_addrs i)[NDIRECT := addr]\<rparr>) s))
           else Ok (addr, s)) (\<lambda>(addr, s).
        if addr = 0 then Ok (0, s)
        else bindO (bread me (i_dev (inodes s ! ip)) addr s) (\<lambda>(bp, s).
          bindO (let addr = indirect_get (b_data (bufs s ! bp)) bn in
             if addr = 0 then
               bindO (balloc me (i_dev (inodes s ! ip)) s) (\<lambda>(addr, s).
                 if addr \<noteq> 0
                 then bindO (log_write bp (set_data bp (put_le 4 (4 * bn) addr (b_data (bufs s ! bp))) s)) (\<lambda>s. Ok (addr, s))
                 else Ok (addr, s))
             else Ok (addr, s)) (\<lambda>(addr, s).
          bindO (brelse me bp s) (\<lambda>s. Ok (addr, s)))))
      else Panic ''bmap: out of range'')"

text \<open>The two loops of \<open>itrunc\<close>, from entry \<open>i\<close> for \<open>k\<close> more entries.\<close>

primrec itrunc_direct :: "nat \<Rightarrow> nat \<Rightarrow> nat \<Rightarrow> nat \<Rightarrow> 'a kfs_scheme \<Rightarrow> 'a kfs_scheme outcome" where
  "itrunc_direct me ip 0 i s = Ok s"
| "itrunc_direct me ip (Suc k) i s =
     (let a = i_addrs (inodes s ! ip) ! i in
      if a \<noteq> 0 then bindO (bfree me (i_dev (inodes s ! ip)) a s) (\<lambda>s.
        itrunc_direct me ip k (Suc i) (upd_inode ip (\<lambda>n. n\<lparr>i_addrs := (i_addrs n)[i := 0]\<rparr>) s))
      else itrunc_direct me ip k (Suc i) s)"

primrec itrunc_indirect :: "nat \<Rightarrow> uint32 \<Rightarrow> nat \<Rightarrow> nat \<Rightarrow> nat \<Rightarrow> 'a kfs_scheme \<Rightarrow> 'a kfs_scheme outcome" where
  "itrunc_indirect me dev bp 0 j s = Ok s"
| "itrunc_indirect me dev bp (Suc k) j s =
     (let a = indirect_get (b_data (bufs s ! bp)) j in
      if a \<noteq> 0 then bindO (bfree me dev a s) (itrunc_indirect me dev bp k (Suc j))
      else itrunc_indirect me dev bp k (Suc j) s)"

definition itrunc :: "nat \<Rightarrow> nat \<Rightarrow> 'a kfs_scheme \<Rightarrow> 'a kfs_scheme outcome" where
  "itrunc me ip s = bindO (itrunc_direct me ip NDIRECT 0 s) (\<lambda>s.
     bindO (let a = i_addrs (inodes s ! ip) ! NDIRECT; dev = i_dev (inodes s ! ip) in
        if a \<noteq> 0 then
          bindO (bread me dev a s) (\<lambda>(bp, s).
          bindO (itrunc_indirect me dev bp NINDIRECT 0 s) (\<lambda>s.
          bindO (brelse me bp s) (\<lambda>s.
          bindO (bfree me dev a s) (\<lambda>s.
          Ok (upd_inode ip (\<lambda>n. n\<lparr>i_addrs := (i_addrs n)[NDIRECT := 0]\<rparr>) s)))))
        else Ok s) (\<lambda>s.
     iupdate me ip (upd_inode ip (\<lambda>n. n\<lparr>i_size := 0\<rparr>) s)))"

definition iput :: "nat \<Rightarrow> nat \<Rightarrow> 'a kfs_scheme \<Rightarrow> 'a kfs_scheme outcome" where
  "iput me ip s =
     (let i = inodes s ! ip in
      bindO (if i_ref i = 1 \<and> i_valid i \<noteq> 0 \<and> i_nlink i = 0 then
          bindO (inode_acquire me ip s) (\<lambda>s.
          bindO (itrunc me ip s) (\<lambda>s.
          bindO (iupdate me ip (upd_inode ip (\<lambda>n. n\<lparr>i_type := 0\<rparr>) s)) (\<lambda>s.
          Ok (inode_release me ip (upd_inode ip (\<lambda>n. n\<lparr>i_valid := 0\<rparr>) s)))))
        else Ok s) (\<lambda>s.
      Ok (upd_inode ip (\<lambda>n. n\<lparr>i_ref := i_ref n - 1\<rparr>) s)))"

definition iunlockput :: "nat \<Rightarrow> nat \<Rightarrow> 'a kfs_scheme \<Rightarrow> 'a kfs_scheme outcome" where
  "iunlockput me ip s = bindO (iunlock me (Some ip) s) (iput me ip)"

text \<open>\<open>ireclaim\<close> frees the inodes that a crash left allocated without links.\<close>

function ireclaim_loop :: "nat \<Rightarrow> uint32 \<Rightarrow> nat \<Rightarrow> nat \<Rightarrow> 'a kfs_scheme \<Rightarrow> 'a kfs_scheme outcome" where
  "ireclaim_loop me dev ninodes inum s =
     (if inum < ninodes then
        bindO (bread me dev (IBLOCK (of_nat inum) (sb s)) s) (\<lambda>(bp, s).
        let bs = b_data (bufs s ! bp); off = dinode_off (of_nat inum) in
        bindO (if dinode_type off bs \<noteq> 0 \<and> dinode_nlink off bs = 0
               then bindO (iget dev (of_nat inum) s) (\<lambda>(ip, s). Ok (Some ip, s)) else Ok (None, s)) (\<lambda>(ipo, s).
        bindO (brelse me bp s) (\<lambda>s.
        bindO (case ipo of None \<Rightarrow> Ok s | Some ip \<Rightarrow>
            bindO (begin_op s) (\<lambda>s.
            bindO (ilock me (Some ip) s) (\<lambda>s.
            bindO (iunlock me (Some ip) s) (\<lambda>s.
            bindO (iput me ip s) (end_op me)))))
        (ireclaim_loop me dev ninodes (Suc inum)))))
      else Ok s)"
  by pat_completeness auto
termination
  by (relation "measure (\<lambda>(me, dev, ninodes, inum, s). ninodes - inum)") auto

declare ireclaim_loop.simps [simp del]

definition ireclaim :: "nat \<Rightarrow> uint32 \<Rightarrow> 'a kfs_scheme \<Rightarrow> 'a kfs_scheme outcome" where
  "ireclaim me dev s = ireclaim_loop me dev (unat (sb_ninodes (sb s))) 1 s"

definition fsinit :: "nat \<Rightarrow> uint32 \<Rightarrow> 'a kfs_scheme \<Rightarrow> 'a kfs_scheme outcome" where
  "fsinit me dev s = bindO (readsb me dev s) (\<lambda>s.
     if sb_magic (sb s) \<noteq> FSMAGIC then Panic ''invalid file system''
     else bindO (initlog me dev (sb_logstart (sb s)) s) (ireclaim me dev))"

section \<open>File contents\<close>

record stat =
  st_dev :: int
  st_ino :: uint32
  st_type :: "16 word"
  st_nlink :: "16 word"
  st_size :: uint64

definition stati :: "inode \<Rightarrow> stat" where
  "stati ip = \<lparr>st_dev = sint (i_dev ip), st_ino = i_inum ip, st_type = i_type ip, st_nlink = i_nlink ip,
     st_size = ucast (i_size ip)\<rparr>"

text \<open>A \<open>uint\<close> count returned as an \<open>int\<close>.\<close>

definition ret_int :: "nat \<Rightarrow> int" where
  "ret_int n = sint (of_nat n :: uint32)"

text \<open>
  The loop of \<open>readi\<close> with \<open>tot\<close> bytes done. The argument \<open>cout\<close> is \<open>either_copyout\<close>.
\<close>

function readi_loop ::
  "(uint64 \<Rightarrow> byte list \<Rightarrow> 'b \<Rightarrow> 'a kfs_scheme \<Rightarrow> (int \<times> 'b \<times> 'a kfs_scheme) outcome) \<Rightarrow>
   nat \<Rightarrow> nat \<Rightarrow> uint64 \<Rightarrow> uint32 \<Rightarrow> nat \<Rightarrow> nat \<Rightarrow> 'b \<Rightarrow> 'a kfs_scheme \<Rightarrow> (int \<times> 'b \<times> 'a kfs_scheme) outcome" where
  "readi_loop cout me ip dst off n tot acc s =
     (if tot < n then
        bindO (bmap me ip (of_nat (unat off div BSIZE)) s) (\<lambda>(addr, s).
        if addr = 0 then Ok (ret_int tot, acc, s)
        else bindO (bread me (i_dev (inodes s ! ip)) addr s) (\<lambda>(bp, s).
        let m = min (n - tot) (BSIZE - unat off mod BSIZE) in
        bindO (cout dst (take m (drop (unat off mod BSIZE) (b_data (bufs s ! bp)))) acc s) (\<lambda>(r, acc, s).
        bindO (brelse me bp s) (\<lambda>s.
        if r = -1 then Ok (-1, acc, s)
        else readi_loop cout me ip (dst + of_nat m) (off + of_nat m) n (tot + m) acc s))))
      else Ok (ret_int tot, acc, s))"
  by pat_completeness auto
termination
  by (relation "measure (\<lambda>(cout, me, ip, dst, off, n, tot, acc, s). n - tot)") (auto simp: BSIZE_def)

declare readi_loop.simps [simp del]

definition readi ::
  "(uint64 \<Rightarrow> byte list \<Rightarrow> 'b \<Rightarrow> 'a kfs_scheme \<Rightarrow> (int \<times> 'b \<times> 'a kfs_scheme) outcome) \<Rightarrow>
   nat \<Rightarrow> nat \<Rightarrow> uint64 \<Rightarrow> uint32 \<Rightarrow> uint32 \<Rightarrow> 'b \<Rightarrow> 'a kfs_scheme \<Rightarrow> (int \<times> 'b \<times> 'a kfs_scheme) outcome" where
  "readi cout me ip dst off n acc s =
     (let size = i_size (inodes s ! ip) in
      if off > size \<or> off + n < off then Ok (0, acc, s)
      else let n = (if off + n > size then size - off else n) in
        readi_loop cout me ip dst off (unat n) 0 acc s)"

text \<open>
  The loop of \<open>writei\<close>. The argument \<open>cin\<close> is \<open>either_copyin\<close> into the buffer; the bytes it
  returns have been stored there even if it reports a failure.
\<close>

function writei_loop ::
  "(uint64 \<Rightarrow> nat \<Rightarrow> 'a kfs_scheme \<Rightarrow> (int \<times> byte list \<times> 'a kfs_scheme) outcome) \<Rightarrow>
   nat \<Rightarrow> nat \<Rightarrow> uint64 \<Rightarrow> uint32 \<Rightarrow> nat \<Rightarrow> nat \<Rightarrow> 'a kfs_scheme \<Rightarrow> (nat \<times> uint32 \<times> 'a kfs_scheme) outcome" where
  "writei_loop cin me ip src off n tot s =
     (if tot < n then
        bindO (bmap me ip (of_nat (unat off div BSIZE)) s) (\<lambda>(addr, s).
        if addr = 0 then Ok (tot, off, s)
        else bindO (bread me (i_dev (inodes s ! ip)) addr s) (\<lambda>(bp, s).
        let m = min (n - tot) (BSIZE - unat off mod BSIZE) in
        bindO (cin src m s) (\<lambda>(r, bs, s).
        let s = set_data bp (put_bs (unat off mod BSIZE) bs (b_data (bufs s ! bp))) s in
        if r = -1 then bindO (brelse me bp s) (\<lambda>s. Ok (tot, off, s))
        else bindO (log_write bp s) (\<lambda>s. bindO (brelse me bp s) (\<lambda>s.
          writei_loop cin me ip (src + of_nat m) (off + of_nat m) n (tot + m) s)))))
      else Ok (tot, off, s))"
  by pat_completeness auto
termination
  by (relation "measure (\<lambda>(cin, me, ip, src, off, n, tot, s). n - tot)") (auto simp: BSIZE_def)

declare writei_loop.simps [simp del]

definition writei ::
  "(uint64 \<Rightarrow> nat \<Rightarrow> 'a kfs_scheme \<Rightarrow> (int \<times> byte list \<times> 'a kfs_scheme) outcome) \<Rightarrow>
   nat \<Rightarrow> nat \<Rightarrow> uint64 \<Rightarrow> uint32 \<Rightarrow> uint32 \<Rightarrow> 'a kfs_scheme \<Rightarrow> (int \<times> 'a kfs_scheme) outcome" where
  "writei cin me ip src off n s =
     (if off > i_size (inodes s ! ip) \<or> off + n < off then Ok (-1, s)
      else if unat (off + n) > MAXFILE * BSIZE then Ok (-1, s)
      else bindO (writei_loop cin me ip src off (unat n) 0 s) (\<lambda>(tot, off, s).
        let s = (if off > i_size (inodes s ! ip) then upd_inode ip (\<lambda>i. i\<lparr>i_size := off\<rparr>) s else s) in
        bindO (iupdate me ip s) (\<lambda>s. Ok (ret_int tot, s))))"

text \<open>Copies from and to a local variable of the caller: a block of bytes, addressed from 0.\<close>

definition to_local :: "uint64 \<Rightarrow> byte list \<Rightarrow> byte list \<Rightarrow> 's \<Rightarrow> (int \<times> byte list \<times> 's) outcome" where
  "to_local dst bs buf s = Ok (0, put_bs (unat dst) bs buf, s)"

definition from_local :: "byte list \<Rightarrow> uint64 \<Rightarrow> nat \<Rightarrow> 's \<Rightarrow> (int \<times> byte list \<times> 's) outcome" where
  "from_local buf src m s = Ok (0, take m (drop (unat src) buf), s)"

text \<open>\<open>user_dst == 0\<close> with \<open>dst\<close> a physical address: \<open>memmove\<close>.\<close>

definition to_kernel :: "uint64 \<Rightarrow> byte list \<Rightarrow> unit \<Rightarrow> 'a kmem_scheme \<Rightarrow> (int \<times> unit \<times> 'a kmem_scheme) outcome" where
  "to_kernel dst bs acc s = Ok (0, (), s\<lparr>mem := store_bytes (mem s) dst bs\<rparr>)"

section \<open>Directories\<close>

text \<open>\<open>strncmp\<close> on two byte buffers.\<close>

fun buf_strncmp :: "nat \<Rightarrow> byte list \<Rightarrow> byte list \<Rightarrow> int" where
  "buf_strncmp 0 p q = 0"
| "buf_strncmp (Suc n) p q =
     (let a = (case p of [] \<Rightarrow> 0 | x # _ \<Rightarrow> x); b = (case q of [] \<Rightarrow> 0 | x # _ \<Rightarrow> x) in
      if a \<noteq> 0 \<and> a = b then buf_strncmp n (tl p) (tl q) else uint a - uint b)"

definition namecmp :: "byte list \<Rightarrow> byte list \<Rightarrow> int" where
  "namecmp s t = buf_strncmp DIRSIZ s t"

text \<open>\<open>strncpy\<close> into a buffer of \<open>n\<close> bytes.\<close>

definition buf_strncpy :: "nat \<Rightarrow> byte list \<Rightarrow> byte list" where
  "buf_strncpy n t = (let w = takeWhile (\<lambda>c. c \<noteq> 0) (take n t) in w @ replicate (n - length w) 0)"

definition de_inum :: "byte list \<Rightarrow> 16 word" where
  "de_inum de = get_le 2 0 de"

definition de_name :: "byte list \<Rightarrow> byte list" where
  "de_name de = take DIRSIZ (drop 2 de)"

function dirlookup_loop ::
  "nat \<Rightarrow> nat \<Rightarrow> byte list \<Rightarrow> nat \<Rightarrow> nat \<Rightarrow> 'a kfs_scheme \<Rightarrow> ((nat \<times> nat) option \<times> 'a kfs_scheme) outcome" where
  "dirlookup_loop me dp name sz off s =
     (if off < sz then
        bindO (readi to_local me dp 0 (of_nat off) 16 (replicate 16 0) s) (\<lambda>(r, de, s).
        if r \<noteq> 16 then Panic ''dirlookup read''
        else if de_inum de = 0 then dirlookup_loop me dp name sz (off + 16) s
        else if namecmp name (de_name de) = 0 then
          bindO (iget (i_dev (inodes s ! dp)) (ucast (de_inum de)) s) (\<lambda>(ip, s). Ok (Some (ip, off), s))
        else dirlookup_loop me dp name sz (off + 16) s)
      else Ok (None, s))"
  by pat_completeness auto
termination
  by (relation "measure (\<lambda>(me, dp, name, sz, off, s). sz - off)") auto

declare dirlookup_loop.simps [simp del]

text \<open>The result carries the offset that the code stores through \<open>poff\<close>.\<close>

definition dirlookup :: "nat \<Rightarrow> nat \<Rightarrow> byte list \<Rightarrow> 'a kfs_scheme \<Rightarrow> ((nat \<times> nat) option \<times> 'a kfs_scheme) outcome" where
  "dirlookup me dp name s =
     (if i_type (inodes s ! dp) \<noteq> T_DIR then Panic ''dirlookup not DIR''
      else dirlookup_loop me dp name (unat (i_size (inodes s ! dp))) 0 s)"

function dirlink_scan :: "nat \<Rightarrow> nat \<Rightarrow> nat \<Rightarrow> nat \<Rightarrow> 'a kfs_scheme \<Rightarrow> (nat \<times> 'a kfs_scheme) outcome" where
  "dirlink_scan me dp sz off s =
     (if off < sz then
        bindO (readi to_local me dp 0 (of_nat off) 16 (replicate 16 0) s) (\<lambda>(r, de, s).
        if r \<noteq> 16 then Panic ''dirlink read''
        else if de_inum de = 0 then Ok (off, s)
        else dirlink_scan me dp sz (off + 16) s)
      else Ok (off, s))"
  by pat_completeness auto
termination
  by (relation "measure (\<lambda>(me, dp, sz, off, s). sz - off)") auto

declare dirlink_scan.simps [simp del]

definition dirlink :: "nat \<Rightarrow> nat \<Rightarrow> byte list \<Rightarrow> uint32 \<Rightarrow> 'a kfs_scheme \<Rightarrow> (int \<times> 'a kfs_scheme) outcome" where
  "dirlink me dp name inum s =
     bindO (dirlookup me dp name s) (\<lambda>(r, s).
       case r of Some (ip, _) \<Rightarrow> bindO (iput me ip s) (\<lambda>s. Ok (-1, s))
       | None \<Rightarrow>
           bindO (dirlink_scan me dp (unat (i_size (inodes s ! dp))) 0 s) (\<lambda>(off, s).
           let de = le_bytes 2 (ucast inum :: 16 word) @ buf_strncpy DIRSIZ name in
           bindO (writei (from_local de) me dp 0 (of_nat off) 16 s) (\<lambda>(r, s).
           Ok (if r \<noteq> 16 then -1 else 0, s))))"

section \<open>Path names\<close>

text \<open>
  A path is the list of its bytes before the terminating null. \<open>skipelem\<close> returns the rest of
  the path and the buffer \<open>name\<close>, whose bytes after a null keep their old values.
\<close>

abbreviation slash :: byte where "slash \<equiv> 47"

definition skipelem :: "byte list \<Rightarrow> byte list \<Rightarrow> (byte list \<times> byte list) option" where
  "skipelem path name =
     (let path = dropWhile (\<lambda>c. c = slash) path in
      if path = [] then None
      else let s = takeWhile (\<lambda>c. c \<noteq> slash) path; len = length s;
               name = (if len \<ge> DIRSIZ then put_bs 0 (take DIRSIZ s) name else put_bs 0 (s @ [0]) name)
           in Some (dropWhile (\<lambda>c. c = slash) (dropWhile (\<lambda>c. c \<noteq> slash) path), name))"

lemma length_dropWhile_less: "\<not> P x \<Longrightarrow> length (dropWhile P (dropWhile (\<lambda>c. \<not> P c) (x # xs))) \<le> length xs"
  using length_dropWhile_le [of P "dropWhile (\<lambda>c. \<not> P c) xs"] length_dropWhile_le [of "\<lambda>c. \<not> P c" xs] by simp

lemma skipelem_shorter: "skipelem path name = Some (path', name') \<Longrightarrow> length path' < length path"
proof -
  assume "skipelem path name = Some (path', name')"
  then obtain x xs where d: "dropWhile (\<lambda>c. c = slash) path = x # xs"
    and p: "path' = dropWhile (\<lambda>c. c = slash) (dropWhile (\<lambda>c. c \<noteq> slash) (x # xs))"
    by (cases "dropWhile (\<lambda>c. c = slash) path") (auto simp: skipelem_def Let_def split: if_splits)
  have "\<not> x = slash" using hd_dropWhile [of "\<lambda>c. c = slash" path] d by simp
  then have "length path' \<le> length xs" unfolding p by (rule length_dropWhile_less)
  also have "\<dots> < length path" using length_dropWhile_le [of "\<lambda>c. c = slash" path] d by simp
  finally show ?thesis .
qed

text \<open>The loop of \<open>namex\<close>, and the inode (if any) with the final contents of \<open>name\<close>.\<close>

function namex_loop ::
  "nat \<Rightarrow> bool \<Rightarrow> nat \<Rightarrow> byte list \<Rightarrow> byte list \<Rightarrow> 'a kfs_scheme \<Rightarrow> (nat option \<times> byte list \<times> 'a kfs_scheme) outcome" where
  "namex_loop me nameiparent ip path name s =
     (case skipelem path name of
        None \<Rightarrow>
          if nameiparent then bindO (iput me ip s) (\<lambda>s. Ok (None, name, s)) else Ok (Some ip, name, s)
      | Some (path, name) \<Rightarrow>
          bindO (ilock me (Some ip) s) (\<lambda>s.
          if i_type (inodes s ! ip) \<noteq> T_DIR then bindO (iunlockput me ip s) (\<lambda>s. Ok (None, name, s))
          else if nameiparent \<and> path = [] then bindO (iunlock me (Some ip) s) (\<lambda>s. Ok (Some ip, name, s))
          else bindO (dirlookup me ip name s) (\<lambda>(r, s).
            case r of None \<Rightarrow> bindO (iunlockput me ip s) (\<lambda>s. Ok (None, name, s))
            | Some (next, _) \<Rightarrow> bindO (iunlockput me ip s) (namex_loop me nameiparent next path name))))"
  by pat_completeness auto
termination
  by (relation "measure (\<lambda>(me, np, ip, path, name, s). length path)") (auto dest: skipelem_shorter)

declare namex_loop.simps [simp del]

definition namex ::
  "nat \<Rightarrow> byte list \<Rightarrow> bool \<Rightarrow> byte list \<Rightarrow> 'a kfs_scheme \<Rightarrow> (nat option \<times> byte list \<times> 'a kfs_scheme) outcome" where
  "namex me path nameiparent name s =
     bindO (if path \<noteq> [] \<and> hd path = slash then iget ROOTDEV ROOTINO s
            else case p_cwd (procs s ! me) of None \<Rightarrow> Undef | Some ip \<Rightarrow> Ok (ip, idup ip s)) (\<lambda>(ip, s).
     namex_loop me nameiparent ip path name s)"

definition namei :: "nat \<Rightarrow> byte list \<Rightarrow> 'a kfs_scheme \<Rightarrow> (nat option \<times> 'a kfs_scheme) outcome" where
  "namei me path s = bindO (namex me path False (replicate DIRSIZ 0) s) (\<lambda>(ip, name, s). Ok (ip, s))"

definition nameiparent ::
  "nat \<Rightarrow> byte list \<Rightarrow> byte list \<Rightarrow> 'a kfs_scheme \<Rightarrow> (nat option \<times> byte list \<times> 'a kfs_scheme) outcome" where
  "nameiparent me path name s = namex me path True name s"

end
