(* ===== verification/LogProof.thy ===== *)
theory LogProof
  imports Log
begin

text \<open>
  The log's promise: whatever prefix of the disk writes of a \<open>commit\<close> survives a crash,
  recovery leaves either all of the transaction's blocks or none of them on the disk. First the
  functions of \<open>kernel/log.c\<close> are shown to make exactly the writes of a list, then the lists
  are analysed.
\<close>

section \<open>Lists of writes\<close>

type_synonym writes = "(uint32 \<times> byte list) list"

definition apply_writes :: "writes \<Rightarrow> (uint32 \<Rightarrow> byte list) \<Rightarrow> uint32 \<Rightarrow> byte list" where
  "apply_writes ws d = fold (\<lambda>(b, v) d. d(b := v)) ws d"

lemma apply_writes_simps [simp]:
  "apply_writes [] d = d" "apply_writes ((b, v) # ws) d = apply_writes ws (d(b := v))"
  "apply_writes (ws @ vs) d = apply_writes vs (apply_writes ws d)"
  by (simp_all add: apply_writes_def)

lemma apply_writes_other: "b \<notin> fst ` set ws \<Longrightarrow> apply_writes ws d b = d b"
  by (induction ws arbitrary: d) auto

lemma apply_writes_same: "distinct (map fst ws) \<Longrightarrow> (b, v) \<in> set ws \<Longrightarrow> apply_writes ws d b = v"
  by (induction ws arbitrary: d) (auto simp: apply_writes_other image_iff)

text \<open>No process holds a buffer lock, and the calling process exists.\<close>

definition quiet :: "nat \<Rightarrow> 'a kdisk_scheme \<Rightarrow> bool" where
  "quiet me s \<longleftrightarrow> bcache_inv s \<and> (\<forall>b. \<not> locked s b) \<and> me < length (procs s)"

definition wrote :: "nat \<Rightarrow> writes \<Rightarrow> 'a kdisk_scheme \<Rightarrow> 'a kdisk_scheme \<Rightarrow> bool" where
  "wrote me ws s t \<longleftrightarrow> quiet me t \<and> same_rest me s t \<and> disk t = apply_writes ws (disk s) \<and>
     bview t = apply_writes ws (bview s) \<and> dtrace t = dtrace s @ ws"

lemma wrote_Nil: "quiet me s \<Longrightarrow> wrote me [] s s"
  by (simp add: wrote_def)

lemma wrote_trans: "wrote me ws s t \<Longrightarrow> wrote me vs t u \<Longrightarrow> wrote me (ws @ vs) s u"
  by (auto simp: wrote_def intro: same_rest_trans)

lemma unpinned_clean:
  assumes inv: "bcache_inv s" and p: "pins s b = 0"
  shows "bview s b = disk s b"
proof (cases "\<exists>i. cached s b i")
  case True
  then obtain i where i: "cached s b i" by blast
  then have "b_refcnt (bufs s ! i) = 0" "i < NBUF"
    using pins_at [OF inv, of b i] p by (auto simp: cached_buf_at buf_at_def)
  then show ?thesis
    using bcache_invD(2) [OF inv, of i] bview_cached [OF inv i] i by (auto simp: buf_ok_def cached_def)
next
  case False
  then show ?thesis using bview_uncached by blast
qed

lemma card_in_use_upd: "card (in_use t) \<le> Suc (card (in_use s))" if "pins t = (pins s)(b := v)"
proof -
  have "in_use t \<subseteq> insert b (in_use s)" using that by (auto simp: in_use_def)
  then have "card (in_use t) \<le> card (insert b (in_use s))" by (rule card_mono [OF finite])
  also have "\<dots> \<le> Suc (card (in_use s))" by (simp add: card_insert_if)
  finally show ?thesis .
qed

section \<open>Moving one block\<close>

text \<open>The two reads at the start of a loop iteration.\<close>

lemma read_two:
  assumes q: "quiet me s" and room: "card (in_use s) + 2 \<le> NBUF" and ne: "a \<noteq> b"
  obtains i t j u where "bread me 1 a s = Ok (i, t)" "bread me 1 b t = Ok (j, u)" "holds me u a i" "holds me u b j"
    "bview u = bview s" "pins u = (pins s)(a := pins s a + 1, b := pins s b + 1)"
    "locked u = (\<lambda>x. x = a \<or> x = b)" "disk u = disk s" "dtrace u = dtrace s" "same_rest me s u"
    "same_rest me s t"
proof -
  have inv: "bcache_inv s" and nl: "\<And>x. \<not> locked s x" and me: "me < length (procs s)"
    using q by (auto simp: quiet_def)
  have r: "a \<in> in_use s \<or> card (in_use s) < NBUF" using room by simp
  obtain i t where A: "bread me 1 a s = Ok (i, t)" "holds me t a i"
    "bview t = bview s" "pins t = (pins s)(a := pins s a + 1)" "locked t = (locked s)(a := True)"
    "disk t = disk s" "dtrace t = dtrace s" "same_rest me s t"
    using bread_full [OF inv nl r me] by metis
  have "b \<in> in_use t \<or> card (in_use t) < NBUF" "\<not> locked t b" "me < length (procs t)"
    using card_in_use_upd [OF A(4)] room A(5,8) nl ne me by (auto simp: same_rest_def)
  then obtain j u where B: "bread me 1 b t = Ok (j, u)" "holds me u b j"
    "bview u = bview t" "pins u = (pins t)(b := pins t b + 1)" "locked u = (locked t)(b := True)"
    "disk u = disk t" "dtrace u = dtrace t" "same_rest me t u" "holds me u a i"
    using bread_full [OF holdsD(1) [OF A(2)]] A(2) by metis
  show thesis
    using A B ne nl by (intro that [OF A(1) B(1)]) (auto intro: same_rest_trans simp: fun_eq_iff)
qed

text \<open>
  The rest of an iteration: copy buffer \<open>i\<close> of block \<open>a\<close> into buffer \<open>j\<close> of block \<open>b\<close>, write it
  and, in \<open>install_trans\<close> after a commit, drop the log's reference to the destination.
\<close>

lemma copy_and_write:
  assumes a: "holds me u a i" and b: "holds me u b j" and ne: "a \<noteq> b"
    and unpin: "unpin \<Longrightarrow> 1 < pins u b"
  obtains v where "bwrite me j (copy_buf j i u) = Ok v"
    "holds me (if unpin then bunpin j v else v) a i" "holds me (if unpin then bunpin j v else v) b j"
    "bview (if unpin then bunpin j v else v) = (bview u)(b := bview u a)"
    "pins (if unpin then bunpin j v else v) = (pins u)(b := pins u b - (if unpin then 1 else 0))"
    "locked (if unpin then bunpin j v else v) = locked u"
    "disk (if unpin then bunpin j v else v) = (disk u)(b := bview u a)"
    "dtrace (if unpin then bunpin j v else v) = dtrace u @ [(b, bview u a)]"
    "same_rest me u (if unpin then bunpin j v else v)"
proof -
  have d: "b_data (bufs u ! i) = bview u a" "length (bview u a) = BSIZE"
    using holdsD(5) [OF a] length_bview [OF holdsD(1) [OF a], of a] by simp_all
  have c: "copy_buf j i u = set_data j (bview u a) u"
    using d by (simp add: copy_buf_def)
  note S = set_data_spec [OF b d(2)]
  obtain v where V: "bwrite me j (copy_buf j i u) = Ok v" "holds me v b j" "bview v = (bview u)(b := bview u a)"
    "pins v = pins u" "locked v = locked u" "disk v = (disk u)(b := bview u a)"
    "dtrace v = dtrace u @ [(b, bview u a)]" "same_rest me u v" "holds me v a i"
  proof (rule bwrite_spec [OF S(1)])
    fix v assume w: "bwrite me j (set_data j (bview u a) u) = Ok v" "holds me v b j"
      "bview v = bview (set_data j (bview u a) u)" "pins v = pins (set_data j (bview u a) u)"
      "locked v = locked (set_data j (bview u a) u)"
      "disk v = (disk (set_data j (bview u a) u))(b := bview (set_data j (bview u a) u) b)"
      "dtrace v = dtrace (set_data j (bview u a) u) @ [(b, bview (set_data j (bview u a) u) b)]"
      "same_rest me (set_data j (bview u a) u) v"
      "\<And>c k. holds me (set_data j (bview u a) u) c k \<Longrightarrow> holds me v c k"
    show ?thesis
      using w S(2-6) S(8) [OF a] same_rest_trans [OF S(7) w(8)] by (intro that [of v]) (simp_all add: c)
  qed
  have p: "1 < pins v b" if unpin using unpin [OF that] V(4) by simp
  show thesis
  proof (rule that [OF V(1)])
  qed (use V bunpin_spec [OF V(2) p] same_rest_trans [OF V(8)] in \<open>auto simp: fun_upd_idem_iff\<close>)
qed

lemma release_two:
  assumes a: "holds me v a i" and b: "holds me v b j" and ne: "a \<noteq> b"
    and clean: "pins v a = 1 \<Longrightarrow> bview v a = disk v a" "pins v b = 1 \<Longrightarrow> bview v b = disk v b"
  obtains w t where "brelse me i v = Ok w" "brelse me j w = Ok t" "bcache_inv t" "bview t = bview v"
    "pins t = (pins v)(a := pins v a - 1, b := pins v b - 1)" "locked t = (locked v)(a := False, b := False)"
    "disk t = disk v" "dtrace t = dtrace v" "same_rest me v t"
proof (rule brelse_spec [OF a clean(1)])
  fix w assume w: "brelse me i v = Ok w" "bcache_inv w" "bview w = bview v" "pins w = (pins v)(a := pins v a - 1)"
    "locked w = (locked v)(a := False)" "disk w = disk v" "dtrace w = dtrace v" "same_rest me v w"
    "\<And>c k. holds me v c k \<Longrightarrow> c \<noteq> a \<Longrightarrow> holds me w c k"
  have hb: "holds me w b j" using w(9) [OF b] ne by simp
  have cb: "pins w b = 1 \<Longrightarrow> bview w b = disk w b" using clean(2) w ne by simp
  show thesis
  proof (rule brelse_spec [OF hb cb])
    fix t assume t: "brelse me j w = Ok t" "bcache_inv t" "bview t = bview w" "pins t = (pins w)(b := pins w b - 1)"
      "locked t = (locked w)(b := False)" "disk t = disk w" "dtrace t = dtrace w" "same_rest me w t"
    show thesis
      using w t ne same_rest_trans [OF w(8) t(8)] by (intro that [OF w(1) t(1)]) simp_all
  qed
qed

text \<open>One iteration of \<open>write_log\<close>: block \<open>a\<close> goes to log slot \<open>b\<close>.\<close>

lemma quiet_room: "quiet me s \<Longrightarrow> pins s b \<ge> 0"
proof (cases "\<exists>i. buf_at s b i")
  case True
  assume "quiet me s"
  with True show ?thesis
    using pins_at [of s b] bcache_invD(2) [of s] by (auto simp: quiet_def buf_at_def buf_ok_def)
next
  case False
  then show ?thesis using pins_none [of s b] by simp
qed

lemma finish_move:
  fixes s u :: "'a kdisk_scheme"
  assumes q: "quiet me s" and ne: "a \<noteq> b" and un: "unpin \<Longrightarrow> 1 \<le> pins s b"
    and r: "holds me u a i" "holds me u b j" "bview u = bview s"
      "\<And>x. pins u x = pins s x + (if x = a \<or> x = b then 1 else 0)" "\<And>x. locked u x \<longleftrightarrow> x = a \<or> x = b"
      "disk u = disk s" "dtrace u = dtrace s" "same_rest me s u"
  obtains v w t where "bwrite me j (copy_buf j i u) = Ok v"
    "brelse me i (if unpin then bunpin j v else v) = Ok w" "brelse me j w = Ok t"
    "wrote me [(b, bview s a)] s t" "pins t = (pins s)(b := pins s b - (if unpin then 1 else 0))"
proof -
  have un2: "unpin \<Longrightarrow> 1 < pins u b" using un r(4) [of b] by simp
  show thesis
  proof (rule copy_and_write [OF r(1,2) ne un2], assumption)
    fix v :: "'a kdisk_scheme"
    let ?v = "if unpin then bunpin j v else v"
    assume w: "bwrite me j (copy_buf j i u) = Ok v" "holds me ?v a i" "holds me ?v b j"
      "bview ?v = (bview u)(b := bview u a)" "pins ?v = (pins u)(b := pins u b - (if unpin then 1 else 0))"
      "locked ?v = locked u" "disk ?v = (disk u)(b := bview u a)" "dtrace ?v = dtrace u @ [(b, bview u a)]"
      "same_rest me u ?v"
    have ca: "bview ?v a = disk ?v a" if "pins ?v a = 1"
      using unpinned_clean [of s a] that q r(3,6) r(4) [of a] w(4,5,7) ne by (auto simp: quiet_def)
    have cb: "bview ?v b = disk ?v b" using w(4,7) by simp
    show thesis
    proof (rule release_two [OF w(2,3) ne ca cb])
      fix x t assume t: "brelse me i ?v = Ok x" "brelse me j x = Ok t" "bcache_inv t" "bview t = bview ?v"
        "pins t = (pins ?v)(a := pins ?v a - 1, b := pins ?v b - 1)" "locked t = (locked ?v)(a := False, b := False)"
        "disk t = disk ?v" "dtrace t = dtrace ?v" "same_rest me ?v t"
      have sr: "same_rest me s t" using same_rest_trans [OF r(8) same_rest_trans [OF w(9) t(9)]] .
      have "wrote me [(b, bview s a)] s t"
        using t(3,4,6,7,8) w(4,6,7,8) r(3,5,6,7) sr q ne by (auto simp: wrote_def quiet_def same_rest_def)
      moreover have "pins t = (pins s)(b := pins s b - (if unpin then 1 else 0))"
        using t(5) w(5) r(4) ne by (auto simp: fun_eq_iff)
      ultimately show thesis using t(1,2) by (intro that [OF w(1)]) simp_all
    qed simp_all
  qed
qed

section \<open>The loops\<close>

text \<open>Where the log lies, and that the logged blocks are elsewhere.\<close>

definition log_geom :: "'a klog_scheme \<Rightarrow> bool" where
  "log_geom s \<longleftrightarrow> log_dev s = 1 \<and> 0 \<le> log_start s \<and> log_start s + int LOGBLOCKS < 2 ^ 31 \<and>
     length (lh_block (lh s)) = LOGBLOCKS"

definition log_head :: "'a klog_scheme \<Rightarrow> uint32" where
  "log_head s = of_int (log_start s)"

definition log_area :: "'a klog_scheme \<Rightarrow> uint32 set" where
  "log_area s = insert (log_head s) (log_slot s ` {..<LOGBLOCKS})"

lemma log_slot_area [simp]: "j < LOGBLOCKS \<Longrightarrow> log_slot s j \<in> log_area s"
  by (simp add: log_area_def)

lemma log_head_area [simp]: "log_head s \<in> log_area s"
  by (simp add: log_area_def)

lemma same_rest_klog:
  assumes "same_rest me s t"
  shows "log_start t = log_start s" "log_dev t = log_dev s" "lh t = lh s"
    "log_outstanding t = log_outstanding s" "log_committing t = log_committing s" "klog.more t = klog.more s"
  using assms unfolding same_rest_def by (cases s, cases t, simp)+

lemma log_slot_cong: "same_rest me s t \<Longrightarrow> log_slot t = log_slot s"
  by (simp add: log_slot_def fun_eq_iff same_rest_klog)

lemma log_area_cong: "same_rest me s t \<Longrightarrow> log_area t = log_area s"
  by (simp add: log_area_def log_head_def same_rest_klog log_slot_cong)

lemma log_geom_cong: "same_rest me s t \<Longrightarrow> log_geom t = log_geom s"
  by (simp add: log_geom_def same_rest_klog)

lemma of_int_inj_32:
  "0 \<le> a \<Longrightarrow> a < 2 ^ 31 \<Longrightarrow> 0 \<le> b \<Longrightarrow> b < 2 ^ 31 \<Longrightarrow> (of_int a :: uint32) = of_int b \<longleftrightarrow> a = b"
  by (auto simp: word_of_int_eq_iff take_bit_int_eq_self)

lemma log_slot_inj:
  assumes "log_geom s" "i < LOGBLOCKS" "j < LOGBLOCKS"
  shows "log_slot s i = log_slot s j \<longleftrightarrow> i = j" "log_slot s i \<noteq> log_head s"
  using assms of_int_inj_32 [of "log_start s + int i + 1" "log_start s + int j + 1"]
    of_int_inj_32 [of "log_start s + int i + 1" "log_start s"]
  unfolding log_slot_def log_head_def log_geom_def by (auto simp del: of_int_add)

definition log_copies :: "'a klog_scheme \<Rightarrow> (uint32 \<Rightarrow> byte list) \<Rightarrow> nat \<Rightarrow> nat \<Rightarrow> writes" where
  "log_copies s v tail k = map (\<lambda>j. (log_slot s j, v (lh_block (lh s) ! j))) [tail..<tail + k]"

definition home_copies :: "'a klog_scheme \<Rightarrow> (uint32 \<Rightarrow> byte list) \<Rightarrow> nat \<Rightarrow> nat \<Rightarrow> writes" where
  "home_copies s v tail k = map (\<lambda>j. (lh_block (lh s) ! j, v (log_slot s j))) [tail..<tail + k]"

lemma write_log_loop_spec:
  assumes "quiet me s" "log_geom s" "tail + k \<le> LOGBLOCKS" "card (in_use s) + 2 \<le> NBUF"
    and "\<And>j. j < tail + k \<Longrightarrow> lh_block (lh s) ! j \<notin> log_area s"
  shows "\<exists>t. write_log_loop me k tail s = Ok t \<and> wrote me (log_copies s (bview s) tail k) s t \<and> pins t = pins s"
  using assms
proof (induction k arbitrary: tail s)
  case 0
  then show ?case by (simp add: wrote_Nil log_copies_def)
next
  case (Suc k)
  let ?b = "log_slot s tail" and ?a = "lh_block (lh s) ! tail"
  have ne: "?b \<noteq> ?a" using Suc.prems(5) [of tail] Suc.prems(3) log_slot_area [of tail s] by force
  have dev: "log_dev s = 1" and len: "tail < length (lh_block (lh s))" using Suc.prems(2,3) by (auto simp: log_geom_def)
  show ?case
  proof (rule read_two [OF Suc.prems(1,4) ne])
    fix j t1 i u
    assume r: "bread me 1 ?b s = Ok (j, t1)" "bread me 1 ?a t1 = Ok (i, u)" "holds me u ?b j" "holds me u ?a i"
      "bview u = bview s" "pins u = (pins s)(?b := pins s ?b + 1, ?a := pins s ?a + 1)"
      "locked u = (\<lambda>x. x = ?b \<or> x = ?a)" "disk u = disk s" "dtrace u = dtrace s" "same_rest me s u" "same_rest me s t1"
    have pu: "pins u x = pins s x + (if x = ?a \<or> x = ?b then 1 else 0)" for x using r(6) ne by simp
    have lu: "locked u x \<longleftrightarrow> x = ?a \<or> x = ?b" for x using r(7) by auto
    show ?thesis
    proof (rule finish_move [OF Suc.prems(1) ne [symmetric] _ r(4,3,5) pu lu r(8,9,10), of False])
      fix v w t assume m: "bwrite me j (copy_buf j i u) = Ok v" "brelse me i (if False then bunpin j v else v) = Ok w"
        "brelse me j w = Ok t" "wrote me [(?b, bview s ?a)] s t" "pins t = (pins s)(?b := pins s ?b - (if False then 1 else 0))"
      have sr: "same_rest me s t" using m(4) by (simp add: wrote_def)
      have bv: "bview t (lh_block (lh s) ! x) = bview s (lh_block (lh s) ! x)" if "x < Suc (tail + k)" for x
        using m(4) Suc.prems(3) that Suc.prems(5) [of x] log_slot_area [of tail s] by (auto simp: wrote_def)
      have "\<exists>t'. write_log_loop me k (Suc tail) t = Ok t' \<and> wrote me (log_copies t (bview t) (Suc tail) k) t t' \<and> pins t' = pins t"
        using Suc.prems m(4,5) log_geom_cong [OF sr] log_area_cong [OF sr] same_rest_klog(3) [OF sr]
        by (intro Suc.IH) (auto simp: wrote_def in_use_def)
      then obtain t' where t': "write_log_loop me k (Suc tail) t = Ok t'"
        "wrote me (log_copies t (bview t) (Suc tail) k) t t'" "pins t' = pins t" by blast
      have "log_copies s (bview s) tail (Suc k) = [(?b, bview s ?a)] @ log_copies t (bview t) (Suc tail) k"
        using bv by (simp add: log_copies_def log_slot_cong [OF sr] same_rest_klog(3) [OF sr] upt_conv_Cons del: upt_Suc)
      with wrote_trans [OF m(4) t'(2)] have "wrote me (log_copies s (bview s) tail (Suc k)) s t'" by simp
      moreover have "write_log_loop me (Suc k) tail s = Ok t'"
        using r(1,2) m(1-3) t'(1) dev len same_rest_klog(2,3) [OF r(11)] by simp
      ultimately show ?thesis using t'(3) m(5) by auto
    qed simp
  qed
qed

definition homes :: "'a klog_scheme \<Rightarrow> nat \<Rightarrow> nat \<Rightarrow> uint32 set" where
  "homes s tail k = (\<lambda>j. lh_block (lh s) ! j) ` {tail..<tail + k}"

lemma install_loop_spec:
  assumes "quiet me s" "log_geom s" "tail + k \<le> LOGBLOCKS" "card (in_use s) + 2 \<le> NBUF"
    and "\<And>j. j < tail + k \<Longrightarrow> lh_block (lh s) ! j \<notin> log_area s"
    and "\<not> recovering \<Longrightarrow> distinct (take (tail + k) (lh_block (lh s))) \<and> (\<forall>b\<in>homes s tail k. 1 \<le> pins s b)"
  shows "\<exists>t. install_loop me recovering k tail s = Ok t \<and> wrote me (home_copies s (bview s) tail k) s t \<and>
     (\<forall>x. pins t x = pins s x - (if \<not> recovering \<and> x \<in> homes s tail k then 1 else 0))"
  using assms
proof (induction k arbitrary: tail s)
  case 0
  then show ?case by (simp add: wrote_Nil home_copies_def homes_def)
next
  case (Suc k)
  let ?a = "log_slot s tail" and ?b = "lh_block (lh s) ! tail"
  have ne: "?a \<noteq> ?b" using Suc.prems(5) [of tail] Suc.prems(3) log_slot_area [of tail s] by force
  have dev: "log_dev s = 1" and len: "tail < length (lh_block (lh s))" "Suc (tail + k) \<le> length (lh_block (lh s))"
    using Suc.prems(2,3) by (auto simp: log_geom_def)
  have un: "\<not> recovering \<Longrightarrow> 1 \<le> pins s ?b" using Suc.prems(6) by (auto simp: homes_def)
  have hs: "homes s tail (Suc k) = insert ?b (homes s (Suc tail) k)"
  proof -
    have "{tail..<tail + Suc k} = insert tail {Suc tail..<Suc tail + k}" by auto
    then show ?thesis by (simp add: homes_def)
  qed
  have nb: "?b \<notin> homes s (Suc tail) k" if "\<not> recovering"
    using Suc.prems(6) [OF that] len by (auto simp: homes_def distinct_conv_nth nth_take)
  show ?case
  proof (rule read_two [OF Suc.prems(1,4) ne])
    fix i t1 j u
    assume r: "bread me 1 ?a s = Ok (i, t1)" "bread me 1 ?b t1 = Ok (j, u)" "holds me u ?a i" "holds me u ?b j"
      "bview u = bview s" "pins u = (pins s)(?a := pins s ?a + 1, ?b := pins s ?b + 1)"
      "locked u = (\<lambda>x. x = ?a \<or> x = ?b)" "disk u = disk s" "dtrace u = dtrace s" "same_rest me s u" "same_rest me s t1"
    have pu: "pins u x = pins s x + (if x = ?a \<or> x = ?b then 1 else 0)" for x using r(6) ne by simp
    have lu: "locked u x \<longleftrightarrow> x = ?a \<or> x = ?b" for x using r(7) by auto
    show ?thesis
    proof (rule finish_move [OF Suc.prems(1) ne un r(3,4,5) pu lu r(8,9,10), of "\<not> recovering"])
      fix v w t assume m: "bwrite me j (copy_buf j i u) = Ok v"
        "brelse me i (if \<not> recovering then bunpin j v else v) = Ok w" "brelse me j w = Ok t"
        "wrote me [(?b, bview s ?a)] s t" "pins t = (pins s)(?b := pins s ?b - (if \<not> recovering then 1 else 0))"
      have sr: "same_rest me s t" using m(4) by (simp add: wrote_def)
      have bv: "bview t (log_slot s x) = bview s (log_slot s x)" if "x < LOGBLOCKS" for x
        using m(4) Suc.prems(5) [of tail] log_slot_area [OF that, of s] by (auto simp: wrote_def)
      have room: "card (in_use t) + 2 \<le> NBUF"
      proof -
        have "in_use t \<subseteq> in_use s" using m(5) un by (auto simp: in_use_def split: if_splits)
        then have "card (in_use t) \<le> card (in_use s)" by (rule card_mono [OF finite])
        with Suc.prems(4) show ?thesis by simp
      qed
      have ht: "homes t (Suc tail) k = homes s (Suc tail) k" by (simp add: homes_def same_rest_klog(3) [OF sr])
      have "\<exists>t'. install_loop me recovering k (Suc tail) t = Ok t' \<and> wrote me (home_copies t (bview t) (Suc tail) k) t t' \<and>
          (\<forall>x. pins t' x = pins t x - (if \<not> recovering \<and> x \<in> homes t (Suc tail) k then 1 else 0))"
        using Suc.prems(2,3,5,6) m(4,5) log_geom_cong [OF sr] log_area_cong [OF sr] same_rest_klog(3) [OF sr] room nb
        by (intro Suc.IH) (auto simp: wrote_def ht hs)
      then obtain t' where t': "install_loop me recovering k (Suc tail) t = Ok t'"
        "wrote me (home_copies t (bview t) (Suc tail) k) t t'"
        "\<forall>x. pins t' x = pins t x - (if \<not> recovering \<and> x \<in> homes t (Suc tail) k then 1 else 0)" by blast
      have "home_copies s (bview s) tail (Suc k) = [(?b, bview s ?a)] @ home_copies t (bview t) (Suc tail) k"
        using bv Suc.prems(3)
        by (simp add: home_copies_def log_slot_cong [OF sr] same_rest_klog(3) [OF sr] upt_conv_Cons del: upt_Suc)
      with wrote_trans [OF m(4) t'(2)] have "wrote me (home_copies s (bview s) tail (Suc k)) s t'" by simp
      moreover have "install_loop me recovering (Suc k) tail s = Ok t'"
        using r(1,2) m(1-3) t'(1) dev len(1) same_rest_klog(2,3) [OF r(11)] by (cases recovering) simp_all
      moreover have "pins t' x = pins s x - (if \<not> recovering \<and> x \<in> homes s tail (Suc k) then 1 else 0)" for x
        using t'(3) m(5) nb by (auto simp: ht hs)
      ultimately show ?thesis by blast
    qed
  qed
qed

section \<open>The header block\<close>

lemma BSIZE_LOG: "4 + 4 * LOGBLOCKS \<le> BSIZE"
  by (simp add: LOGBLOCKS_def MAXOPBLOCKS_def BSIZE_def)

lemma length_put_blocks [simp]: "4 + 4 * n \<le> length bs \<Longrightarrow> length (put_blocks blk n bs) = length bs"
  by (induction n) simp_all

lemma get_put_blocks_low:
  "4 + 4 * n \<le> length bs \<Longrightarrow> get_le 4 0 (put_blocks blk n bs) = get_le 4 0 bs"
  by (induction n) (simp_all add: get_put_le_other)

lemma head_block_put_blocks:
  "4 + 4 * n \<le> length bs \<Longrightarrow> i < n \<Longrightarrow> head_block (put_blocks blk n bs) i = blk ! i"
proof (induction n)
  case (Suc n)
  show ?case
  proof (cases "i = n")
    case True
    then show ?thesis using Suc.prems(1) by (simp add: head_block_def get_put_le_same)
  next
    case False
    with Suc show ?thesis by (simp add: head_block_def get_put_le_other)
  qed
qed simp

lemma put_head_spec:
  assumes "0 \<le> lh_n h" "lh_n h \<le> int LOGBLOCKS" "length bs = BSIZE"
  shows "length (put_head h bs) = BSIZE" "head_n (put_head h bs) = lh_n h"
    "i < nat (lh_n h) \<Longrightarrow> head_block (put_head h bs) i = lh_block h ! i"
proof -
  have l: "4 + 4 * nat (lh_n h) \<le> length bs" using assms BSIZE_LOG by linarith
  have l4: "0 + 4 \<le> length bs" using l by simp
  show "length (put_head h bs) = BSIZE" using assms(3) l l4 by (simp add: put_head_def)
  show "i < nat (lh_n h) \<Longrightarrow> head_block (put_head h bs) i = lh_block h ! i"
    using l l4 by (simp add: put_head_def head_block_put_blocks)
  have "sint (of_int (lh_n h) :: uint32) = lh_n h"
    using assms(1,2) by (simp add: signed_of_int signed_take_bit_int_eq_self LOGBLOCKS_def MAXOPBLOCKS_def)
  then show "head_n (put_head h bs) = lh_n h"
    using l l4 get_put_le_same [of 0 4 bs "of_int (lh_n h) :: uint32"]
    by (simp add: put_head_def head_n_def get_put_blocks_low)
qed

lemma length_get_blocks [simp]: "length (get_blocks bs n blk) = length blk"
  by (induction n) simp_all

lemma nth_get_blocks: "n \<le> length blk \<Longrightarrow> i < n \<Longrightarrow> get_blocks bs n blk ! i = head_block bs i"
  by (induction n) (auto simp: nth_list_update less_Suc_eq)

lemma lh_update_simps [simp]:
  "bcache_inv (s\<lparr>lh := x\<rparr>) = bcache_inv s" "holds me (s\<lparr>lh := x\<rparr>) b i = holds me s b i"
  "bview (s\<lparr>lh := x\<rparr>) = bview s" "pins (s\<lparr>lh := x\<rparr>) = pins s" "locked (s\<lparr>lh := x\<rparr>) = locked s"
  "quiet me (s\<lparr>lh := x\<rparr>) = quiet me s" "in_use (s\<lparr>lh := x\<rparr>) = in_use s"
proof -
  show b: "bview (s\<lparr>lh := x\<rparr>) = bview s" "pins (s\<lparr>lh := x\<rparr>) = pins s" "locked (s\<lparr>lh := x\<rparr>) = locked s"
    by (intro bmap_cong; simp)+
  show i: "bcache_inv (s\<lparr>lh := x\<rparr>) = bcache_inv s" by (simp add: bcache_inv_def)
  show "holds me (s\<lparr>lh := x\<rparr>) b i = holds me s b i"
    by (simp add: holds_def i) (simp add: cached_def mypid_def)
  show "quiet me (s\<lparr>lh := x\<rparr>) = quiet me s" by (simp add: quiet_def i b)
  show "in_use (s\<lparr>lh := x\<rparr>) = in_use s" by (simp add: in_use_def b)
qed

lemma write_head_spec:
  assumes q: "quiet me s" and g: "log_geom s" and n: "0 \<le> lh_n (lh s)" "lh_n (lh s) \<le> int LOGBLOCKS"
    and room: "card (in_use s) < NBUF"
  shows "\<exists>t. write_head me s = Ok t \<and> wrote me [(log_head s, put_head (lh s) (bview s (log_head s)))] s t \<and> pins t = pins s"
proof -
  have inv: "bcache_inv s" and nl: "\<And>b. \<not> locked s b" and me: "me < length (procs s)"
    using q by (auto simp: quiet_def)
  have dev: "log_dev s = 1" "length (lh_block (lh s)) = LOGBLOCKS" using g by (auto simp: log_geom_def)
  let ?h = "log_head s" and ?d = "put_head (lh s) (bview s (log_head s))"
  have len: "length ?d = BSIZE" using put_head_spec(1) [OF n] length_bview [OF inv] by blast
  show ?thesis
  proof (rule bread_full [OF inv nl _ me, of ?h])
    fix i t assume r: "bread me 1 ?h s = Ok (i, t)" "holds me t ?h i" "b_data (bufs t ! i) = bview s ?h"
      "bview t = bview s" "pins t = (pins s)(?h := pins s ?h + 1)" "locked t = (locked s)(?h := True)"
      "disk t = disk s" "dtrace t = dtrace s" "same_rest me s t"
    note S = set_data_spec [OF r(2) len]
    show ?thesis
    proof (rule bwrite_spec [OF S(1)])
      fix u assume u: "bwrite me i (set_data i ?d t) = Ok u" "holds me u ?h i" "bview u = bview (set_data i ?d t)"
        "pins u = pins (set_data i ?d t)" "locked u = locked (set_data i ?d t)"
        "disk u = (disk (set_data i ?d t))(?h := bview (set_data i ?d t) ?h)"
        "dtrace u = dtrace (set_data i ?d t) @ [(?h, bview (set_data i ?d t) ?h)]" "same_rest me (set_data i ?d t) u"
      have c: "bview u ?h = disk u ?h" using u(3,6) S(2) by simp
      show ?thesis
      proof (rule brelse_spec [OF u(2) c])
        fix v assume v: "brelse me i u = Ok v" "bcache_inv v" "bview v = bview u" "pins v = (pins u)(?h := pins u ?h - 1)"
          "locked v = (locked u)(?h := False)" "disk v = disk u" "dtrace v = dtrace u" "same_rest me u v"
        have "same_rest me s v" using same_rest_trans [OF r(9) same_rest_trans [OF S(7) same_rest_trans [OF u(8) v(8)]]] .
        then have "wrote me [(?h, ?d)] s v"
          using v(2-7) u(3-7) S(2-6) r(4-8) nl me by (auto simp: wrote_def quiet_def same_rest_def)
        moreover have "write_head me s = Ok v"
          using r(1,3) u(1) v(1) dev n(2) same_rest_klog(3) [OF r(9)] by (simp add: write_head_def log_head_def)
        moreover have "pins v = pins s" using v(4) u(4) S(3) r(5) by (auto simp: fun_eq_iff)
        ultimately show ?thesis by blast
      qed
    qed
  qed (use room in simp)
qed

section \<open>commit\<close>

text \<open>
  A transaction ready to commit: the entries of the header are different blocks outside the log,
  each pinned in the cache, and the cache has two buffers left for the copies.
\<close>

definition tx_ready :: "nat \<Rightarrow> 'a klog_scheme \<Rightarrow> bool" where
  "tx_ready me s \<longleftrightarrow> quiet me s \<and> log_geom s \<and> 0 \<le> lh_n (lh s) \<and> lh_n (lh s) \<le> int LOGBLOCKS \<and>
     card (in_use s) + 2 \<le> NBUF \<and> distinct (take (nat (lh_n (lh s))) (lh_block (lh s))) \<and>
     (\<forall>b\<in>homes s 0 (nat (lh_n (lh s))). b \<notin> log_area s \<and> 1 \<le> pins s b)"

definition tx_blocks :: "'a klog_scheme \<Rightarrow> writes" where
  "tx_blocks s = map (\<lambda>j. (lh_block (lh s) ! j, bview s (lh_block (lh s) ! j))) [0..<nat (lh_n (lh s))]"

definition commit_writes :: "'a klog_scheme \<Rightarrow> writes" where
  "commit_writes s = log_copies s (bview s) 0 (nat (lh_n (lh s))) @
     [(log_head s, put_head (lh s) (bview s (log_head s)))] @ tx_blocks s @
     [(log_head s, put_head ((lh s)\<lparr>lh_n := 0\<rparr>) (put_head (lh s) (bview s (log_head s))))]"

lemma same_rest_lh: "same_rest me s t \<Longrightarrow> log_head t = log_head s" "same_rest me s t \<Longrightarrow> homes t = homes s"
  by (simp_all add: log_head_def same_rest_klog homes_def fun_eq_iff)

lemma log_copies_fst: "fst ` set (log_copies s v 0 n) = log_slot s ` {..<n}"
  by (simp add: log_copies_def image_image atLeast0LessThan)

lemma log_copies_lookup:
  assumes "log_geom s" "j < n" "n \<le> LOGBLOCKS"
  shows "apply_writes (log_copies s v 0 n) d (log_slot s j) = v (lh_block (lh s) ! j)"
proof -
  have "inj_on (log_slot s) (set [0..<n])"
    using log_slot_inj(1) [OF assms(1)] assms(3) by (intro inj_onI) auto
  then have "distinct (map fst (log_copies s v 0 n))"
    by (simp add: log_copies_def comp_def distinct_map)
  then show ?thesis
    by (rule apply_writes_same) (use assms in \<open>auto simp: log_copies_def\<close>)
qed

lemma log_copies_other:
  assumes "b \<notin> log_area s" "n \<le> LOGBLOCKS"
  shows "apply_writes (log_copies s v 0 n) d b = d b"
  using assms by (intro apply_writes_other) (auto simp: log_copies_fst log_area_def)

lemma log_copies_head:
  assumes "log_geom s" "n \<le> LOGBLOCKS"
  shows "apply_writes (log_copies s v 0 n) d (log_head s) = d (log_head s)"
  using assms log_slot_inj(2) [OF assms(1)] by (intro apply_writes_other) (auto simp: log_copies_fst, metis less_le_trans)

definition commit_point :: "'a klog_scheme \<Rightarrow> writes" where
  "commit_point s = log_copies s (bview s) 0 (nat (lh_n (lh s))) @
     [(log_head s, put_head (lh s) (bview s (log_head s)))] @ tx_blocks s"

lemma commit_steps:
  assumes r: "tx_ready me s"
  shows "\<exists>t1 t2 t3. write_log me s = Ok t1 \<and> write_head me t1 = Ok t2 \<and> install_trans me False t2 = Ok t3 \<and>
     wrote me (commit_point s) s t3 \<and>
     (\<forall>x. pins t3 x = pins s x - (if x \<in> homes s 0 (nat (lh_n (lh s))) then 1 else 0))"
proof -
  let ?n = "nat (lh_n (lh s))"
  have q: "quiet me s" and g: "log_geom s" and nn: "0 \<le> lh_n (lh s)" "lh_n (lh s) \<le> int LOGBLOCKS" "?n \<le> LOGBLOCKS"
    and room: "card (in_use s) + 2 \<le> NBUF" and dist: "distinct (take ?n (lh_block (lh s)))"
    and hm: "\<And>b. b \<in> homes s 0 ?n \<Longrightarrow> b \<notin> log_area s \<and> 1 \<le> pins s b"
    using r by (auto simp: tx_ready_def)
  have out: "lh_block (lh s) ! j \<notin> log_area s" if "j < 0 + ?n" for j
    using hm that by (auto simp: homes_def)
  obtain t1 where t1: "write_log me s = Ok t1" "wrote me (log_copies s (bview s) 0 ?n) s t1" "pins t1 = pins s"
    using write_log_loop_spec [OF q g, of 0 ?n] room out nn(3) by (auto simp: write_log_def)
  have sr1: "same_rest me s t1" using t1(2) by (simp add: wrote_def)
  let ?h = "log_head s" and ?d = "put_head (lh s) (bview s (log_head s))"
  have "\<exists>t. write_head me t1 = Ok t \<and> wrote me [(log_head t1, put_head (lh t1) (bview t1 (log_head t1)))] t1 t \<and> pins t = pins t1"
    using t1 sr1 room nn g by (intro write_head_spec) (auto simp: wrote_def log_geom_cong [OF sr1] same_rest_klog(3) [OF sr1] in_use_def)
  moreover have "bview t1 ?h = bview s ?h" using t1(2) log_copies_head [OF g nn(3)] by (simp add: wrote_def)
  ultimately obtain t2 where t2: "write_head me t1 = Ok t2" "wrote me [(?h, ?d)] t1 t2" "pins t2 = pins s"
    using t1(3) by (auto simp: same_rest_lh(1) [OF sr1] same_rest_klog(3) [OF sr1])
  have sr2: "same_rest me s t2" using same_rest_trans [OF sr1] t2(2) by (simp add: wrote_def)
  have slot2: "bview t2 (log_slot s j) = bview s (lh_block (lh s) ! j)" if "j < ?n" for j
    using t2(2) t1(2) log_copies_lookup [OF g that nn(3)] log_slot_inj(2) [OF g less_le_trans [OF that nn(3)] less_le_trans [OF that nn(3)]] by (simp add: wrote_def)
  have "\<exists>t. install_loop me False ?n 0 t2 = Ok t \<and> wrote me (home_copies t2 (bview t2) 0 ?n) t2 t \<and>
      (\<forall>x. pins t x = pins t2 x - (if \<not> False \<and> x \<in> homes t2 0 ?n then 1 else 0))"
    using t2(2,3) g nn(3) room out dist hm
    by (intro install_loop_spec) (auto simp: wrote_def log_geom_cong [OF sr2] log_area_cong [OF sr2]
        same_rest_klog(3) [OF sr2] in_use_def same_rest_lh(2) [OF sr2])
  moreover have "home_copies t2 (bview t2) 0 ?n = tx_blocks s"
    using slot2 by (simp add: home_copies_def tx_blocks_def same_rest_klog(3) [OF sr2] log_slot_cong [OF sr2])
  ultimately obtain t3 where t3: "install_trans me False t2 = Ok t3" "wrote me (tx_blocks s) t2 t3"
    "\<forall>x. pins t3 x = pins s x - (if x \<in> homes s 0 ?n then 1 else 0)"
    using t2(3) by (auto simp: install_trans_def same_rest_klog(3) [OF sr2] same_rest_lh(2) [OF sr2])
  have "wrote me (commit_point s) s t3"
    using wrote_trans [OF wrote_trans [OF t1(2) t2(2)] t3(2)] by (simp add: commit_point_def)
  with t1(1) t2(1) t3(1,3) show ?thesis by blast
qed

lemma tx_blocks_out:
  assumes "tx_ready me s"
  shows "b \<in> log_area s \<Longrightarrow> apply_writes (tx_blocks s) d b = d b"
  using assms by (intro apply_writes_other) (auto simp: tx_ready_def tx_blocks_def homes_def)

lemma commit_point_head:
  assumes "tx_ready me s"
  shows "apply_writes (commit_point s) d (log_head s) = put_head (lh s) (bview s (log_head s))"
  by (simp add: commit_point_def tx_blocks_out [OF assms])

lemma commit_writes_point:
  "commit_writes s = commit_point s @
     [(log_head s, put_head ((lh s)\<lparr>lh_n := 0\<rparr>) (put_head (lh s) (bview s (log_head s))))]"
  by (simp add: commit_writes_def commit_point_def)

lemma commit_spec:
  assumes r: "tx_ready me s" and n: "0 < lh_n (lh s)"
  shows "\<exists>t. commit me s = Ok t \<and> dtrace t = dtrace s @ commit_writes s \<and>
     disk t = apply_writes (commit_writes s) (disk s) \<and> bview t = apply_writes (commit_writes s) (bview s) \<and>
     quiet me t \<and> lh t = (lh s)\<lparr>lh_n := 0\<rparr> \<and> log_start t = log_start s \<and> log_dev t = log_dev s \<and>
     log_outstanding t = log_outstanding s \<and> klog.more t = klog.more s \<and>
     (\<forall>x. pins t x = pins s x - (if x \<in> homes s 0 (nat (lh_n (lh s))) then 1 else 0))"
proof -
  obtain t1 t2 t3 where t: "write_log me s = Ok t1" "write_head me t1 = Ok t2" "install_trans me False t2 = Ok t3"
    "wrote me (commit_point s) s t3" "\<forall>x. pins t3 x = pins s x - (if x \<in> homes s 0 (nat (lh_n (lh s))) then 1 else 0)"
    using commit_steps [OF r] by blast
  have sr: "same_rest me s t3" using t(4) by (simp add: wrote_def)
  have lg: "log_geom s" "card (in_use s) + 2 \<le> NBUF" using r by (auto simp: tx_ready_def)
  have room: "card (in_use t3) < NBUF"
  proof -
    have "in_use t3 \<subseteq> in_use s" using t(5) r by (force simp: in_use_def tx_ready_def split: if_splits)
    then have "card (in_use t3) \<le> card (in_use s)" by (rule card_mono [OF finite])
    with lg(2) show ?thesis by simp
  qed
  let ?u = "set_n 0 t3"
  have u: "?u = t3\<lparr>lh := (lh t3)\<lparr>lh_n := 0\<rparr>\<rparr>" by (simp add: set_n_def)
  have hu: "log_head ?u = log_head s" "lh ?u = (lh s)\<lparr>lh_n := 0\<rparr>" "disk ?u = disk t3" "dtrace ?u = dtrace t3"
    "log_start ?u = log_start s" "log_dev ?u = log_dev s" "log_outstanding ?u = log_outstanding s" "klog.more ?u = klog.more s"
    by (simp_all add: u log_head_def same_rest_klog [OF sr] same_rest_klog(3) [OF sr])
  have bu: "bview ?u (log_head s) = put_head (lh s) (bview s (log_head s))"
    using t(4) commit_point_head [OF r] by (simp add: u wrote_def)
  have "\<exists>t. write_head me ?u = Ok t \<and> wrote me [(log_head ?u, put_head (lh ?u) (bview ?u (log_head ?u)))] ?u t \<and> pins t = pins ?u"
    using t(4) room log_geom_cong [OF sr] lg(1)
    by (intro write_head_spec) (simp_all add: u wrote_def log_geom_def)
  then obtain v where v: "write_head me ?u = Ok v" "pins v = pins t3"
    "wrote me [(log_head s, put_head ((lh s)\<lparr>lh_n := 0\<rparr>) (put_head (lh s) (bview s (log_head s))))] ?u v"
    unfolding hu(1,2) bu by (auto simp: u)
  have "commit me s = Ok v" using t(1-3) v(1) n by (simp add: commit_def)
  moreover have "lh v = lh ?u" "log_start v = log_start ?u" "log_dev v = log_dev ?u"
    "log_outstanding v = log_outstanding ?u" "klog.more v = klog.more ?u"
    using v(3) same_rest_klog [of me ?u v] by (auto simp: wrote_def)
  ultimately show ?thesis
    using v(2,3) t(4,5) by (intro exI [of _ v]) (simp add: wrote_def commit_writes_point hu, simp add: u)
qed

end
