(* ===== verification/Recovery.thy ===== *)
theory Recovery
  imports LogProof
begin

text \<open>
  Crash recovery of the log (\<open>recover_from_log\<close> of \<open>kernel/log.c\<close>). The disk after a crash is
  the disk before with a prefix of the trace of writes applied; recovery replays the entries that
  the header block names. The lemmas show that a commit cut off after any of its writes, followed
  by any number of recoveries cut off themselves, is undone or completed as a whole.
\<close>

section \<open>What recovery does to a disk\<close>

definition recovery_installs :: "'a klog_scheme \<Rightarrow> (uint32 \<Rightarrow> byte list) \<Rightarrow> writes" where
  "recovery_installs s d = map (\<lambda>j. (head_block (d (log_head s)) j, d (log_slot s j))) [0..<nat (head_n (d (log_head s)))]"

definition recovery_writes :: "'a klog_scheme \<Rightarrow> (uint32 \<Rightarrow> byte list) \<Rightarrow> writes" where
  "recovery_writes s d = recovery_installs s d @ [(log_head s, put_le 4 0 (0 :: uint32) (d (log_head s)))]"

definition recover_disk :: "'a klog_scheme \<Rightarrow> (uint32 \<Rightarrow> byte list) \<Rightarrow> uint32 \<Rightarrow> byte list" where
  "recover_disk s d = apply_writes (recovery_writes s d) d"

text \<open>A disk whose header names at most \<open>LOGBLOCKS\<close> blocks, none of them in the log.\<close>

definition log_valid :: "'a klog_scheme \<Rightarrow> (uint32 \<Rightarrow> byte list) \<Rightarrow> bool" where
  "log_valid s d \<longleftrightarrow> head_n (d (log_head s)) \<le> int LOGBLOCKS \<and> length (d (log_head s)) = BSIZE \<and>
     (\<forall>j < nat (head_n (d (log_head s))). head_block (d (log_head s)) j \<notin> log_area s)"

lemma recovery_installs_out:
  "log_valid s d \<Longrightarrow> b \<in> log_area s \<Longrightarrow> b \<notin> fst ` set (recovery_installs s d)"
  by (auto simp: recovery_installs_def log_valid_def)

lemma recovery_installs_area:
  assumes "log_valid s d" "b \<in> log_area s"
  shows "apply_writes (take k (recovery_installs s d)) e b = e b"
  using recovery_installs_out [OF assms] set_take_subset [of k "recovery_installs s d"]
  by (intro apply_writes_other) blast

lemma apply_writes_dom:
  "b \<in> fst ` set ws \<Longrightarrow> apply_writes ws d b = apply_writes ws e b"
proof (induction ws arbitrary: d e)
  case (Cons w ws)
  show ?case
  proof (cases "b \<in> fst ` set ws")
    case True
    then show ?thesis using Cons.IH by (cases w) simp
  next
    case False
    with Cons.prems show ?thesis by (cases w) (auto simp: apply_writes_other)
  qed
qed simp

lemma apply_writes_again:
  "apply_writes ws (apply_writes (take k ws) d) b = apply_writes ws d b"
proof (cases "b \<in> fst ` set ws")
  case True
  then show ?thesis by (rule apply_writes_dom)
next
  case False
  then have "b \<notin> fst ` set (take k ws)" using set_take_subset [of k ws] by blast
  with False show ?thesis by (simp add: apply_writes_other)
qed

lemma recover_disk_out:
  "b \<notin> log_area s \<Longrightarrow> recover_disk s d b = apply_writes (recovery_installs s d) d b"
  by (auto simp: recover_disk_def recovery_writes_def)

lemma recovery_installs_cong:
  assumes "\<And>b. b \<in> log_area s \<Longrightarrow> e b = d b" and "head_n (d (log_head s)) \<le> int LOGBLOCKS"
  shows "recovery_installs s e = recovery_installs s d"
  using assms by (auto simp: recovery_installs_def)

lemma head_n_cleared:
  "4 \<le> length bs \<Longrightarrow> head_n (put_le 4 0 (0 :: uint32) bs) = 0"
  by (simp add: head_n_def get_put_le_same)

lemma recover_disk_cleared:
  assumes "head_n (d (log_head s)) \<le> 0" "b \<notin> log_area s"
  shows "recover_disk s d b = d b"
  using assms by (simp add: recover_disk_out recovery_installs_def)

lemma take_append_cases:
  obtains j where "take k (xs @ [x]) = take j xs" | "take k (xs @ [x]) = xs @ [x]"
  by (cases "k \<le> length xs") auto

text \<open>Crashing during recovery: the disk stays valid and recovers to the same blocks.\<close>

lemma recovery_crash:
  fixes k :: nat
  assumes v: "log_valid s d"
  defines "e \<equiv> apply_writes (take k (recovery_writes s d)) d"
  shows "log_valid s e" "b \<notin> log_area s \<Longrightarrow> recover_disk s e b = recover_disk s d b"
proof -
  have n: "head_n (d (log_head s)) \<le> int LOGBLOCKS" and l: "length (d (log_head s)) = BSIZE"
    using v by (auto simp: log_valid_def)
  consider j where "take k (recovery_writes s d) = take j (recovery_installs s d)"
    | "take k (recovery_writes s d) = recovery_writes s d"
    unfolding recovery_writes_def by (rule take_append_cases)
  then have "log_valid s e \<and> (b \<notin> log_area s \<longrightarrow> recover_disk s e b = recover_disk s d b)"
  proof cases
    case 1
    then have e: "e b = d b" if "b \<in> log_area s" for b
      using recovery_installs_area [OF v that] by (simp add: e_def)
    then have "recovery_installs s e = recovery_installs s d" using n by (intro recovery_installs_cong)
    then have "recover_disk s e b = recover_disk s d b" if "b \<notin> log_area s" for b
      using that 1 by (simp add: recover_disk_out e_def apply_writes_again)
    moreover have "log_valid s e" using v e [OF log_head_area] by (simp add: log_valid_def)
    ultimately show ?thesis by simp
  next
    case 2
    then have e: "e (log_head s) = put_le 4 0 (0 :: uint32) (d (log_head s))" "e = recover_disk s d"
      by (simp_all add: e_def recovery_writes_def recover_disk_def)
    then have "head_n (e (log_head s)) = 0" using l by (simp add: head_n_cleared BSIZE_def)
    moreover from this have "log_valid s e" using e(1) l by (simp add: log_valid_def BSIZE_def)
    ultimately show ?thesis using recover_disk_cleared [of e s] e(2) by simp
  qed
  then show "log_valid s e" "b \<notin> log_area s \<Longrightarrow> recover_disk s e b = recover_disk s d b" by auto
qed

text \<open>Disks reached from \<open>d\<close> by recoveries that were cut off after some of their writes.\<close>

inductive cut_recoveries :: "'a klog_scheme \<Rightarrow> (uint32 \<Rightarrow> byte list) \<Rightarrow> (uint32 \<Rightarrow> byte list) \<Rightarrow> bool"
  for s d where
  none: "cut_recoveries s d d"
| cut: "cut_recoveries s d e \<Longrightarrow> cut_recoveries s d (apply_writes (take k (recovery_writes s e)) e)"

lemma cut_recoveries_same:
  assumes "cut_recoveries s d e" "log_valid s d"
  shows "log_valid s e \<and> (\<forall>b. b \<notin> log_area s \<longrightarrow> recover_disk s e b = recover_disk s d b)"
  using assms by (induction rule: cut_recoveries.induct) (auto simp: recovery_crash)

section \<open>recover\_from\_log\<close>

lemma read_head_spec:
  assumes q: "quiet me s" and g: "log_geom s" and room: "card (in_use s) < NBUF"
    and n: "head_n (bview s (log_head s)) \<le> int LOGBLOCKS" and c: "bview s (log_head s) = disk s (log_head s)"
  shows "\<exists>t. read_head me s = Ok t \<and> quiet me t \<and> disk t = disk s \<and> bview t = bview s \<and> dtrace t = dtrace s \<and>
     pins t = pins s \<and> log_start t = log_start s \<and> log_dev t = log_dev s \<and> lh_n (lh t) = head_n (bview s (log_head s)) \<and>
     lh_block (lh t) = get_blocks (bview s (log_head s)) (nat (head_n (bview s (log_head s)))) (lh_block (lh s))"
proof -
  have inv: "bcache_inv s" and nl: "\<And>b. \<not> locked s b" and me: "me < length (procs s)"
    using q by (auto simp: quiet_def)
  have dev: "log_dev s = 1" "length (lh_block (lh s)) = LOGBLOCKS" using g by (auto simp: log_geom_def)
  let ?h = "log_head s"
  show ?thesis
  proof (rule bread_full [OF inv nl _ me, of ?h])
    fix i t assume r: "bread me 1 ?h s = Ok (i, t)" "holds me t ?h i" "b_data (bufs t ! i) = bview s ?h"
      "bview t = bview s" "pins t = (pins s)(?h := pins s ?h + 1)" "locked t = (locked s)(?h := True)"
      "disk t = disk s" "dtrace t = dtrace s" "same_rest me s t"
    let ?n = "head_n (bview s ?h)"
    let ?x = "\<lparr>lh_n = ?n, lh_block = get_blocks (bview s ?h) (nat ?n) (lh_block (lh s))\<rparr>"
    let ?t = "t\<lparr>lh := ?x\<rparr>"
    have h: "holds me ?t ?h i" using r(2) by simp
    show ?thesis
    proof (rule brelse_spec [OF h])
      show "bview ?t ?h = disk ?t ?h" using c r(4,7) by simp
      fix v assume v: "brelse me i ?t = Ok v" "bcache_inv v" "bview v = bview ?t" "pins v = (pins ?t)(?h := pins ?t ?h - 1)"
        "locked v = (locked ?t)(?h := False)" "disk v = disk ?t" "dtrace v = dtrace ?t" "same_rest me ?t v"
      have "read_head me s = Ok v"
        using r(1,3) v(1) dev n same_rest_klog(3) [OF r(9)] by (simp add: read_head_def log_head_def Let_def)
      moreover have "quiet me v"
        using v(2,5,8) r(6,9) nl me by (auto simp: quiet_def same_rest_def)
      moreover have "pins v = pins s" using v(4) r(5) by (auto simp: fun_eq_iff)
      ultimately show ?thesis
        using v(3,6,7) r(4,7,8) same_rest_klog [OF v(8)] same_rest_klog [OF r(9)] by (intro exI [of _ v]) simp
    qed
  qed (use room in simp)
qed

lemma put_head_0: "put_head (h\<lparr>lh_n := 0\<rparr>) bs = put_le 4 0 (0 :: uint32) bs"
  by (simp add: put_head_def)

text \<open>A machine that has just booted: no buffer is in use, so the cache shows the disk.\<close>

definition booted :: "nat \<Rightarrow> 'a klog_scheme \<Rightarrow> bool" where
  "booted me s \<longleftrightarrow> quiet me s \<and> log_geom s \<and> (\<forall>b. pins s b = 0)"

lemma booted_bview: "booted me s \<Longrightarrow> bview s = disk s"
  by (auto simp: booted_def quiet_def fun_eq_iff intro: unpinned_clean)

lemma NBUF_two: "2 \<le> NBUF"
  by (simp add: NBUF_def MAXOPBLOCKS_def)

lemma recover_steps:
  assumes b: "booted me s" and v: "log_valid s (disk s)"
  shows "\<exists>t u. read_head me s = Ok t \<and> install_trans me True t = Ok u \<and> wrote me (recovery_installs s (disk s)) t u \<and>
     disk t = disk s \<and> bview t = disk s \<and> dtrace t = dtrace s \<and> log_start t = log_start s \<and> log_geom t \<and> (\<forall>x. pins u x = 0)"
proof -
  let ?h = "disk s (log_head s)"
  have q: "quiet me s" and g: "log_geom s" and p: "\<And>x. pins s x = 0" using b by (auto simp: booted_def)
  have n: "head_n ?h \<le> int LOGBLOCKS" using v by (simp add: log_valid_def)
  have e: "in_use s = {}" using p by (simp add: in_use_def)
  obtain t where t: "read_head me s = Ok t" "quiet me t" "disk t = disk s" "bview t = disk s" "dtrace t = dtrace s"
     "pins t = pins s" "log_start t = log_start s" "log_dev t = log_dev s" "lh_n (lh t) = head_n ?h"
     "lh_block (lh t) = get_blocks ?h (nat (head_n ?h)) (lh_block (lh s))"
    using read_head_spec [OF q g] n NBUF_two unfolding booted_bview [OF b] by (auto simp: e)
  have len: "length (lh_block (lh s)) = LOGBLOCKS" using g by (simp add: log_geom_def)
  have blk: "lh_block (lh t) ! j = head_block ?h j" if "j < nat (head_n ?h)" for j
    using that t(10) n len by (simp add: nth_get_blocks)
  have ls: "log_slot t = log_slot s" "log_area t = log_area s" "log_geom t"
    using t(7,8,10) g len by (simp_all add: log_slot_def fun_eq_iff log_area_def log_head_def log_geom_def)
  have "in_use t = {}" using t(6) e by (simp add: in_use_def)
  then have "\<exists>u. install_loop me True (nat (head_n ?h)) 0 t = Ok u \<and> wrote me (home_copies t (bview t) 0 (nat (head_n ?h))) t u \<and>
      (\<forall>x. pins u x = pins t x - (if \<not> True \<and> x \<in> homes t 0 (nat (head_n ?h)) then 1 else 0))"
    using t(2) ls(2,3) n v blk NBUF_two by (intro install_loop_spec) (auto simp: log_valid_def)
  moreover have "home_copies t (bview t) 0 (nat (head_n ?h)) = recovery_installs s (disk s)"
    using blk ls(1) t(4) by (simp add: home_copies_def recovery_installs_def)
  ultimately obtain u where "install_trans me True t = Ok u" "wrote me (recovery_installs s (disk s)) t u" "\<forall>x. pins u x = 0"
    using t(6,9) p by (auto simp: install_trans_def)
  then show ?thesis using t(1,3,4,5,7) ls(3) by blast
qed

lemma recover_spec:
  assumes b: "booted me s" and v: "log_valid s (disk s)"
  shows "\<exists>t. recover_from_log me s = Ok t \<and> disk t = recover_disk s (disk s) \<and>
     dtrace t = dtrace s @ recovery_writes s (disk s) \<and> booted me t \<and> lh_n (lh t) = 0 \<and> log_start t = log_start s"
proof -
  obtain t u where t: "read_head me s = Ok t" "install_trans me True t = Ok u"
    "wrote me (recovery_installs s (disk s)) t u" "disk t = disk s" "bview t = disk s" "dtrace t = dtrace s"
    "log_start t = log_start s" "log_geom t" "\<forall>x. pins u x = 0"
    using recover_steps [OF assms] by blast
  let ?u = "set_n 0 u"
  have u: "?u = u\<lparr>lh := (lh u)\<lparr>lh_n := 0\<rparr>\<rparr>" by (simp add: set_n_def)
  have sr: "same_rest me t u" using t(3) by (simp add: wrote_def)
  have lh: "log_head ?u = log_head s" "log_start ?u = log_start s" "log_geom ?u"
    using same_rest_klog [OF sr] t(7) log_geom_cong [OF sr] t(8) by (simp_all add: u log_head_def log_geom_def)
  have bh: "bview ?u (log_head s) = disk s (log_head s)"
    using t(3,5) recovery_installs_out [OF v log_head_area] by (simp add: u wrote_def apply_writes_other)
  have e: "in_use ?u = {}" using t(9) by (simp add: in_use_def u)
  have "\<exists>w. write_head me ?u = Ok w \<and> wrote me [(log_head ?u, put_head (lh ?u) (bview ?u (log_head ?u)))] ?u w \<and> pins w = pins ?u"
    using t(3) e lh(3) NBUF_two by (intro write_head_spec) (simp_all add: u wrote_def)
  then obtain w where w: "write_head me ?u = Ok w" "pins w = pins ?u"
    "wrote me [(log_head s, put_le 4 0 (0 :: uint32) (disk s (log_head s)))] ?u w"
    unfolding lh(1) bh by (auto simp: u put_head_0)
  have sw: "same_rest me ?u w" using w(3) by (simp add: wrote_def)
  have "recover_from_log me s = Ok w" using t(1,2) w(1) by (simp add: recover_from_log_def)
  moreover have "booted me w"
    using w(2,3) t(9) lh(3) log_geom_cong [OF sw] by (simp add: booted_def wrote_def) (simp add: u)
  moreover have "lh_n (lh w) = 0" "log_start w = log_start s" using same_rest_klog [OF sw] lh(2) by (simp_all add: u)
  ultimately show ?thesis
    using w(3) t(3,4,6) by (intro exI [of _ w]) (simp add: wrote_def recover_disk_def recovery_writes_def, simp add: u)
qed

section \<open>A commit cut off anywhere\<close>

lemma commit_writes_snoc:
  obtains h where "commit_writes s = (log_copies s (bview s) 0 (nat (lh_n (lh s))) @
      (log_head s, put_head (lh s) (bview s (log_head s))) # tx_blocks s) @ [(log_head s, h)]"
    "h = put_le 4 0 (0 :: uint32) (put_head (lh s) (bview s (log_head s)))"
  by (simp add: commit_writes_def put_head_0)

text \<open>The three parts of a commit: before the header is written, before it is cleared, after.\<close>

lemma commit_prefix_cases:
  obtains (before) j where "take k (commit_writes s) = take j (log_copies s (bview s) 0 (nat (lh_n (lh s))))"
  | (during) j where "take k (commit_writes s) = log_copies s (bview s) 0 (nat (lh_n (lh s))) @
      (log_head s, put_head (lh s) (bview s (log_head s))) # take j (tx_blocks s)"
  | (after) "take k (commit_writes s) = commit_writes s"
proof (cases "k \<le> length (log_copies s (bview s) 0 (nat (lh_n (lh s))))")
  case True
  then show thesis using before by (simp add: commit_writes_def)
next
  case False
  then obtain m where "k = length (log_copies s (bview s) 0 (nat (lh_n (lh s)))) + Suc m"
    by (metis add_Suc_right not_less less_iff_Suc_add)
  then show thesis
    using during [of m] after by (cases "m \<le> length (tx_blocks s)") (simp_all add: commit_writes_def)
qed

lemma log_copies_take_out:
  assumes "b \<notin> log_area s \<or> b = log_head s" "log_geom s" "n \<le> LOGBLOCKS"
  shows "apply_writes (take j (log_copies s v 0 n)) d b = d b"
proof (rule apply_writes_other)
  have "b \<notin> log_slot s ` {..<n}"
    using assms log_slot_inj(2) [OF assms(2)] by (auto simp: log_area_def dest: less_le_trans)
  then show "b \<notin> fst ` set (take j (log_copies s v 0 n))"
    using log_copies_fst [of s v n] set_take_subset [of j "log_copies s v 0 n"] by blast
qed

lemma tx_blocks_take_out:
  assumes "tx_ready me s" "b \<in> log_area s"
  shows "apply_writes (take j (tx_blocks s)) d b = d b"
proof (rule apply_writes_other)
  have "b \<notin> fst ` set (tx_blocks s)" using assms by (auto simp: tx_ready_def tx_blocks_def homes_def)
  then show "b \<notin> fst ` set (take j (tx_blocks s))" using set_take_subset [of j "tx_blocks s"] by blast
qed

lemma cut_during:
  fixes j :: nat
  assumes r: "tx_ready me s"
  defines "ws \<equiv> log_copies s (bview s) 0 (nat (lh_n (lh s))) @
      (log_head s, put_head (lh s) (bview s (log_head s))) # take j (tx_blocks s)"
  shows "log_valid s (apply_writes ws d)" "recovery_installs s (apply_writes ws d) = tx_blocks s"
proof -
  let ?n = "nat (lh_n (lh s))" and ?h = "put_head (lh s) (bview s (log_head s))"
  have g: "log_geom s" and nn: "0 \<le> lh_n (lh s)" "lh_n (lh s) \<le> int LOGBLOCKS" "?n \<le> LOGBLOCKS" and inv: "bcache_inv s"
    and out: "\<And>j. j < ?n \<Longrightarrow> lh_block (lh s) ! j \<notin> log_area s"
    using r by (auto simp: tx_ready_def homes_def quiet_def)
  note P = put_head_spec [OF nn(1,2) length_bview [OF inv, of "log_head s"]]
  have h: "apply_writes ws d (log_head s) = ?h" by (simp add: ws_def tx_blocks_take_out [OF r])
  have sl: "apply_writes ws d (log_slot s i) = bview s (lh_block (lh s) ! i)" if "i < ?n" for i
  proof -
    have i: "i < LOGBLOCKS" using that nn(3) by simp
    then show ?thesis
      using log_copies_lookup [OF g that nn(3)] log_slot_inj(2) [OF g i i]
      by (simp add: ws_def tx_blocks_take_out [OF r])
  qed
  show "log_valid s (apply_writes ws d)"
    using nn(2) P out unfolding log_valid_def h by auto
  show "recovery_installs s (apply_writes ws d) = tx_blocks s"
    unfolding recovery_installs_def h using P sl by (simp add: tx_blocks_def)
qed

lemma apply_writes_over:
  assumes "b \<notin> fst ` set ws \<Longrightarrow> d b = e b"
  shows "apply_writes ws d b = apply_writes ws e b"
  using assms apply_writes_dom [of b ws d e] by (cases "b \<in> fst ` set ws") (simp_all add: apply_writes_other)

lemma cut_during_disk:
  fixes j :: nat
  assumes r: "tx_ready me s" and b: "b \<notin> log_area s"
  defines "ws \<equiv> log_copies s (bview s) 0 (nat (lh_n (lh s))) @
      (log_head s, put_head (lh s) (bview s (log_head s))) # take j (tx_blocks s)"
  shows "recover_disk s (apply_writes ws (disk s)) b = apply_writes (tx_blocks s) (disk s) b"
proof -
  have n: "nat (lh_n (lh s)) \<le> LOGBLOCKS" using r by (auto simp: tx_ready_def)
  have R: "recovery_installs s (apply_writes ws (disk s)) = tx_blocks s"
    unfolding ws_def by (rule cut_during(2) [OF r])
  show ?thesis
    unfolding recover_disk_out [OF b] R
  proof (rule apply_writes_over)
    assume "b \<notin> fst ` set (tx_blocks s)"
    then have "b \<notin> fst ` set (take j (tx_blocks s))" using set_take_subset [of j "tx_blocks s"] by blast
    moreover have "b \<noteq> log_head s" using b by auto
    ultimately show "apply_writes ws (disk s) b = disk s b"
      by (simp add: ws_def apply_writes_other log_copies_other [OF b n])
  qed
qed

lemma commit_complete:
  assumes r: "tx_ready me s"
  shows "head_n (apply_writes (commit_writes s) d (log_head s)) = 0"
    "length (apply_writes (commit_writes s) d (log_head s)) = BSIZE"
    "b \<notin> log_area s \<Longrightarrow> apply_writes (commit_writes s) d b = apply_writes (tx_blocks s) d b"
proof -
  have nn: "0 \<le> lh_n (lh s)" "lh_n (lh s) \<le> int LOGBLOCKS" "nat (lh_n (lh s)) \<le> LOGBLOCKS" and inv: "bcache_inv s"
    using r by (auto simp: tx_ready_def quiet_def)
  note P = put_head_spec [OF nn(1,2) length_bview [OF inv, of "log_head s"]]
  have "apply_writes (commit_writes s) d (log_head s) = put_le 4 0 (0 :: uint32) (put_head (lh s) (bview s (log_head s)))"
    by (simp add: commit_writes_def put_head_0)
  then show "head_n (apply_writes (commit_writes s) d (log_head s)) = 0"
    "length (apply_writes (commit_writes s) d (log_head s)) = BSIZE"
    using P(1) by (simp_all add: head_n_cleared BSIZE_def)
  assume b: "b \<notin> log_area s"
  then have "b \<noteq> log_head s" by auto
  then have "apply_writes (commit_writes s) d b =
      apply_writes (tx_blocks s) ((apply_writes (log_copies s (bview s) 0 (nat (lh_n (lh s)))) d)
        (log_head s := put_head (lh s) (bview s (log_head s)))) b"
    by (simp add: commit_writes_def)
  also have "\<dots> = apply_writes (tx_blocks s) d b"
    using \<open>b \<noteq> log_head s\<close> by (intro apply_writes_over) (simp add: log_copies_other [OF b nn(3)])
  finally show "apply_writes (commit_writes s) d b = apply_writes (tx_blocks s) d b" .
qed

lemma commit_crash:
  fixes k :: nat
  assumes r: "tx_ready me s" and clean: "head_n (disk s (log_head s)) = 0"
  defines "d \<equiv> apply_writes (take k (commit_writes s)) (disk s)"
  shows "log_valid s d \<and> ((\<forall>b. b \<notin> log_area s \<longrightarrow> recover_disk s d b = disk s b) \<or>
     (\<forall>b. b \<notin> log_area s \<longrightarrow> recover_disk s d b = apply_writes (tx_blocks s) (disk s) b))"
proof (rule commit_prefix_cases [of k s])
  fix j assume "take k (commit_writes s) = take j (log_copies s (bview s) 0 (nat (lh_n (lh s))))"
  moreover have "log_geom s" "nat (lh_n (lh s)) \<le> LOGBLOCKS" using r by (auto simp: tx_ready_def)
  ultimately have "d b = disk s b" if "b \<notin> log_area s \<or> b = log_head s" for b
    using log_copies_take_out [OF that] by (simp add: d_def)
  moreover have "length (disk s (log_head s)) = BSIZE" using r by (simp add: tx_ready_def quiet_def bcache_inv_def)
  ultimately show ?thesis
    using clean by (simp add: log_valid_def recover_disk_cleared)
next
  fix j assume "take k (commit_writes s) = log_copies s (bview s) 0 (nat (lh_n (lh s))) @
    (log_head s, put_head (lh s) (bview s (log_head s))) # take j (tx_blocks s)"
  then have "d = apply_writes (log_copies s (bview s) 0 (nat (lh_n (lh s))) @
    (log_head s, put_head (lh s) (bview s (log_head s))) # take j (tx_blocks s)) (disk s)"
    unfolding d_def by (rule arg_cong)
  then show ?thesis using cut_during(1) [OF r] cut_during_disk [OF r] by (simp only:) blast
next
  assume "take k (commit_writes s) = commit_writes s"
  then show ?thesis
    using commit_complete(1,2) [OF r, of "disk s"] commit_complete(3) [OF r] recover_disk_cleared [of d s]
    by (simp add: d_def log_valid_def)
qed

lemma recover_cong:
  assumes "log_start x = log_start s"
  shows "log_area x = log_area s" "log_valid x = log_valid s" "recover_disk x = recover_disk s"
proof -
  have h: "log_head x = log_head s" "log_slot x = log_slot s"
    using assms by (simp_all add: log_head_def log_slot_def fun_eq_iff)
  then show a: "log_area x = log_area s" by (simp add: log_area_def)
  show "log_valid x = log_valid s" by (simp add: log_valid_def fun_eq_iff h a)
  show "recover_disk x = recover_disk s"
    by (simp add: recover_disk_def recovery_writes_def recovery_installs_def fun_eq_iff h)
qed

lemma crash_recovery:
  assumes r: "tx_ready me s" and clean: "head_n (disk s (log_head s)) = 0"
    and x: "booted p x" "log_start x = log_start s"
    and d: "cut_recoveries s (apply_writes (take k (commit_writes s)) (disk s)) (disk x)"
  shows "\<exists>t. recover_from_log p x = Ok t \<and> booted p t \<and> lh_n (lh t) = 0 \<and>
     ((\<forall>b. b \<notin> log_area s \<longrightarrow> disk t b = disk s b) \<or>
      (\<forall>b. b \<notin> log_area s \<longrightarrow> disk t b = apply_writes (tx_blocks s) (disk s) b))"
proof -
  let ?d = "apply_writes (take k (commit_writes s)) (disk s)"
  note c = commit_crash [OF r clean, of k] and R = recover_cong [OF x(2)]
  have e: "log_valid s (disk x)" "\<And>b. b \<notin> log_area s \<Longrightarrow> recover_disk s (disk x) b = recover_disk s ?d b"
    using cut_recoveries_same [OF d] c by auto
  then obtain t where t: "recover_from_log p x = Ok t" "disk t = recover_disk s (disk x)" "booted p t" "lh_n (lh t) = 0"
    using recover_spec [OF x(1)] R by auto
  with c e(2) have "(\<forall>b. b \<notin> log_area s \<longrightarrow> disk t b = disk s b) \<or>
      (\<forall>b. b \<notin> log_area s \<longrightarrow> disk t b = apply_writes (tx_blocks s) (disk s) b)" by simp
  with t(1,3,4) show ?thesis by blast
qed

section \<open>Properties\<close>

text \<open>
  A machine whose log holds a transaction of one block: block 50 has been changed to sevens in the
  cache and is pinned, the disk is all zeros. \<open>rebooted d\<close> is a machine that has just booted
  with disk \<open>d\<close>.
\<close>

definition unused_buf :: buf where
  "unused_buf = \<lparr>b_valid = 0, b_dev = 0, b_blockno = 0, b_lock = initsleeplock, b_refcnt = 0, b_data = replicate 1024 0\<rparr>"

definition dirty_buf :: buf where
  "dirty_buf = unused_buf\<lparr>b_valid := 1, b_dev := 1, b_blockno := 50, b_refcnt := 1, b_data := replicate 1024 7\<rparr>"

definition rebooted :: "(uint32 \<Rightarrow> byte list) \<Rightarrow> klog" where
  "rebooted d = \<lparr>mem = (\<lambda>_. 0), kend = 1, freelist = 0, free_pages = 0, refcnt = (\<lambda>_. 0),
      procs = [idle_proc], nextpid = 1, initproc = None, cpu_proc = [], ticks = 0, trampoline_pa = 0,
      forkret_pc = 0, pipes = (\<lambda>_. wrapping_pipe), bufs = replicate 30 unused_buf, lru = [0..<30], disk = d, dtrace = [],
      log_start = 2, log_outstanding = 0, log_committing = 0, log_dev = 1,
      lh = \<lparr>lh_n = 0, lh_block = replicate 30 0\<rparr>\<rparr>"

definition one_block_tx :: klog where
  "one_block_tx = (rebooted (\<lambda>_. replicate 1024 0))\<lparr>bufs := dirty_buf # replicate 29 unused_buf, log_committing := 1,
      lh := \<lparr>lh_n = 1, lh_block = 50 # replicate 29 0\<rparr>\<rparr>"

lemma one_block_bufs: "bufs one_block_tx ! i = (if i = 0 then dirty_buf else unused_buf)" if "i < 30"
  using that by (simp add: one_block_tx_def nth_Cons')

lemma one_block_inv: "bcache_inv one_block_tx"
proof -
  have n: "NBUF = 30" by (simp add: NBUF_def MAXOPBLOCKS_def)
  have f: "length (bufs one_block_tx) = 30" "lru one_block_tx = [0..<30]" "disk one_block_tx = (\<lambda>_. replicate 1024 0)"
    by (simp_all add: one_block_tx_def rebooted_def)
  have "bufs_uniq (bufs one_block_tx)"
    by (auto simp: bufs_uniq_def f one_block_bufs unused_buf_def split: if_splits)
  moreover have "buf_ok (disk one_block_tx) (bufs one_block_tx ! i)" if "i < 30" for i
    using that by (simp add: one_block_bufs buf_ok_def dirty_buf_def unused_buf_def initsleeplock_def BSIZE_def)
  ultimately show ?thesis by (auto simp: bcache_inv_def n f BSIZE_def)
qed

lemma one_block_at: "buf_at one_block_tx b i \<longleftrightarrow> i = 0 \<and> b = 50"
  by (auto simp: buf_at_def NBUF_def MAXOPBLOCKS_def one_block_bufs dirty_buf_def unused_buf_def split: if_splits)

lemma find_none: "(\<And>x. \<not> P x) \<Longrightarrow> find P xs = None"
  by (simp add: find_None_iff)

lemma one_block_proj: "bproj g v one_block_tx b = (if b = 50 then g dirty_buf else v)"
proof -
  have "[0..<NBUF] = 0 # [1..<NBUF]" by (simp add: NBUF_def MAXOPBLOCKS_def upt_conv_Cons)
  then show ?thesis
    by (simp add: bproj_def one_block_at one_block_bufs find_none)
qed

lemma one_block_tx_ready: "tx_ready 0 one_block_tx" "head_n (disk one_block_tx (log_head one_block_tx)) = 0"
proof -
  have p: "pins one_block_tx b = (if b = 50 then 1 else 0)" "\<not> locked one_block_tx b" for b
    by (simp_all add: pins_def locked_def one_block_proj dirty_buf_def unused_buf_def initsleeplock_def)
  have "in_use one_block_tx = {50}" by (simp add: in_use_def p)
  moreover have "unat (3 + of_nat x :: uint32) = 3 + x" if "x < 30" for x
    using that by (simp add: unat_word_ariths unat_of_nat)
  then have "log_area one_block_tx \<subseteq> {x. x < 50}"
    by (auto simp: log_area_def log_head_def log_slot_def one_block_tx_def rebooted_def LOGBLOCKS_def MAXOPBLOCKS_def
        word_less_nat_alt)
  ultimately show "tx_ready 0 one_block_tx"
    using one_block_inv p
    by (auto simp: tx_ready_def quiet_def) (auto simp: one_block_tx_def rebooted_def log_geom_def LOGBLOCKS_def MAXOPBLOCKS_def NBUF_def homes_def)
  show "head_n (disk one_block_tx (log_head one_block_tx)) = 0"
    by (simp add: one_block_tx_def rebooted_def head_n_def get_le_def numeral_eq_Suc)
qed

lemma one_block_view: "bview one_block_tx b = (if b = 50 then replicate 1024 7 else replicate 1024 0)"
proof -
  have c: "cached one_block_tx b i \<longleftrightarrow> i = 0 \<and> b = 50" for i
    using one_block_at [of b i] by (auto simp: cached_def buf_at_def one_block_bufs NBUF_def MAXOPBLOCKS_def dirty_buf_def)
  have "[0..<NBUF] = 0 # [1..<NBUF]" by (simp add: NBUF_def MAXOPBLOCKS_def upt_conv_Cons)
  moreover have "disk one_block_tx b = replicate 1024 0" by (simp add: one_block_tx_def rebooted_def)
  ultimately show ?thesis by (simp add: bview_def c one_block_bufs dirty_buf_def find_none)
qed

lemma rebooted_booted: "\<forall>b. length (d b) = BSIZE \<Longrightarrow> booted 0 (rebooted d)"
proof -
  assume d: "\<forall>b. length (d b) = BSIZE"
  have n: "NBUF = 30" by (simp add: NBUF_def MAXOPBLOCKS_def)
  have b: "bufs (rebooted d) ! i = unused_buf" if "i < 30" for i using that by (simp add: rebooted_def)
  have f: "length (bufs (rebooted d)) = 30" "lru (rebooted d) = [0..<30]" "disk (rebooted d) = d"
    by (simp_all add: rebooted_def)
  have "\<not> buf_at (rebooted d) x i" for x i by (auto simp: buf_at_def n b unused_buf_def)
  then have p: "bproj g v (rebooted d) x = v" for g v x by (simp add: bproj_def find_none)
  have "bcache_inv (rebooted d)"
    using d by (auto simp: bcache_inv_def n f bufs_uniq_def b buf_ok_def unused_buf_def initsleeplock_def)
  then show ?thesis
    by (simp add: booted_def quiet_def pins_def locked_def p) (simp add: rebooted_def log_geom_def LOGBLOCKS_def MAXOPBLOCKS_def)
qed

lemma apply_writes_length:
  "\<forall>b. length (d b) = n \<Longrightarrow> \<forall>(b, v)\<in>set ws. length v = n \<Longrightarrow> length (apply_writes ws d b) = n"
  by (induction ws arbitrary: d) auto

lemma commit_writes_length:
  assumes "tx_ready me s"
  shows "\<forall>(b, v)\<in>set (commit_writes s). length v = BSIZE"
proof -
  have n: "0 \<le> lh_n (lh s)" "lh_n (lh s) \<le> int LOGBLOCKS" and inv: "bcache_inv s"
    using assms by (auto simp: tx_ready_def quiet_def)
  have "length (put_head (lh s) (bview s (log_head s))) = BSIZE"
    by (rule put_head_spec(1) [OF n length_bview [OF inv]])
  then show ?thesis
    using length_bview [OF inv] by (auto simp: commit_writes_def log_copies_def tx_blocks_def put_head_0 BSIZE_def)
qed

definition all_or_nothing :: "'a klog_scheme \<Rightarrow> (uint32 \<Rightarrow> byte list) \<Rightarrow> bool" where
  "all_or_nothing s d \<longleftrightarrow> (\<forall>b. b \<notin> log_area s \<longrightarrow> d b = disk s b) \<or>
     (\<forall>b. b \<notin> log_area s \<longrightarrow> d b = apply_writes (tx_blocks s) (disk s) b)"





text \<open>C19: The buffer cache is transparent: with an unlocked block and a free buffer (or the block already
  in use) \<open>bread\<close> returns without sleeping or panicking a buffer that holds what a reader is entitled
  to see, the latest contents given to the block whether or not they have reached the disk. No other
  block's contents change, nothing is written to the disk, the invariant of the cache is kept, and
  only the returned block is referenced and locked in addition.\<close>

theorem bread_is_transparent:
  assumes "bcache_inv s" "\<not> locked s b" "b \<in> in_use s \<or> card (in_use s) < NBUF" "me < length (procs s)"
  shows "\<exists>i t. bread me 1 b s = Ok (i, t) \<and> b_data (bufs t ! i) = bview s b \<and> bview t = bview s \<and>
     disk t = disk s \<and> dtrace t = dtrace s \<and> bcache_inv t \<and>
     pins t = (pins s)(b := pins s b + 1) \<and> locked t = (locked s)(b := True)"
proof (rule bread_full [OF assms])
  fix i t assume "bread me 1 b s = Ok (i, t)" "holds me t b i" "b_data (bufs t ! i) = bview s b"
    "bview t = bview s" "pins t = (pins s)(b := pins s b + 1)" "locked t = (locked s)(b := True)"
    "disk t = disk s" "dtrace t = dtrace s"
  then show ?thesis using holdsD(1) [of me t b i] by blast
qed

theorem bread_is_transparent_witness:
  "\<exists>i t. bread 0 1 50 one_block_tx = Ok (i, t) \<and> b_data (bufs t ! i) = replicate 1024 7 \<and> disk t 50 = replicate 1024 0"
proof -
  have i: "bcache_inv one_block_tx" "\<not> locked one_block_tx 50" "50 \<in> in_use one_block_tx" "0 < length (procs one_block_tx)"
    using one_block_tx_ready(1) by (auto simp: tx_ready_def quiet_def homes_def in_use_def)
      (simp add: pins_def one_block_proj dirty_buf_def)
  have d: "disk one_block_tx 50 = replicate 1024 0" by (simp add: one_block_tx_def rebooted_def)
  show ?thesis
    using bread_is_transparent [OF i(1,2) disjI1 [OF i(3)] i(4)] by (auto simp: one_block_view d)
qed

end
