(* ===== verification/Mkfs.thy ===== *)
theory Mkfs
  imports Fs
begin

text \<open>
  \<open>mkfs\<close> (\<open>src/mkfs/mkfs.c\<close>), the program on the host that builds the file system image: the layout,
  the superblock, inodes, appending to a file and the bitmap. The image is a function from block
  numbers to blocks. \<open>xshort\<close> and \<open>xint\<close> bring a number to RISC-V byte order, so that the bytes of
  the image are little endian; here the byte layouts of \<open>Fs\<close> play that role. Host files are
  lists of bytes; \<open>read\<close> delivers them in pieces of one block.
\<close>

definition FSSIZE :: nat where "FSSIZE = 2000"
definition NINODES :: nat where "NINODES = 200"

definition nbitmap :: nat where "nbitmap = FSSIZE div BPB + 1"
definition ninodeblocks :: nat where "ninodeblocks = NINODES div IPB + 1"
definition nlog :: nat where "nlog = LOGBLOCKS + 1"
definition nmeta :: nat where "nmeta = 2 + nlog + ninodeblocks + nbitmap"
definition mk_nblocks :: nat where "mk_nblocks = FSSIZE - nmeta"

definition mkfs_sb :: superblock where
  "mkfs_sb = \<lparr>sb_magic = FSMAGIC, sb_size = of_nat FSSIZE, sb_nblocks = of_nat mk_nblocks, sb_ninodes = of_nat NINODES,
     sb_nlog = of_nat nlog, sb_logstart = 2, sb_inodestart = of_nat (2 + nlog),
     sb_bmapstart = of_nat (2 + nlog + ninodeblocks)\<rparr>"

record image =
  img :: "uint32 \<Rightarrow> byte list"
  freeinode :: uint32
  freeblock :: uint32

section \<open>Sectors and inodes\<close>

definition wsect :: "uint32 \<Rightarrow> byte list \<Rightarrow> image \<Rightarrow> image" where
  "wsect sec buf im = im\<lparr>img := (img im)(sec := buf)\<rparr>"

definition rsect :: "uint32 \<Rightarrow> image \<Rightarrow> byte list" where
  "rsect sec im = img im sec"

text \<open>A \<open>struct dinode\<close> is the part of \<open>inode\<close> that \<open>read_dinode\<close> fills.\<close>

definition zero_dinode :: inode where
  "zero_dinode = \<lparr>i_dev = 0, i_inum = 0, i_ref = 0, i_lock = initsleeplock, i_valid = 0, i_type = 0, i_major = 0,
     i_minor = 0, i_nlink = 0, i_size = 0, i_addrs = replicate (NDIRECT + 1) 0\<rparr>"

definition winode :: "uint32 \<Rightarrow> inode \<Rightarrow> image \<Rightarrow> image" where
  "winode inum din im =
     (let bn = IBLOCK inum mkfs_sb; buf = rsect bn im in wsect bn (write_dinode (dinode_off inum) din buf) im)"

definition rinode :: "uint32 \<Rightarrow> image \<Rightarrow> inode" where
  "rinode inum im = read_dinode (dinode_off inum) (rsect (IBLOCK inum mkfs_sb) im) zero_dinode"

definition mk_ialloc :: "16 word \<Rightarrow> image \<Rightarrow> uint32 \<times> image" where
  "mk_ialloc type im =
     (let inum = freeinode im; im = im\<lparr>freeinode := freeinode im + 1\<rparr>
      in (inum, winode inum (zero_dinode\<lparr>i_type := type, i_nlink := 1\<rparr>) im))"

text \<open>The bitmap: the first \<open>used\<close> blocks are taken.\<close>

fun mk_bitmap :: "nat \<Rightarrow> byte list" where
  "mk_bitmap 0 = replicate BSIZE 0"
| "mk_bitmap (Suc i) = (let buf = mk_bitmap i in buf[i div 8 := (buf ! (i div 8)) OR bit_mask i])"

definition mk_balloc :: "nat \<Rightarrow> image \<Rightarrow> image outcome" where
  "mk_balloc used im = (if \<not> used < BPB then Panic ''assert'' else Ok (wsect (sb_bmapstart mkfs_sb) (mk_bitmap used) im))"

section \<open>Appending\<close>

definition alloc_blk :: "image \<Rightarrow> uint32 \<times> image" where
  "alloc_blk im = (freeblock im, im\<lparr>freeblock := freeblock im + 1\<rparr>)"

text \<open>The block of the file for \<open>fbn\<close>, allocated if there is none yet.\<close>

definition iappend_block :: "nat \<Rightarrow> inode \<Rightarrow> image \<Rightarrow> uint32 \<times> inode \<times> image" where
  "iappend_block fbn din im =
     (if fbn < NDIRECT then
        if i_addrs din ! fbn = 0 then
          let (b, im) = alloc_blk im in (b, din\<lparr>i_addrs := (i_addrs din)[fbn := b]\<rparr>, im)
        else (i_addrs din ! fbn, din, im)
      else
        let (din, im) = (if i_addrs din ! NDIRECT = 0
               then let (b, im) = alloc_blk im in (din\<lparr>i_addrs := (i_addrs din)[NDIRECT := b]\<rparr>, im) else (din, im));
            indirect = rsect (i_addrs din ! NDIRECT) im in
        if (get_le 4 (4 * (fbn - NDIRECT)) indirect :: uint32) = 0 then
          let (b, im) = alloc_blk im
          in (b, din, wsect (i_addrs din ! NDIRECT) (put_le 4 (4 * (fbn - NDIRECT)) b indirect) im)
        else (get_le 4 (4 * (fbn - NDIRECT)) indirect, din, im))"

function iappend_loop :: "inode \<Rightarrow> nat \<Rightarrow> byte list \<Rightarrow> image \<Rightarrow> (nat \<times> inode \<times> image) outcome" where
  "iappend_loop din off p im =
     (if p \<noteq> [] then
        let fbn = off div BSIZE in
        if \<not> fbn < MAXFILE then Panic ''assert''
        else let (x, din, im) = iappend_block fbn din im;
                 n1 = min (length p) ((fbn + 1) * BSIZE - off);
                 im = wsect x (put_bs (off - fbn * BSIZE) (take n1 p) (rsect x im)) im
             in iappend_loop din (off + n1) (drop n1 p) im
      else Ok (off, din, im))"
  by pat_completeness auto
termination
proof (relation "measure (\<lambda>(din, off, p, im). length p)", goal_cases)
  case (2 din off p im fbn x y din' im' n1 im2)
  have "off < (fbn + 1) * BSIZE" using 2 by (simp add: BSIZE_def)
  then show ?case using 2 by (auto simp flip: length_greater_0_conv)
qed simp

declare iappend_loop.simps [simp del]

definition iappend :: "uint32 \<Rightarrow> byte list \<Rightarrow> image \<Rightarrow> image outcome" where
  "iappend inum p im =
     (let din = rinode inum im in
      bindO (iappend_loop din (unat (i_size din)) p im) (\<lambda>(off, din, im).
      Ok (winode inum (din\<lparr>i_size := of_nat off\<rparr>) im)))"

section \<open>The image\<close>

definition dirent :: "uint32 \<Rightarrow> byte list \<Rightarrow> byte list" where
  "dirent inum name = le_bytes 2 (ucast inum :: 16 word) @ buf_strncpy DIRSIZ name"

definition short_name :: "byte list \<Rightarrow> byte list" where
  "short_name arg =
     (let n = (if take 5 arg = map of_char ''user/'' then drop 5 arg else arg) in if n \<noteq> [] \<and> hd n = 95 then tl n else n)"

definition sb_bytes :: "superblock \<Rightarrow> byte list" where
  "sb_bytes x = concat (map (le_bytes 4) [sb_magic x, sb_size x, sb_nblocks x, sb_ninodes x, sb_nlog x, sb_logstart x,
     sb_inodestart x, sb_bmapstart x])"

text \<open>The pieces that the loop over \<open>read(fd, buf, sizeof(buf))\<close> appends.\<close>

function iappend_all :: "uint32 \<Rightarrow> byte list \<Rightarrow> image \<Rightarrow> image outcome" where
  "iappend_all inum bs im =
     (if bs = [] then Ok im else bindO (iappend inum (take BSIZE bs) im) (iappend_all inum (drop BSIZE bs)))"
  by pat_completeness auto
termination
  by (relation "measure (\<lambda>(inum, bs, im). length bs)") (auto simp: BSIZE_def simp flip: length_greater_0_conv)

declare iappend_all.simps [simp del]

fun mkfs_files :: "uint32 \<Rightarrow> (byte list \<times> byte list) list \<Rightarrow> image \<Rightarrow> image outcome" where
  "mkfs_files rootino [] im = Ok im"
| "mkfs_files rootino ((arg, contents) # files) im =
     (let name = short_name arg in
      if slash \<in> set (if take 5 arg = map of_char ''user/'' then drop 5 arg else arg) then Panic ''assert''
      else if \<not> length name \<le> DIRSIZ then Panic ''assert''
      else let (inum, im) = mk_ialloc T_FILE im in
        bindO (iappend rootino (dirent inum name) im) (\<lambda>im.
        bindO (iappend_all inum contents im) (mkfs_files rootino files)))"

text \<open>\<open>main\<close> with the named host files.\<close>

definition mkfs :: "(byte list \<times> byte list) list \<Rightarrow> image outcome" where
  "mkfs files =
     (let im = \<lparr>img = (\<lambda>_. replicate BSIZE 0), freeinode = 1, freeblock = of_nat nmeta\<rparr>;
          im = wsect 1 (put_bs 0 (sb_bytes mkfs_sb) (replicate BSIZE 0)) im;
          (rootino, im) = mk_ialloc T_DIR im in
      if rootino \<noteq> ROOTINO then Panic ''assert''
      else bindO (iappend rootino (dirent rootino [46]) im) (\<lambda>im.
      bindO (iappend rootino (dirent rootino [46, 46]) im) (\<lambda>im.
      bindO (mkfs_files rootino files im) (\<lambda>im.
      let din = rinode rootino im;
          off = unat (i_size din);
          off = ((off div BSIZE) + 1) * BSIZE;
          im = winode rootino (din\<lparr>i_size := of_nat off\<rparr>) im in
      mk_balloc (unat (freeblock im)) im))))"

end
