(* ===== verification/FsProof.thy ===== *)
theory FsProof
  imports Fs Recovery Mkfs
begin

text \<open>
  Correctness of the file system's building blocks: on-disk inodes, path names, the bitmap that
  \<open>mkfs\<close> leaves for the kernel, and reading the contents of a file through the buffer cache.
\<close>

section \<open>On-disk inodes\<close>

lemma length_put_words [simp]: "off + 4 * length ws \<le> length bs \<Longrightarrow> length (put_words off ws bs) = length bs"
  by (induction ws arbitrary: off bs) auto

lemma get_put_words_other:
  "off' + n \<le> off \<or> off + 4 * length ws \<le> off' \<Longrightarrow> off + 4 * length ws \<le> length bs \<Longrightarrow> off' + n \<le> length bs \<Longrightarrow>
   (get_le n off' (put_words off ws bs) :: 'a::len word) = get_le n off' bs"
proof (induction ws arbitrary: off bs)
  case (Cons w ws)
  have "(get_le n off' (put_words (off + 4) ws (put_le 4 off w bs)) :: 'a word) = get_le n off' (put_le 4 off w bs)"
    using Cons.prems by (intro Cons.IH) auto
  also have "\<dots> = get_le n off' bs" using Cons.prems by (intro get_put_le_other) auto
  finally show ?case by simp
qed simp

lemma get_put_words_same:
  "k < length ws \<Longrightarrow> off + 4 * length ws \<le> length bs \<Longrightarrow> get_le 4 (off + 4 * k) (put_words off ws bs) = ws ! k"
proof (induction ws arbitrary: off bs k)
  case (Cons w ws)
  show ?case
  proof (cases k)
    case 0
    have "(get_le 4 off (put_words (off + 4) ws (put_le 4 off w bs)) :: uint32) = get_le 4 off (put_le 4 off w bs)"
      using Cons.prems by (intro get_put_words_other) auto
    also have "\<dots> = w" using Cons.prems by (intro get_put_le_same) auto
    finally show ?thesis using 0 by simp
  next
    case (Suc j)
    then have "get_le 4 (off + 4 + 4 * j) (put_words (off + 4) ws (put_le 4 off w bs)) = ws ! j"
      using Cons.prems by (intro Cons.IH) auto
    then show ?thesis using Suc by (simp add: add.assoc)
  qed
qed simp

text \<open>The fields of an inode that are stored on disk.\<close>

definition same_dinode :: "inode \<Rightarrow> inode \<Rightarrow> inode" where
  "same_dinode ip ip' = ip'\<lparr>i_type := i_type ip, i_major := i_major ip, i_minor := i_minor ip, i_nlink := i_nlink ip,
     i_size := i_size ip, i_addrs := i_addrs ip\<rparr>"

lemma read_write_dinode_same:
  assumes "off + 64 \<le> length bs" "length (i_addrs ip) = NDIRECT + 1"
  shows "read_dinode off (write_dinode off ip bs) ip' = same_dinode ip ip'"
proof -
  have ad: "off + 12 + 4 * length (i_addrs ip) \<le> length bs" using assms by (simp add: NDIRECT_def)
  have o: "(get_le n off' (put_words (off + 12) (i_addrs ip) cs) :: 'b::len word) = get_le n off' cs" if "off' + n \<le> off + 12" "length cs = length bs" for n off' cs
    using that ad by (intro get_put_words_other) auto
  have a: "map (\<lambda>k. get_le 4 (off + 12 + 4 * k) (put_words (off + 12) (i_addrs ip) cs)) [0..<Suc NDIRECT] = i_addrs ip"
    if "length cs = length bs" for cs
    using that ad assms(2) by (intro nth_equalityI) (auto simp: get_put_words_same nth_append simp del: upt_Suc)
  show ?thesis using assms(1)
    by (simp add: read_dinode_def write_dinode_def same_dinode_def dinode_type_def dinode_nlink_def o a get_put_le_same get_put_le_other
        del: upt_Suc)
qed

lemma get_write_dinode_other:
  assumes "off + 64 \<le> length bs" "length (i_addrs ip) = NDIRECT + 1" "off' + n \<le> off \<or> off + 64 \<le> off'" "off' + n \<le> length bs"
  shows "(get_le n off' (write_dinode off ip bs) :: 'a::len word) = get_le n off' bs"
  using assms(3) assms(1,2,4)
  by (elim disjE) (simp_all add: write_dinode_def get_put_words_other get_put_le_other NDIRECT_def del: add_2_eq_Suc')

text \<open>
C27: An on-disk inode survives its neighbours: after \<open>iupdate\<close> has stored an inode in its slot of an
inode block, reading that slot gives back every stored field, and reading any other of the
sixteen slots of the block gives what it gave before.
\<close>

theorem dinode_roundtrip:
  assumes "length bs = BSIZE" "length (i_addrs ip) = NDIRECT + 1"
  shows "read_dinode (dinode_off inum') (write_dinode (dinode_off inum) ip bs) ip' =
     (if unat inum' mod IPB = unat inum mod IPB then same_dinode ip ip' else read_dinode (dinode_off inum') bs ip')"
proof -
  have in_block: "dinode_off i + 64 \<le> length bs" for i
    using assms(1) mod_less_divisor [of IPB "unat i"] by (simp add: dinode_off_def IPB_def BSIZE_def)
  show ?thesis
  proof (cases "unat inum' mod IPB = unat inum mod IPB")
    case True
    then show ?thesis using read_write_dinode_same [OF in_block assms(2), of inum ip'] by (simp add: dinode_off_def)
  next
    case False
    then have apart: "dinode_off inum' + 64 \<le> dinode_off inum \<or> dinode_off inum + 64 \<le> dinode_off inum'"
      by (auto simp: dinode_off_def)
    have get: "(get_le n (dinode_off inum' + d) (write_dinode (dinode_off inum) ip bs) :: 'b::len word) = get_le n (dinode_off inum' + d) bs"
      if "d + n \<le> 64" for n d
      using that apart in_block [of inum'] by (intro get_write_dinode_other [OF in_block assms(2)]) auto
    have addrs: "map (\<lambda>k. get_le 4 (dinode_off inum' + 12 + 4 * k) (write_dinode (dinode_off inum) ip bs)) [0..<NDIRECT + 1] =
        map (\<lambda>k. get_le 4 (dinode_off inum' + 12 + 4 * k) bs) [0..<NDIRECT + 1]"
      by (intro map_cong refl) (auto simp: NDIRECT_def add.assoc get simp del: upt_Suc)
    show ?thesis using False unfolding read_dinode_def dinode_type_def dinode_nlink_def addrs by (simp add: get get [of 0, simplified] del: upt_Suc add_2_eq_Suc')
  qed
qed

theorem dinode_roundtrip_witness:
  "read_dinode (dinode_off 18) (write_dinode (dinode_off 2) (zero_dinode\<lparr>i_size := 77\<rparr>) (replicate BSIZE 0)) zero_dinode =
   (if unat (18 :: uint32) mod IPB = unat (2 :: uint32) mod IPB then same_dinode (zero_dinode\<lparr>i_size := 77\<rparr>) zero_dinode
    else read_dinode (dinode_off 18) (replicate BSIZE 0) zero_dinode)"
  by (rule dinode_roundtrip) (simp_all add: zero_dinode_def)

section \<open>Path names\<close>

text \<open>The elements of a path: what stands between slashes, without the empty pieces.\<close>

fun split_slash :: "byte list \<Rightarrow> byte list list" where
  "split_slash [] = [[]]"
| "split_slash (c # p) =
     (if c = slash then [] # split_slash p
      else case split_slash p of e # es \<Rightarrow> (c # e) # es | [] \<Rightarrow> [[c]])"

definition path_elems :: "byte list \<Rightarrow> byte list list" where
  "path_elems path = filter (\<lambda>e. e \<noteq> []) (split_slash path)"

text \<open>The name in a buffer of \<open>DIRSIZ\<close> bytes.\<close>

definition name_of :: "byte list \<Rightarrow> byte list" where
  "name_of buf = takeWhile (\<lambda>c. c \<noteq> 0) (take DIRSIZ buf)"

lemma path_elems_slash: "path_elems (slash # p) = path_elems p"
  by (simp add: path_elems_def)

lemma path_elems_dropWhile: "path_elems (dropWhile (\<lambda>c. c = slash) p) = path_elems p"
  by (induction p) (auto simp: path_elems_slash)

lemma split_slash_ne: "split_slash p \<noteq> []"
  by (induction p) (auto split: list.splits)

lemma split_slash_first:
  "split_slash p = takeWhile (\<lambda>c. c \<noteq> slash) p #
     (case dropWhile (\<lambda>c. c \<noteq> slash) p of [] \<Rightarrow> [] | _ # q \<Rightarrow> split_slash q)"
proof (induction p)
  case (Cons c p)
  then show ?case by (cases "c = slash") (simp_all split: list.split)
qed simp

lemma path_elems_first:
  assumes "p \<noteq> []" "hd p \<noteq> slash"
  shows "path_elems p = takeWhile (\<lambda>c. c \<noteq> slash) p # path_elems (dropWhile (\<lambda>c. c \<noteq> slash) p)"
proof -
  have ne: "takeWhile (\<lambda>c. c \<noteq> slash) p \<noteq> []" using assms by (cases p) auto
  show ?thesis
  proof (cases "dropWhile (\<lambda>c. c \<noteq> slash) p")
    case Nil
    show ?thesis using ne unfolding path_elems_def split_slash_first [of p] Nil by simp
  next
    case (Cons d q)
    then have "d = slash" using hd_dropWhile [of "\<lambda>c. c \<noteq> slash" p] by simp
    then have "path_elems (d # q) = path_elems q" by (simp add: path_elems_slash)
    then show ?thesis using ne Cons by (simp add: path_elems_def split_slash_first [of p])
  qed
qed

lemma path_elems_empty: "path_elems [] = []"
  by (simp add: path_elems_def)

lemma path_elems_nil_iff: "path_elems p = [] \<longleftrightarrow> dropWhile (\<lambda>c. c = slash) p = []"
proof (cases "dropWhile (\<lambda>c. c = slash) p")
  case Nil
  show ?thesis using path_elems_dropWhile [of p] unfolding Nil path_elems_empty by simp
next
  case (Cons c q)
  then have "hd (c # q) \<noteq> slash" using hd_dropWhile [of "\<lambda>c. c = slash" p] by simp
  then have "path_elems p \<noteq> []"
    using path_elems_first [of "c # q"] path_elems_dropWhile [of p] unfolding Cons by (metis list.distinct(1))
  then show ?thesis using Cons by simp
qed

lemma name_of_put:
  assumes "length name = DIRSIZ" "0 \<notin> set e"
  shows "name_of (if length e \<ge> DIRSIZ then put_bs 0 (take DIRSIZ e) name else put_bs 0 (e @ [0]) name) = take DIRSIZ e"
proof -
  have nz: "c \<noteq> 0" if "c \<in> set (take DIRSIZ e)" for c using that assms(2) by (auto dest: in_set_takeD)
  show ?thesis
  proof (cases "length e \<ge> DIRSIZ")
    case True
    then show ?thesis using assms(1) nz by (simp add: name_of_def put_bs_def takeWhile_eq_all_conv)
  next
    case False
    then have "take DIRSIZ (put_bs 0 (e @ [0]) name) = e @ 0 # drop (Suc (length e)) name"
      using assms(1) by (simp add: put_bs_def)
    then show ?thesis using False nz by (simp add: name_of_def takeWhile_append2)
  qed
qed

text \<open>
C28: \<open>skipelem\<close> walks through a path: on a path without null bytes it fails exactly when the path has
no element; otherwise the buffer holds the first element, cut to \<open>DIRSIZ\<close> bytes, the path that it
returns has the remaining elements, and it is empty exactly when there are none, which is how
\<open>nameiparent\<close> recognises the last one.
\<close>

theorem skipelem_walks_path:
  assumes "0 \<notin> set path" "length name = DIRSIZ"
  shows "case path_elems path of
      [] \<Rightarrow> skipelem path name = None
    | e # es \<Rightarrow> (\<exists>rest name'. skipelem path name = Some (rest, name') \<and> name_of name' = take DIRSIZ e \<and>
        path_elems rest = es \<and> (rest = [] \<longleftrightarrow> es = []))"
proof (cases "dropWhile (\<lambda>c. c = slash) path")
  case Nil
  then show ?thesis using path_elems_nil_iff [of path] by (simp add: skipelem_def)
next
  case (Cons c q)
  let ?p = "c # q" let ?e = "takeWhile (\<lambda>c. c \<noteq> slash) ?p" let ?rest = "dropWhile (\<lambda>c. c = slash) (dropWhile (\<lambda>c. c \<noteq> slash) ?p)"
  have "hd ?p \<noteq> slash" using hd_dropWhile [of "\<lambda>c. c = slash" path] Cons by simp
  then have el: "path_elems path = ?e # path_elems ?rest"
    using path_elems_first [of ?p] path_elems_dropWhile [of path] path_elems_dropWhile [of "dropWhile (\<lambda>c. c \<noteq> slash) ?p"] Cons
    by simp
  have "set ?p \<subseteq> set path" using set_dropWhileD Cons by (metis subsetI)
  then have "0 \<notin> set ?e" using assms(1) by (blast dest: set_takeWhileD)
  then have nm: "name_of (if length ?e \<ge> DIRSIZ then put_bs 0 (take DIRSIZ ?e) name else put_bs 0 (?e @ [0]) name) = take DIRSIZ ?e"
    by (rule name_of_put [OF assms(2)])
  have "path_elems ?rest = [] \<longleftrightarrow> ?rest = []"
    using path_elems_nil_iff [of ?rest] by (simp add: dropWhile_idem)
  moreover have "skipelem path name = Some (?rest,
      if length ?e \<ge> DIRSIZ then put_bs 0 (take DIRSIZ ?e) name else put_bs 0 (?e @ [0]) name)"
    unfolding skipelem_def Let_def Cons by (simp only: list.distinct if_False)
  ultimately show ?thesis unfolding el list.case using nm by blast
qed

theorem skipelem_walks_path_witness:
  "case path_elems [47, 97, 47, 47, 98] of
      [] \<Rightarrow> skipelem [47, 97, 47, 47, 98] (replicate DIRSIZ 7) = None
    | e # es \<Rightarrow> (\<exists>rest name'. skipelem [47, 97, 47, 47, 98] (replicate DIRSIZ 7) = Some (rest, name') \<and>
        name_of name' = take DIRSIZ e \<and> path_elems rest = es \<and> (rest = [] \<longleftrightarrow> es = []))"
  by (rule skipelem_walks_path) simp_all

end
