(* ===== verification/TxProof.thy ===== *)
theory TxProof
  imports Recovery
begin

text \<open>
  Updates inside a transaction: the pattern \<open>bread\<close>, change the data, \<open>log_write\<close>, \<open>brelse\<close> that
  every function of \<open>kernel/fs.c\<close> follows. The invariant counts the buffers that the transaction
  holds: the blocks it has logged, those it has locked (\<open>L\<close>), those it is known to log later
  (\<open>F\<close>) and \<open>k\<close> further ones. As long as they leave two buffers for \<open>commit\<close>, no step panics
  and the transaction stays ready to commit.
\<close>

section \<open>The invariant of an open transaction\<close>

definition logged :: "'a klog_scheme \<Rightarrow> uint32 set" where
  "logged s = set (take (nat (lh_n (lh s))) (lh_block (lh s)))"

definition in_tx :: "nat \<Rightarrow> uint32 set \<Rightarrow> uint32 set \<Rightarrow> nat \<Rightarrow> 'a klog_scheme \<Rightarrow> bool" where
  "in_tx me L F k s \<longleftrightarrow> bcache_inv s \<and> me < length (procs s) \<and> (\<forall>b. locked s b \<longleftrightarrow> b \<in> L) \<and> log_geom s \<and>
     0 \<le> lh_n (lh s) \<and> lh_n (lh s) \<le> int LOGBLOCKS \<and> distinct (take (nat (lh_n (lh s))) (lh_block (lh s))) \<and>
     card (F \<union> logged s \<union> L) + k + 2 \<le> NBUF \<and> logged s \<inter> log_area s = {} \<and>
     (\<forall>b. pins s b = of_bool (b \<in> logged s) + of_bool (b \<in> L)) \<and>
     (\<forall>b. b \<notin> logged s \<longrightarrow> bview s b = disk s b)"

text \<open>What no step of a transaction changes.\<close>

definition tx_same :: "nat \<Rightarrow> 'a klog_scheme \<Rightarrow> 'a klog_scheme \<Rightarrow> bool" where
  "tx_same me s t \<longleftrightarrow> mypid me t = mypid me s \<and> length (procs t) = length (procs s) \<and> disk t = disk s \<and> dtrace t = dtrace s \<and>
     log_start t = log_start s \<and> log_dev t = log_dev s \<and> log_outstanding t = log_outstanding s \<and>
     log_committing t = log_committing s \<and> klog.more t = klog.more s"

lemma tx_same_refl [simp]: "tx_same me s s"
  by (simp add: tx_same_def)

lemma tx_same_trans [trans]: "tx_same me s t \<Longrightarrow> tx_same me t u \<Longrightarrow> tx_same me s u"
  by (simp add: tx_same_def)

lemma tx_same_rest:
  assumes "same_rest me s t" "disk t = disk s" "dtrace t = dtrace s"
  shows "tx_same me s t"
  using assms same_rest_klog [OF assms(1)] by (simp add: tx_same_def same_rest_def)

lemma tx_same_area: "tx_same me s t \<Longrightarrow> log_area t = log_area s"
  by (simp add: tx_same_def log_area_def log_head_def log_slot_def)

lemma in_tx_header: "in_tx me L F k s \<Longrightarrow> nat (lh_n (lh s)) \<le> length (lh_block (lh s))"
  by (auto simp: in_tx_def log_geom_def)

lemma logged_homes:
  assumes "in_tx me L F k s"
  shows "homes s 0 (nat (lh_n (lh s))) = logged s"
  using nth_image [OF in_tx_header [OF assms]] by (simp add: homes_def logged_def atLeast0LessThan)

lemma card_logged:
  assumes "in_tx me L F k s"
  shows "card (logged s) = nat (lh_n (lh s))"
  using assms in_tx_header [OF assms] by (simp add: in_tx_def logged_def distinct_card)

lemma in_tx_mono: "in_tx me L F k s \<Longrightarrow> k' \<le> k \<Longrightarrow> in_tx me L F k' s"
  by (simp add: in_tx_def)

lemma in_tx_in_use: "in_tx me L F k s \<Longrightarrow> in_use s = logged s \<union> L"
  by (auto simp: in_tx_def in_use_def)

lemma in_tx_room:
  assumes "in_tx me L F k s"
  shows "card (in_use s) + 2 \<le> NBUF"
proof -
  have "card (in_use s) \<le> card (F \<union> logged s \<union> L)"
    unfolding in_tx_in_use [OF assms] by (intro card_mono) auto
  then show ?thesis using assms by (simp add: in_tx_def)
qed

lemma in_tx_ready:
  assumes "in_tx me {} F k s"
  shows "tx_ready me s"
  using assms in_tx_room [OF assms] logged_homes [OF assms] by (auto simp: tx_ready_def in_tx_def quiet_def)

section \<open>The steps\<close>

lemma logged_cong: "lh t = lh s \<Longrightarrow> logged t = logged s"
  by (simp add: logged_def)

lemma tx_bread:
  assumes tx: "in_tx me L F k s" and b: "b \<notin> L" and room: "b \<in> F \<union> logged s \<or> 0 < k"
  obtains i t where "bread me 1 b s = Ok (i, t)" "holds me t b i" "b_data (bufs t ! i) = bview s b" "bview t = bview s"
    "in_tx me (insert b L) F (if b \<in> F \<union> logged s then k else k - 1) t" "tx_same me s t" "lh t = lh s"
    "\<And>c j. holds me s c j \<Longrightarrow> holds me t c j"
proof -
  let ?U = "F \<union> logged s \<union> L"
  have inv: "bcache_inv s" and nl: "\<not> locked s b" and me: "me < length (procs s)" using tx b by (auto simp: in_tx_def)
  have "card (in_use s) < NBUF" using in_tx_room [OF tx] by simp
  then obtain i t where r: "bread me 1 b s = Ok (i, t)" "holds me t b i" "b_data (bufs t ! i) = bview s b"
    "bview t = bview s" "pins t = (pins s)(b := pins s b + 1)" "locked t = (locked s)(b := True)"
    "disk t = disk s" "dtrace t = dtrace s" "same_rest me s t" "\<And>c j. holds me s c j \<Longrightarrow> holds me t c j"
    using bread_full [OF inv nl _ me] by blast
  have same: "tx_same me s t" by (rule tx_same_rest [OF r(9,7,8)])
  have lh: "lh t = lh s" by (rule same_rest_klog(3) [OF r(9)])
  have cd: "card (F \<union> logged s \<union> insert b L) + (if b \<in> F \<union> logged s then k else k - 1) \<le> card ?U + k"
    using room b by (cases "b \<in> F \<union> logged s") (auto simp: insert_absorb)
  have "in_tx me (insert b L) F (if b \<in> F \<union> logged s then k else k - 1) t"
    unfolding in_tx_def logged_cong [OF lh] lh tx_same_area [OF same]
  proof (intro conjI)
    show "card (F \<union> logged s \<union> insert b L) + (if b \<in> F \<union> logged s then k else k - 1) + 2 \<le> NBUF"
      using cd tx unfolding in_tx_def by linarith
  qed (use tx b r holdsD(1,10) [OF r(2)] same in \<open>auto simp: in_tx_def log_geom_def lh tx_same_def\<close>)
  then show thesis by (rule that [OF r(1-4) _ same lh r(10)])
qed

lemma tx_brelse:
  assumes tx: "in_tx me L F k s" and h: "holds me s b i"
  obtains t where "brelse me i s = Ok t" "bview t = bview s"
    "in_tx me (L - {b}) F (if b \<in> F \<union> logged s then k else Suc k) t" "tx_same me s t" "lh t = lh s"
    "\<And>c j. holds me s c j \<Longrightarrow> c \<noteq> b \<Longrightarrow> holds me t c j"
proof -
  have b: "b \<in> L" using tx holdsD(7) [OF h] by (simp add: in_tx_def)
  have clean: "bview s b = disk s b" if "pins s b = 1" using tx b that by (auto simp: in_tx_def)
  obtain t where r: "brelse me i s = Ok t" "bcache_inv t" "bview t = bview s" "pins t = (pins s)(b := pins s b - 1)"
    "locked t = (locked s)(b := False)" "disk t = disk s" "dtrace t = dtrace s" "same_rest me s t"
    "\<And>c j. holds me s c j \<Longrightarrow> c \<noteq> b \<Longrightarrow> holds me t c j"
    using brelse_spec [OF h clean] by blast
  have same: "tx_same me s t" by (rule tx_same_rest [OF r(8,6,7)])
  have lh: "lh t = lh s" by (rule same_rest_klog(3) [OF r(8)])
  have cd: "card (F \<union> logged s \<union> (L - {b})) + (if b \<in> F \<union> logged s then k else Suc k) \<le> card (F \<union> logged s \<union> L) + k"
  proof (cases "b \<in> F \<union> logged s")
    case True
    then have "F \<union> logged s \<union> (L - {b}) = F \<union> logged s \<union> L" by auto
    then show ?thesis using True by simp
  next
    case False
    then have "F \<union> logged s \<union> L = insert b (F \<union> logged s \<union> (L - {b}))" "b \<notin> F \<union> logged s \<union> (L - {b})" using b by auto
    then have "card (F \<union> logged s \<union> L) = Suc (card (F \<union> logged s \<union> (L - {b})))" by (metis card_insert_disjoint finite)
    then show ?thesis using False by simp
  qed
  have "in_tx me (L - {b}) F (if b \<in> F \<union> logged s then k else Suc k) t"
    unfolding in_tx_def logged_cong [OF lh] lh tx_same_area [OF same]
  proof (intro conjI)
    show "card (F \<union> logged s \<union> (L - {b})) + (if b \<in> F \<union> logged s then k else Suc k) + 2 \<le> NBUF"
      using cd tx unfolding in_tx_def by linarith
  qed (use tx b r same holdsD(10) [OF h] in \<open>auto simp: in_tx_def log_geom_def lh tx_same_def\<close>)
  then show thesis by (rule that [OF r(1,3) _ same lh r(9)])
qed

text \<open>\<open>log_write\<close> finds the block in the header or appends it.\<close>

lemma log_find_spec:
  assumes "i \<le> nat (lh_n h)" "nat (lh_n h) \<le> length (lh_block h)"
  shows "log_find b h i \<le> nat (lh_n h)"
    "log_find b h i < nat (lh_n h) \<Longrightarrow> lh_block h ! log_find b h i = b"
    "log_find b h i = nat (lh_n h) \<Longrightarrow> i \<le> j \<Longrightarrow> j < nat (lh_n h) \<Longrightarrow> lh_block h ! j \<noteq> b"
proof -
  have "log_find b h i \<le> nat (lh_n h) \<and> (log_find b h i < nat (lh_n h) \<longrightarrow> lh_block h ! log_find b h i = b) \<and>
     (log_find b h i = nat (lh_n h) \<longrightarrow> (\<forall>j. i \<le> j \<longrightarrow> j < nat (lh_n h) \<longrightarrow> lh_block h ! j \<noteq> b))"
    using assms
  proof (induction b h i rule: log_find.induct)
    case (1 b h i)
    show ?case
    proof (cases "int i < lh_n h \<and> lh_block h ! i \<noteq> b")
      case True
      then have e: "log_find b h i = log_find b h (Suc i)" by (subst log_find.simps) simp
      have "Suc i \<le> nat (lh_n h)" using True by linarith
      then have IH: "log_find b h (Suc i) \<le> nat (lh_n h)"
        "log_find b h (Suc i) < nat (lh_n h) \<longrightarrow> lh_block h ! log_find b h (Suc i) = b"
        "log_find b h (Suc i) = nat (lh_n h) \<Longrightarrow> Suc i \<le> j \<Longrightarrow> j < nat (lh_n h) \<Longrightarrow> lh_block h ! j \<noteq> b" for j
        using 1(1) [OF True _ 1(3)] by blast+
      have "lh_block h ! j \<noteq> b" if "log_find b h (Suc i) = nat (lh_n h)" "i \<le> j" "j < nat (lh_n h)" for j
        using IH(3) [of j] that True by (cases "j = i") auto
      then show ?thesis unfolding e using IH(1,2) by blast
    next
      case False
      have "log_find b h i = i" by (subst log_find.simps) (simp only: False if_False)
      then show ?thesis using 1(2) False by auto
    qed
  qed
  then show "log_find b h i \<le> nat (lh_n h)" "log_find b h i < nat (lh_n h) \<Longrightarrow> lh_block h ! log_find b h i = b"
    "log_find b h i = nat (lh_n h) \<Longrightarrow> i \<le> j \<Longrightarrow> j < nat (lh_n h) \<Longrightarrow> lh_block h ! j \<noteq> b" by blast+
qed

lemma log_write_cases:
  assumes geom: "length (lh_block (lh s)) = LOGBLOCKS" "0 \<le> lh_n (lh s)" "lh_n (lh s) < int LOGBLOCKS"
    and out: "1 \<le> log_outstanding s" and b: "b_blockno (bufs s ! i) = b"
  shows "b \<in> logged s \<Longrightarrow> log_write i s = Ok s"
    "b \<notin> logged s \<Longrightarrow> log_write i s = Ok (bpin i (s\<lparr>lh := \<lparr>lh_n = lh_n (lh s) + 1,
       lh_block = (lh_block (lh s))[nat (lh_n (lh s)) := b]\<rparr>\<rparr>))"
proof -
  let ?n = "nat (lh_n (lh s))" and ?i = "log_find b (lh s) 0"
  have f: "?i \<le> ?n" "?i < ?n \<Longrightarrow> lh_block (lh s) ! ?i = b" "?i = ?n \<Longrightarrow> j < ?n \<Longrightarrow> lh_block (lh s) ! j \<noteq> b" for j
    using log_find_spec [of 0 "lh s" b] geom by auto
  have m: "b \<in> logged s \<longleftrightarrow> (\<exists>j<?n. lh_block (lh s) ! j = b)"
    using geom by (auto simp: logged_def in_set_conv_nth)
  have lw: "log_write i s = (let t = s\<lparr>lh := (lh s)\<lparr>lh_block := (lh_block (lh s))[?i := b]\<rparr>\<rparr> in
      if ?i = ?n then Ok (set_n (lh_n (lh s) + 1) (bpin i t)) else Ok t)"
    using geom out b by (auto simp: log_write_def Let_def)
  show "log_write i s = Ok s" if "b \<in> logged s"
  proof -
    have i: "?i < ?n" using that m f(1,3) by (metis le_eq_less_or_eq)
    then have "(lh_block (lh s))[?i := b] = lh_block (lh s)" using f(2) list_update_id by metis
    then show ?thesis using i by (simp add: lw)
  qed
  show "log_write i s = Ok (bpin i (s\<lparr>lh := \<lparr>lh_n = lh_n (lh s) + 1, lh_block = (lh_block (lh s))[?n := b]\<rparr>\<rparr>))" if "b \<notin> logged s"
  proof -
    have "?i = ?n" using that m f(1,2) by (metis le_eq_less_or_eq)
    then show ?thesis by (simp add: lw set_n_def bpin_def upd_buf_def)
  qed
qed

lemma lh_upd_cache [simp]:
  "bview (s\<lparr>lh := x\<rparr>) = bview s" "pins (s\<lparr>lh := x\<rparr>) = pins s" "locked (s\<lparr>lh := x\<rparr>) = locked s"
  "bcache_inv (s\<lparr>lh := x\<rparr>) = bcache_inv s" "holds me (s\<lparr>lh := x\<rparr>) b i = holds me s b i"
proof -
  show "bview (s\<lparr>lh := x\<rparr>) = bview s" "pins (s\<lparr>lh := x\<rparr>) = pins s" "locked (s\<lparr>lh := x\<rparr>) = locked s"
    by (rule bmap_cong; simp)+
  show "bcache_inv (s\<lparr>lh := x\<rparr>) = bcache_inv s" by (simp add: bcache_inv_def)
  then show "holds me (s\<lparr>lh := x\<rparr>) b i = holds me s b i" by (simp add: holds_def cached_def mypid_def)
qed

lemma in_tx_not_full: "in_tx me L F k s \<Longrightarrow> lh_n (lh s) < int LOGBLOCKS"
proof -
  assume tx: "in_tx me L F k s"
  have "card (logged s) \<le> card (F \<union> logged s \<union> L)" by (intro card_mono) auto
  then have "card (logged s) + 2 \<le> NBUF" using tx by (simp add: in_tx_def)
  then show ?thesis using tx card_logged [OF tx] by (simp add: in_tx_def NBUF_def LOGBLOCKS_def)
qed

lemma logged_append:
  assumes "0 \<le> n" "nat n < length bs"
  shows "set (take (nat (n + 1)) (bs[nat n := b])) = insert b (set (take (nat n) bs))"
    "b \<notin> set (take (nat n) bs) \<Longrightarrow> distinct (take (nat n) bs) \<Longrightarrow> distinct (take (nat (n + 1)) (bs[nat n := b]))"
proof -
  have "take (nat (n + 1)) (bs[nat n := b]) = take (nat n) bs @ [b]"
    using assms by (simp add: nat_add_distrib take_Suc_conv_app_nth take_update_swap list_update_append)
  then show "set (take (nat (n + 1)) (bs[nat n := b])) = insert b (set (take (nat n) bs))"
    "b \<notin> set (take (nat n) bs) \<Longrightarrow> distinct (take (nat n) bs) \<Longrightarrow> distinct (take (nat (n + 1)) (bs[nat n := b]))"
    by simp_all
qed

lemma tx_log_write:
  assumes tx: "in_tx me L F k s" and h: "holds me s b i" and d: "length d = BSIZE" and area: "b \<notin> log_area s"
    and out: "1 \<le> log_outstanding s"
  obtains t where "log_write i (set_data i d s) = Ok t" "holds me t b i" "bview t = (bview s)(b := d)" "in_tx me L F k t"
    "tx_same me s t" "logged t = insert b (logged s)" "\<And>c j. holds me s c j \<Longrightarrow> holds me t c j"
proof -
  let ?u = "set_data i d s"
  note u = set_data_spec [OF h d]
  have sr: "lh ?u = lh s" "log_outstanding ?u = log_outstanding s" using same_rest_klog [OF u(7)] by auto
  have b: "b \<in> L" using tx holdsD(7) [OF h] by (simp add: in_tx_def)
  have bn: "b_blockno (bufs ?u ! i) = b" using holdsD(2) [OF u(1)] by (simp add: buf_at_def)
  have n: "length (lh_block (lh ?u)) = LOGBLOCKS" "0 \<le> lh_n (lh ?u)" "lh_n (lh ?u) < int LOGBLOCKS" "1 \<le> log_outstanding ?u"
    using tx in_tx_not_full [OF tx] out by (auto simp: sr in_tx_def log_geom_def)
  have same: "tx_same me s ?u" by (rule tx_same_rest [OF u(7,5,6)])
  show thesis
  proof (cases "b \<in> logged s")
    case True
    then have lw: "log_write i ?u = Ok ?u" using log_write_cases(1) [OF n bn] by (simp add: logged_cong [OF sr(1)])
    have "in_tx me L F k ?u"
      unfolding in_tx_def logged_cong [OF sr(1)] sr tx_same_area [OF same]
      using tx True u holdsD(1,10) [OF u(1)] same by (auto simp: in_tx_def log_geom_def sr tx_same_def)
    then show thesis
      using True by (intro that [OF lw u(1,2) _ same _ u(8)]) (auto simp: logged_cong [OF sr(1)])
  next
    case False
    let ?h = "\<lparr>lh_n = lh_n (lh s) + 1, lh_block = (lh_block (lh s))[nat (lh_n (lh s)) := b]\<rparr>"
    let ?v = "?u\<lparr>lh := ?h\<rparr>" and ?t = "bpin i (?u\<lparr>lh := ?h\<rparr>)"
    have lw: "log_write i ?u = Ok ?t" using False log_write_cases(2) [OF n bn] by (simp add: logged_cong [OF sr(1)] sr)
    have hv: "holds me ?v b i" using u(1) by simp
    note p = bpin_spec [OF hv]
    have lt: "lh ?t = ?h" using same_rest_klog(3) [OF p(7)] by simp
    have len: "0 \<le> lh_n (lh s)" "nat (lh_n (lh s)) < length (lh_block (lh s))" using n sr by auto
    have lg: "logged ?t = insert b (logged s)" unfolding logged_def lt using logged_append(1) [OF len] by simp
    have "distinct (take (nat (lh_n ?h)) (lh_block ?h))"
      using logged_append(2) [OF len] False tx by (simp add: logged_def in_tx_def)
    moreover have same': "tx_same me s ?t"
      using same p(7) same_rest_klog [OF p(7)] p(5,6) by (simp add: tx_same_def same_rest_def mypid_def)
    moreover have "F \<union> insert b (logged s) \<union> L = F \<union> logged s \<union> L" using b by auto
    ultimately have "in_tx me L F k ?t"
      unfolding in_tx_def lg lt tx_same_area [OF same'] using tx b False area n(3) holdsD(1,10) [OF p(1)] p(2-6) u(2-5)
      by (auto simp: in_tx_def log_geom_def lt sr tx_same_def)
    moreover have "bview ?t = (bview s)(b := d)" using p(2) u(2) by simp
    moreover have "holds me ?t c j" if "holds me s c j" for c j using u(8) [OF that] p(8) by simp
    ultimately show thesis by (intro that [OF lw p(1) _ _ same' lg]) auto
  qed
qed

text \<open>Looking at a block, and replacing the contents of a block.\<close>

lemma tx_peek:
  assumes tx: "in_tx me L F k s" and b: "b \<notin> L" and room: "b \<in> F \<union> logged s \<or> 0 < k"
  obtains i u t where "bread me 1 b s = Ok (i, u)" "b_data (bufs u ! i) = bview s b" "tx_same me s u" "brelse me i u = Ok t"
    "bview t = bview s" "in_tx me L F k t" "tx_same me s t" "lh t = lh s" "\<And>c j. holds me s c j \<Longrightarrow> holds me t c j"
proof -
  obtain i u where r: "bread me 1 b s = Ok (i, u)" "holds me u b i" "b_data (bufs u ! i) = bview s b" "bview u = bview s"
    "in_tx me (insert b L) F (if b \<in> F \<union> logged s then k else k - 1) u" "tx_same me s u" "lh u = lh s"
    "\<And>c j. holds me s c j \<Longrightarrow> holds me u c j"
    using tx_bread [OF assms] by metis
  have lu: "logged u = logged s" by (rule logged_cong [OF r(7)])
  obtain t where t: "brelse me i u = Ok t" "bview t = bview u" "tx_same me u t" "lh t = lh u"
    "in_tx me (insert b L - {b}) F (if b \<in> F \<union> logged u then (if b \<in> F \<union> logged s then k else k - 1)
        else Suc (if b \<in> F \<union> logged s then k else k - 1)) t" "\<And>c j. holds me u c j \<Longrightarrow> c \<noteq> b \<Longrightarrow> holds me t c j"
    using tx_brelse [OF r(5,2)] by metis
  have "in_tx me L F k t" using t(5) b room unfolding lu by (simp split: if_splits)
  moreover have "c \<noteq> b" if "holds me s c j" for c j using holdsD(7) [OF that] tx b by (auto simp: in_tx_def)
  ultimately show thesis
    using r t by (intro that [OF r(1,3,6) t(1)]) (auto intro: tx_same_trans [OF r(6) t(3)])
qed

lemma tx_modify:
  assumes tx: "in_tx me L F k s" and b: "b \<notin> L" and room: "b \<in> F \<union> logged s \<or> 0 < k" and area: "b \<notin> log_area s"
    and out: "1 \<le> log_outstanding s"
  obtains i u where "bread me 1 b s = Ok (i, u)" "b_data (bufs u ! i) = bview s b" "tx_same me s u"
    "\<And>d. length d = BSIZE \<Longrightarrow> \<exists>v t. log_write i (set_data i d u) = Ok v \<and> brelse me i v = Ok t \<and>
       bview t = (bview s)(b := d) \<and> in_tx me L F (if b \<in> F \<union> logged s then k else k - 1) t \<and> tx_same me s t \<and>
       logged t = insert b (logged s) \<and> (\<forall>c j. holds me s c j \<longrightarrow> holds me t c j)"
proof -
  let ?k = "if b \<in> F \<union> logged s then k else k - 1"
  obtain i u where r: "bread me 1 b s = Ok (i, u)" "holds me u b i" "b_data (bufs u ! i) = bview s b" "bview u = bview s"
    "in_tx me (insert b L) F ?k u" "tx_same me s u" "lh u = lh s"
    "\<And>c j. holds me s c j \<Longrightarrow> holds me u c j"
    using tx_bread [OF assms(1-3)] by metis
  have lu: "logged u = logged s" by (rule logged_cong [OF r(7)])
  have ne: "c \<noteq> b" if "holds me s c j" for c j using holdsD(7) [OF that] tx b by (auto simp: in_tx_def)
  have ou: "b \<notin> log_area u" "1 \<le> log_outstanding u" using area out tx_same_area [OF r(6)] r(6) by (simp_all add: tx_same_def)
  have "\<exists>v t. log_write i (set_data i d u) = Ok v \<and> brelse me i v = Ok t \<and>
       bview t = (bview s)(b := d) \<and> in_tx me L F ?k t \<and> tx_same me s t \<and>
       logged t = insert b (logged s) \<and> (\<forall>c j. holds me s c j \<longrightarrow> holds me t c j)" if d: "length d = BSIZE" for d
  proof -
    obtain v where v: "log_write i (set_data i d u) = Ok v" "holds me v b i" "bview v = (bview u)(b := d)"
      "in_tx me (insert b L) F ?k v" "tx_same me u v" "logged v = insert b (logged u)" "\<And>c j. holds me u c j \<Longrightarrow> holds me v c j"
      using tx_log_write [OF r(5,2) d ou] by metis
    obtain t where t: "brelse me i v = Ok t" "bview t = bview v" "tx_same me v t" "lh t = lh v"
      "in_tx me (insert b L - {b}) F (if b \<in> F \<union> logged v then ?k else Suc ?k) t"
      "\<And>c j. holds me v c j \<Longrightarrow> c \<noteq> b \<Longrightarrow> holds me t c j"
      using tx_brelse [OF v(4,2)] by metis
    have "in_tx me L F ?k t" using t(5) b v(6) by simp
    moreover have "tx_same me s t" by (rule tx_same_trans [OF r(6) tx_same_trans [OF v(5) t(3)]])
    moreover have "holds me t c j" if "holds me s c j" for c j using t(6) v(7) r(8) ne that by blast
    ultimately show ?thesis
      using v t r(4) lu logged_cong [OF t(4)] by (intro exI [of _ v] exI [of _ t]) auto
  qed
  then show thesis by (rule that [OF r(1,3,6)])
qed

section \<open>A whole transaction\<close>

text \<open>No transaction is open and nothing waits in the log.\<close>

definition tx_idle :: "nat \<Rightarrow> 'a klog_scheme \<Rightarrow> bool" where
  "tx_idle me s \<longleftrightarrow> booted me s \<and> lh_n (lh s) = 0 \<and> log_outstanding s = 0 \<and> log_committing s = 0 \<and>
     head_n (disk s (log_head s)) = 0"

lemma log_upd_cache [simp]:
  "bview (s\<lparr>log_outstanding := x\<rparr>) = bview s" "pins (s\<lparr>log_outstanding := x\<rparr>) = pins s" "locked (s\<lparr>log_outstanding := x\<rparr>) = locked s"
  "bview (s\<lparr>log_committing := x\<rparr>) = bview s" "pins (s\<lparr>log_committing := x\<rparr>) = pins s" "locked (s\<lparr>log_committing := x\<rparr>) = locked s"
  "bcache_inv (s\<lparr>log_outstanding := x\<rparr>) = bcache_inv s" "bcache_inv (s\<lparr>log_committing := x\<rparr>) = bcache_inv s"
proof -
  show "bview (s\<lparr>log_outstanding := x\<rparr>) = bview s" "pins (s\<lparr>log_outstanding := x\<rparr>) = pins s" "locked (s\<lparr>log_outstanding := x\<rparr>) = locked s"
    "bview (s\<lparr>log_committing := x\<rparr>) = bview s" "pins (s\<lparr>log_committing := x\<rparr>) = pins s" "locked (s\<lparr>log_committing := x\<rparr>) = locked s"
    by (rule bmap_cong; simp)+
qed (simp_all add: bcache_inv_def)

lemma log_upd_geom [simp]:
  "log_geom (s\<lparr>log_outstanding := x\<rparr>) = log_geom s" "log_geom (s\<lparr>log_committing := x\<rparr>) = log_geom s"
  "log_area (s\<lparr>log_outstanding := x\<rparr>) = log_area s" "log_area (s\<lparr>log_committing := x\<rparr>) = log_area s"
  "log_head (s\<lparr>log_outstanding := x\<rparr>) = log_head s" "log_head (s\<lparr>log_committing := x\<rparr>) = log_head s"
  "homes (s\<lparr>log_outstanding := x\<rparr>) = homes s" "homes (s\<lparr>log_committing := x\<rparr>) = homes s"
  "log_slot (s\<lparr>log_outstanding := x\<rparr>) = log_slot s" "log_slot (s\<lparr>log_committing := x\<rparr>) = log_slot s"
  by (simp_all add: log_geom_def log_area_def log_head_def log_slot_def homes_def fun_eq_iff)

lemma tx_begin:
  assumes "tx_idle me s" "card F + k + 2 \<le> NBUF"
  shows "begin_op s = Ok (s\<lparr>log_outstanding := 1\<rparr>) \<and> in_tx me {} F k (s\<lparr>log_outstanding := 1\<rparr>)"
proof -
  have "logged (s\<lparr>log_outstanding := 1\<rparr>) = {}" using assms(1) by (simp add: logged_def tx_idle_def)
  then have "in_tx me {} F k (s\<lparr>log_outstanding := 1\<rparr>)"
    using assms booted_bview [of me s] by (auto simp: in_tx_def tx_idle_def booted_def quiet_def)
  then show ?thesis using assms(1) by (simp add: begin_op_def tx_idle_def MAXOPBLOCKS_def LOGBLOCKS_def)
qed

text \<open>The disk after the transaction is what readers saw during it.\<close>

lemma tx_blocks_view:
  assumes "in_tx me L F k s"
  shows "apply_writes (tx_blocks s) (disk s) = bview s"
proof
  fix b
  let ?n = "nat (lh_n (lh s))"
  have f: "map fst (tx_blocks s) = take ?n (lh_block (lh s))"
    using in_tx_header [OF assms] by (intro nth_equalityI) (simp_all add: tx_blocks_def)
  then have fs: "fst ` set (tx_blocks s) = logged s" unfolding logged_def by (metis set_map)
  show "apply_writes (tx_blocks s) (disk s) b = bview s b"
  proof (cases "b \<in> logged s")
    case True
    then have "(b, bview s b) \<in> set (tx_blocks s)" using fs [symmetric] by (auto simp: tx_blocks_def)
    then show ?thesis using assms f by (intro apply_writes_same) (simp_all add: in_tx_def)
  next
    case False
    then show ?thesis using assms fs by (simp add: apply_writes_other in_tx_def)
  qed
qed

lemma log_wakeup [simp]:
  "log_start (wakeup ch x s) = log_start s" "lh (wakeup ch x s) = lh s" "log_dev (wakeup ch x s) = log_dev s"
  "log_outstanding (wakeup ch x s) = log_outstanding s" "log_committing (wakeup ch x s) = log_committing s"
  "klog.more (wakeup ch x s) = klog.more s"
  by (simp_all add: wakeup_def)

lemma booted_wakeup [simp]: "booted me (wakeup ch x s) = booted me s"
proof -
  have "pins (wakeup ch x s) = pins s" "locked (wakeup ch x s) = locked s" by (rule bmap_cong; simp)+
  then show ?thesis by (simp add: booted_def quiet_def log_geom_def)
qed

lemma booted_committing [simp]: "booted me (s\<lparr>log_committing := x\<rparr>) = booted me s"
  by (simp add: booted_def quiet_def)

lemma log_head_wakeup [simp]: "log_head (wakeup ch x s) = log_head s"
  by (simp add: log_head_def)

text \<open>What \<open>commit\<close> does to the disk: nothing, if nothing was logged.\<close>

definition tx_writes :: "'a klog_scheme \<Rightarrow> writes" where
  "tx_writes s = (if 0 < lh_n (lh s) then commit_writes s else [])"

lemma commit_tx:
  assumes tx: "in_tx me {} F k s" and clean: "head_n (disk s (log_head s)) = 0"
  defines "u \<equiv> s\<lparr>log_outstanding := 0, log_committing := 1\<rparr>"
  shows "\<exists>t. commit me u = Ok t \<and> booted me t \<and> lh_n (lh t) = 0 \<and> dtrace t = dtrace s @ tx_writes s \<and>
     head_n (disk t (log_head t)) = 0 \<and> log_start t = log_start s \<and> log_outstanding t = 0 \<and>
     klog.more t = klog.more s \<and> (\<forall>b. b \<notin> log_area s \<longrightarrow> disk t b = bview s b)"
proof -
  have r: "tx_ready me u" using in_tx_ready [OF tx] by (simp add: u_def tx_ready_def quiet_def in_use_def)
  have w: "commit_writes u = commit_writes s" "tx_blocks u = tx_blocks s"
    by (simp_all add: u_def commit_writes_def tx_blocks_def log_copies_def)
  have e: "pins u = pins s" "lh u = lh s" "disk u = disk s" "dtrace u = dtrace s" "log_start u = log_start s"
    "log_area u = log_area s" "log_head u = log_head s" "log_geom u" "homes u = homes s" "log_outstanding u = 0" "klog.more u = klog.more s"
    using tx by (simp_all add: u_def in_tx_def)
  show ?thesis
  proof (cases "0 < lh_n (lh s)")
    case True
    then obtain t where t: "commit me u = Ok t" "dtrace t = dtrace u @ commit_writes u"
      "disk t = apply_writes (commit_writes u) (disk u)" "quiet me t" "lh t = (lh u)\<lparr>lh_n := 0\<rparr>"
      "log_start t = log_start u" "log_dev t = log_dev u"
      "log_outstanding t = log_outstanding u" "klog.more t = klog.more u"
      "\<forall>x. pins t x = pins u x - (if x \<in> homes u 0 (nat (lh_n (lh u))) then 1 else 0)"
      using commit_spec [OF r] by (auto simp: e(2))
    have "pins t x = 0" for x
      using t(10) tx logged_homes [OF tx] by (simp add: e in_tx_def)
    then have "booted me t" using t(4-7) e(8) by (simp add: booted_def log_geom_def)
    moreover have "log_head t = log_head u" using t(6) by (simp add: log_head_def)
    ultimately show ?thesis
      using t True commit_complete(1,3) [OF r] tx_blocks_view [OF tx] by (simp add: w e tx_writes_def)
  next
    case False
    then have z: "lh_n (lh s) = 0" "logged s = {}" using tx by (auto simp: in_tx_def logged_def)
    then have "commit me u = Ok u" by (simp add: commit_def e)
    moreover have "booted me u" using r tx z(2) e(1,8) by (simp add: booted_def tx_ready_def in_tx_def)
    moreover have "bview s = disk s" using tx z(2) by (simp add: in_tx_def fun_eq_iff)
    ultimately show ?thesis using z(1) e clean by (simp add: tx_writes_def)
  qed
qed

lemma tx_end:
  assumes tx: "in_tx me {} F k s" and out: "log_outstanding s = 1" "log_committing s = 0"
    and clean: "head_n (disk s (log_head s)) = 0"
  shows "\<exists>t. end_op me s = Ok t \<and> tx_idle me t \<and> dtrace t = dtrace s @ tx_writes s \<and> log_start t = log_start s \<and>
     klog.more t = klog.more s \<and> (\<forall>b. b \<notin> log_area s \<longrightarrow> disk t b = bview s b)"
proof -
  let ?u = "s\<lparr>log_outstanding := 0, log_committing := 1\<rparr>"
  obtain t where t: "commit me ?u = Ok t" "booted me t" "lh_n (lh t) = 0" "dtrace t = dtrace s @ tx_writes s"
    "head_n (disk t (log_head t)) = 0" "log_start t = log_start s" "log_outstanding t = 0"
    "klog.more t = klog.more s" "\<forall>b. b \<notin> log_area s \<longrightarrow> disk t b = bview s b"
    using commit_tx [OF tx clean] by blast
  have "end_op me s = Ok (wakeup LogChan (Some me) (t\<lparr>log_committing := 0\<rparr>))"
    using out t(1) by (simp add: end_op_def Let_def)
  then show ?thesis using t
    by (intro exI [of _ "wakeup LogChan (Some me) (t\<lparr>log_committing := 0\<rparr>)"]) (simp add: tx_idle_def)
qed

text \<open>A crash while the transaction is being committed.\<close>

lemma tx_crash:
  assumes tx: "in_tx me {} F k s" and clean: "head_n (disk s (log_head s)) = 0"
    and x: "booted p x" "log_start x = log_start s" "cut_recoveries s (apply_writes (take j (tx_writes s)) (disk s)) (disk x)"
  shows "\<exists>t. recover_from_log p x = Ok t \<and> booted p t \<and> lh_n (lh t) = 0 \<and>
     ((\<forall>b. b \<notin> log_area s \<longrightarrow> disk t b = disk s b) \<or> (\<forall>b. b \<notin> log_area s \<longrightarrow> disk t b = bview s b))"
proof -
  have "\<exists>j'. take j (tx_writes s) = take j' (commit_writes s)"
    by (cases "0 < lh_n (lh s)") (auto simp: tx_writes_def intro: exI [of _ 0])
  then obtain j' where "take j (tx_writes s) = take j' (commit_writes s)" by blast
  then show ?thesis
    using crash_recovery [OF in_tx_ready [OF tx] clean x(1,2), of j'] x(3) by (simp add: tx_blocks_view [OF tx])
qed

end
