(* ===== verification/BlockProof.thy ===== *)
theory BlockProof
  imports FsProof TxProof
begin

text \<open>
  The block allocator of \<open>kernel/fs.c\<close> inside a transaction: \<open>balloc\<close> takes the first free block
  and \<open>bfree\<close> gives one back. The state of the allocator is the bitmap as readers of the cache
  see it.
\<close>

section \<open>The bitmap\<close>

lemma mask_clear: "x AND bit_mask bi = 0 \<longleftrightarrow> \<not> bit x (bi mod 8)"
proof -
  have "bit (x AND bit_mask bi) n \<longleftrightarrow> n = bi mod 8 \<and> bit x (bi mod 8)" for n
    by (auto simp: bit_mask_def bit_simps)
  then show ?thesis by (auto simp: bit_eq_iff [of "x AND bit_mask bi" 0])
qed

lemma bit_or_mask: "bit (x OR bit_mask bi) n \<longleftrightarrow> bit x n \<or> n = bi mod 8"
proof -
  have "bi mod 8 < LENGTH(8)" by simp
  then show ?thesis by (auto simp: bit_mask_def bit_simps)
qed

lemma bit_and_not_mask: "bit (x AND NOT (bit_mask bi)) n \<longleftrightarrow> bit x n \<and> n \<noteq> bi mod 8"
  by (auto simp: bit_mask_def bit_simps dest: bit_imp_le_length)

text \<open>Bit \<open>bi\<close> of a bitmap block.\<close>

definition map_bit :: "byte list \<Rightarrow> nat \<Rightarrow> bool" where
  "map_bit bs bi = bit (bs ! (bi div 8)) (bi mod 8)"

lemma same_div_mod: "x div n = y div n \<Longrightarrow> x mod n = y mod n \<longleftrightarrow> x = y" for n :: nat
  by (metis div_mult_mod_eq)

lemma map_bit_update:
  assumes "bi < 8 * length bs"
  shows "map_bit (bs[bi div 8 := v]) x = (if x div 8 = bi div 8 then bit v (x mod 8) else map_bit bs x)"
proof -
  have "bi div 8 < length bs" using assms by (simp add: less_mult_imp_div_less mult.commute)
  then show ?thesis by (simp add: map_bit_def nth_list_update)
qed

lemma map_bit_set:
  assumes "bi < 8 * length bs"
  shows "map_bit (bs[bi div 8 := (bs ! (bi div 8)) OR bit_mask bi]) x \<longleftrightarrow> x = bi \<or> map_bit bs x"
  unfolding map_bit_update [OF assms] bit_or_mask using same_div_mod [of x 8 bi] by (auto simp only: map_bit_def split: if_split)

lemma map_bit_clear:
  assumes "bi < 8 * length bs"
  shows "map_bit (bs[bi div 8 := (bs ! (bi div 8)) AND NOT (bit_mask bi)]) x \<longleftrightarrow> x \<noteq> bi \<and> map_bit bs x"
  unfolding map_bit_update [OF assms] bit_and_not_mask using same_div_mod [of x 8 bi] by (auto simp only: map_bit_def split: if_split)

lemma balloc_scan_spec:
  "case balloc_scan bs sz b bi of
     Some x \<Rightarrow> bi \<le> x \<and> x < BPB \<and> b + x < sz \<and> \<not> map_bit bs x \<and> (\<forall>y. bi \<le> y \<and> y < x \<longrightarrow> map_bit bs y)
   | None \<Rightarrow> \<forall>y. bi \<le> y \<and> y < BPB \<and> b + y < sz \<longrightarrow> map_bit bs y"
proof (induction bs sz b bi rule: balloc_scan.induct)
  case (1 bs sz b bi)
  show ?case
  proof (cases "bi < BPB \<and> b + bi < sz")
    case False
    then show ?thesis by (subst balloc_scan.simps) auto
  next
    case True
    note IH = 1 [OF True]
    have bi: "(bs ! (bi div 8)) AND bit_mask bi = 0 \<longleftrightarrow> \<not> map_bit bs bi" by (simp add: mask_clear map_bit_def)
    show ?thesis
    proof (cases "map_bit bs bi")
      case False
      then show ?thesis using True by (subst balloc_scan.simps) (auto simp: bi)
    next
      case b: True
      have step: "map_bit bs y" if "bi \<le> y" "Suc bi \<le> y \<Longrightarrow> map_bit bs y" for y
        using that b by (cases "y = bi") auto
      have "balloc_scan bs sz b bi = balloc_scan bs sz b (Suc bi)"
        using True b by (subst balloc_scan.simps) (simp add: bi)
      then show ?thesis using IH b step by (simp add: bi split: option.splits) (meson Suc_leD)+
    qed
  qed
qed

text \<open>Whether block \<open>b\<close> is marked, given the contents \<open>V\<close> of the blocks.\<close>

definition used :: "(uint32 \<Rightarrow> byte list) \<Rightarrow> superblock \<Rightarrow> nat \<Rightarrow> bool" where
  "used V sp b = map_bit (V (BBLOCK (of_nat b) sp)) (b mod BPB)"

definition bitmap_blocks :: "superblock \<Rightarrow> uint32 set" where
  "bitmap_blocks sp = (\<lambda>b. BBLOCK (of_nat b) sp) ` {..<unat (sb_size sp)}"

definition mark :: "superblock \<Rightarrow> nat \<Rightarrow> (uint32 \<Rightarrow> byte list) \<Rightarrow> uint32 \<Rightarrow> byte list" where
  "mark sp x V = (let c = BBLOCK (of_nat x) sp; bi = x mod BPB in
     V(c := (V c)[bi div 8 := (V c ! (bi div 8)) OR bit_mask bi]))"

definition unmark :: "superblock \<Rightarrow> nat \<Rightarrow> (uint32 \<Rightarrow> byte list) \<Rightarrow> uint32 \<Rightarrow> byte list" where
  "unmark sp x V = (let c = BBLOCK (of_nat x) sp; bi = x mod BPB in
     V(c := (V c)[bi div 8 := (V c ! (bi div 8)) AND NOT (bit_mask bi)]))"

lemma BPB_pos [simp]: "0 < BPB"
  by (simp add: BPB_def BSIZE_def)

lemma unat_size_32:
  assumes "x < unat (n :: uint32)"
  shows "unat (of_nat x :: uint32) = x"
proof -
  have "x < 2 ^ LENGTH(32)" by (rule less_trans [OF assms unsigned_less])
  then show ?thesis unfolding unat_of_nat by (rule mod_less)
qed

lemma BBLOCK_eq_iff:
  assumes "x < unat (sb_size sp)" "y < unat (sb_size sp)"
  shows "BBLOCK (of_nat x) sp = BBLOCK (of_nat y) sp \<longleftrightarrow> x div BPB = y div BPB"
proof -
  have "unat (of_nat (x div BPB) :: uint32) = x div BPB" "unat (of_nat (y div BPB) :: uint32) = y div BPB"
    using assms by (auto intro!: unat_size_32 [of _ "sb_size sp"] le_less_trans [OF div_le_dividend])
  moreover have "BBLOCK (of_nat x) sp = BBLOCK (of_nat y) sp \<longleftrightarrow> (of_nat (x div BPB) :: uint32) = of_nat (y div BPB)"
    unfolding BBLOCK_def unat_size_32 [OF assms(1)] unat_size_32 [OF assms(2)] by (rule add_right_cancel)
  ultimately show ?thesis by metis
qed

lemma used_update:
  assumes "x < unat (sb_size sp)" "y < unat (sb_size sp)"
  shows "used (V(BBLOCK (of_nat x) sp := bs)) sp y = (if y div BPB = x div BPB then map_bit bs (y mod BPB) else used V sp y)"
  using BBLOCK_eq_iff [OF assms(2,1)] by (simp add: used_def)

lemma used_mark:
  assumes "x < unat (sb_size sp)" "y < unat (sb_size sp)" "length (V (BBLOCK (of_nat x) sp)) = BSIZE"
  shows "used (mark sp x V) sp y \<longleftrightarrow> y = x \<or> used V sp y"
proof -
  let ?c = "BBLOCK (of_nat x) sp"
  have lt: "x mod BPB < 8 * length (V ?c)" using assms(3) mod_less_divisor [OF BPB_pos, of x] by (simp add: BPB_def)
  have "y div BPB = x div BPB \<Longrightarrow> used V sp y = map_bit (V ?c) (y mod BPB)"
    using BBLOCK_eq_iff [OF assms(2,1)] by (simp add: used_def)
  then show ?thesis
    using same_div_mod [of y BPB x] unfolding mark_def Let_def used_update [OF assms(1,2)] map_bit_set [OF lt]
    by (auto simp only: split: if_split)
qed

lemma used_unmark:
  assumes "x < unat (sb_size sp)" "y < unat (sb_size sp)" "length (V (BBLOCK (of_nat x) sp)) = BSIZE"
  shows "used (unmark sp x V) sp y \<longleftrightarrow> y \<noteq> x \<and> used V sp y"
proof -
  let ?c = "BBLOCK (of_nat x) sp"
  have lt: "x mod BPB < 8 * length (V ?c)" using assms(3) mod_less_divisor [OF BPB_pos, of x] by (simp add: BPB_def)
  have "y div BPB = x div BPB \<Longrightarrow> used V sp y = map_bit (V ?c) (y mod BPB)"
    using BBLOCK_eq_iff [OF assms(2,1)] by (simp add: used_def)
  then show ?thesis
    using same_div_mod [of y BPB x] unfolding unmark_def Let_def used_update [OF assms(1,2)] map_bit_clear [OF lt]
    by (auto simp only: split: if_split)
qed

section \<open>balloc\<close>

lemma tx_same_fs:
  assumes "tx_same me s t"
  shows "sb t = sb s" "inodes t = inodes s" "kfs.more t = kfs.more s"
proof -
  have "klog.more t = klog.more s" using assms by (simp add: tx_same_def)
  then show "sb t = sb s" "inodes t = inodes s" "kfs.more t = kfs.more s" by (cases s, cases t, simp)+
qed

text \<open>A stretch of a transaction that logs the blocks \<open>A\<close> and after which readers see \<open>V\<close>.\<close>

definition tx_step :: "nat \<Rightarrow> uint32 set \<Rightarrow> uint32 set \<Rightarrow> nat \<Rightarrow> 'a klog_scheme \<Rightarrow> (uint32 \<Rightarrow> byte list) \<Rightarrow> uint32 set \<Rightarrow>
    'a klog_scheme \<Rightarrow> bool" where
  "tx_step me L F k s V A t \<longleftrightarrow> bview t = V \<and> in_tx me L F k t \<and> tx_same me s t \<and> logged t = A \<union> logged s \<and>
     (\<forall>c j. holds me s c j \<longrightarrow> holds me t c j)"

lemma tx_step_trans: "tx_step me L F k s V A t \<Longrightarrow> tx_step me L F k' t V' B u \<Longrightarrow> tx_step me L F k' s V' (B \<union> A) u"
  by (auto simp: tx_step_def intro: tx_same_trans)

lemma tx_step_peek:
  assumes "in_tx me L F k s" "b \<notin> L" "b \<in> F \<union> logged s \<or> 0 < k"
  obtains i u t where "bread me 1 b s = Ok (i, u)" "b_data (bufs u ! i) = bview s b" "tx_same me s u" "brelse me i u = Ok t"
    "tx_step me L F k s (bview s) {} t"
proof (rule tx_peek [OF assms])
  fix i u t assume r: "bread me 1 b s = Ok (i, u)" "b_data (bufs u ! i) = bview s b" "tx_same me s u" "brelse me i u = Ok t"
    "bview t = bview s" "in_tx me L F k t" "tx_same me s t" "lh t = lh s" "\<And>c j. holds me s c j \<Longrightarrow> holds me t c j"
  then show thesis using logged_cong [OF r(8)] by (intro that [OF r(1-4)]) (simp add: tx_step_def)
qed

lemma tx_step_modify:
  assumes "in_tx me L F k s" "b \<notin> L" "b \<in> F \<union> logged s \<or> 0 < k" "b \<notin> log_area s" "1 \<le> log_outstanding s"
  obtains i u where "bread me 1 b s = Ok (i, u)" "b_data (bufs u ! i) = bview s b" "tx_same me s u"
    "\<And>d. length d = BSIZE \<Longrightarrow> \<exists>v t. log_write i (set_data i d u) = Ok v \<and> brelse me i v = Ok t \<and>
       tx_step me L F (if b \<in> F \<union> logged s then k else k - 1) s ((bview s)(b := d)) {b} t"
proof (rule tx_modify [OF assms])
  fix i u assume r: "bread me 1 b s = Ok (i, u)" "b_data (bufs u ! i) = bview s b" "tx_same me s u"
    "\<And>d. length d = BSIZE \<Longrightarrow> \<exists>v t. log_write i (set_data i d u) = Ok v \<and> brelse me i v = Ok t \<and>
       bview t = (bview s)(b := d) \<and> in_tx me L F (if b \<in> F \<union> logged s then k else k - 1) t \<and> tx_same me s t \<and>
       logged t = insert b (logged s) \<and> (\<forall>c j. holds me s c j \<longrightarrow> holds me t c j)"
  then show thesis by (intro that [OF r(1-3)]) (simp add: tx_step_def)
qed

lemma tx_bzero:
  assumes "in_tx me L F k s" "b \<notin> L" "b \<in> F \<union> logged s \<or> 0 < k" "b \<notin> log_area s" "1 \<le> log_outstanding s"
  shows "\<exists>t. bzero me 1 b s = Ok t \<and>
     tx_step me L F (if b \<in> F \<union> logged s then k else k - 1) s ((bview s)(b := replicate BSIZE 0)) {b} t"
proof (rule tx_step_modify [OF assms])
  fix i u assume r: "bread me 1 b s = Ok (i, u)"
    "\<And>d. length d = BSIZE \<Longrightarrow> \<exists>v t. log_write i (set_data i d u) = Ok v \<and> brelse me i v = Ok t \<and>
       tx_step me L F (if b \<in> F \<union> logged s then k else k - 1) s ((bview s)(b := d)) {b} t"
  from r(2) [of "replicate BSIZE 0"] obtain v t where "log_write i (set_data i (replicate BSIZE 0) u) = Ok v" "brelse me i v = Ok t"
    "tx_step me L F (if b \<in> F \<union> logged s then k else k - 1) s ((bview s)(b := replicate BSIZE 0)) {b} t"
    by auto
  then show ?thesis using r(1) by (intro exI [of _ t]) (simp only: bzero_def bindO.simps prod.case simp_thms)
qed

text \<open>
  What \<open>balloc\<close> relies on: the bitmap is not locked and not in the log, and no block that is
  free in the bitmap is locked, in the log or part of the bitmap.
\<close>

definition alloc_ok :: "uint32 set \<Rightarrow> 'a kfs_scheme \<Rightarrow> bool" where
  "alloc_ok L s \<longleftrightarrow> 1 \<le> log_outstanding s \<and> bitmap_blocks (sb s) \<inter> (L \<union> log_area s) = {} \<and>
     (\<forall>x<unat (sb_size (sb s)). \<not> used (bview s) (sb s) x \<longrightarrow>
        of_nat x \<notin> insert 0 (L \<union> log_area s \<union> bitmap_blocks (sb s)))"

lemma alloc_ok_same: "tx_same me s t \<Longrightarrow> bview t = bview s \<Longrightarrow> alloc_ok L t = alloc_ok L s"
  unfolding alloc_ok_def by (simp add: tx_same_fs tx_same_area) (simp add: tx_same_def)

definition claim :: "superblock \<Rightarrow> nat \<Rightarrow> (uint32 \<Rightarrow> byte list) \<Rightarrow> uint32 \<Rightarrow> byte list" where
  "claim sp x V = (mark sp x V)(of_nat x := replicate BSIZE 0)"

text \<open>The first free block from \<open>b\<close> on, as the allocator finds it.\<close>

definition first_free :: "(uint32 \<Rightarrow> byte list) \<Rightarrow> superblock \<Rightarrow> nat \<Rightarrow> nat option" where
  "first_free V sp b = find (\<lambda>x. \<not> used V sp x) [b..<unat (sb_size sp)]"

lemma find_append: "find P (xs @ ys) = (case find P xs of None \<Rightarrow> find P ys | Some x \<Rightarrow> Some x)"
  by (induction xs) auto

lemma find_upt_Some: "find P [b..<m] = Some x \<longleftrightarrow> b \<le> x \<and> x < m \<and> P x \<and> (\<forall>y. b \<le> y \<and> y < x \<longrightarrow> \<not> P y)"
proof
  assume "find P [b..<m] = Some x"
  then obtain i where i: "i < m - b" "P (b + i)" "x = b + i" "\<And>j. j < i \<Longrightarrow> \<not> P (b + j)"
    by (auto simp: find_Some_iff)
  moreover have "\<not> P y" if "b \<le> y" "y < x" for y using i(4) [of "y - b"] i(3) that by simp
  ultimately show "b \<le> x \<and> x < m \<and> P x \<and> (\<forall>y. b \<le> y \<and> y < x \<longrightarrow> \<not> P y)" by auto
next
  assume "b \<le> x \<and> x < m \<and> P x \<and> (\<forall>y. b \<le> y \<and> y < x \<longrightarrow> \<not> P y)"
  then show "find P [b..<m] = Some x"
    unfolding find_Some_iff by (intro exI [of _ "x - b"]) auto
qed

lemma find_upt_None: "find P [b..<m] = None \<longleftrightarrow> (\<forall>y. b \<le> y \<and> y < m \<longrightarrow> \<not> P y)"
  by (auto simp: find_None_iff)

lemma first_free_split:
  "first_free V sp b = (case find (\<lambda>x. \<not> used V sp x) [b..<min (b + BPB) (unat (sb_size sp))] of
     None \<Rightarrow> first_free V sp (b + BPB) | Some x \<Rightarrow> Some x)"
proof -
  let ?sz = "unat (sb_size sp)"
  have "[b..<?sz] = [b..<min (b + BPB) ?sz] @ [b + BPB..<?sz]"
  proof (cases "b + BPB \<le> ?sz")
    case True
    then show ?thesis using upt_add_eq_append [of b "b + BPB" "?sz - (b + BPB)"] by (simp add: min_absorb1)
  next
    case False
    then show ?thesis by (simp add: min_absorb2)
  qed
  then show ?thesis unfolding first_free_def by (simp only: find_append)
qed

lemma used_group:
  assumes "BPB dvd b" "y < BPB" "b + y < unat (sb_size sp)"
  shows "used V sp (b + y) = map_bit (V (BBLOCK (of_nat b) sp)) y"
proof -
  have "(b + y) div BPB = b div BPB" "(b + y) mod BPB = y" using assms(1,2) by (auto elim!: dvdE)
  then show ?thesis using BBLOCK_eq_iff [of "b + y" sp b] assms(3) by (simp add: used_def)
qed

lemma scan_first:
  assumes "BPB dvd b"
  shows "find (\<lambda>x. \<not> used V sp x) [b..<min (b + BPB) (unat (sb_size sp))] =
     map_option (\<lambda>x. b + x) (balloc_scan (V (BBLOCK (of_nat b) sp)) (unat (sb_size sp)) b 0)"
proof -
  let ?sz = "unat (sb_size sp)" and ?bs = "V (BBLOCK (of_nat b) sp)"
  have u: "used V sp y = map_bit ?bs (y - b)" if "b \<le> y" "y < b + BPB" "y < ?sz" for y
    using used_group [OF assms, of "y - b" sp V] that by simp
  show ?thesis
  proof (cases "balloc_scan ?bs ?sz b 0")
    case None
    then have "map_bit ?bs y" if "y < BPB" "b + y < ?sz" for y using balloc_scan_spec [where bs = ?bs and sz = ?sz and b = b and bi = 0] that by simp
    then show ?thesis unfolding None by (auto simp: find_upt_None u)
  next
    case (Some x)
    then have x: "x < BPB" "b + x < ?sz" "\<not> map_bit ?bs x" "\<And>y. y < x \<Longrightarrow> map_bit ?bs y"
      using balloc_scan_spec [where bs = ?bs and sz = ?sz and b = b and bi = 0] by auto
    then show ?thesis unfolding Some by (auto simp: find_upt_Some u)
  qed
qed

lemma in_tx_length: "in_tx me L F k s \<Longrightarrow> length (bview s b) = BSIZE"
  by (rule length_bview) (simp add: in_tx_def)

lemma tx_step_mono: "tx_step me L F k s V A t \<Longrightarrow> k' \<le> k \<Longrightarrow> tx_step me L F k' s V A t"
  by (auto simp: tx_step_def intro: in_tx_mono)

lemma tx_step_refl: "in_tx me L F k s \<Longrightarrow> tx_step me L F k s (bview s) {} s"
  by (simp add: tx_step_def)

lemma tx_stepD:
  assumes "tx_step me L F k s V A t"
  shows "bview t = V" "in_tx me L F k t" "tx_same me s t" "logged t = A \<union> logged s"
    "log_area t = log_area s" "log_outstanding t = log_outstanding s"
  using assms tx_same_area by (auto simp: tx_step_def tx_same_def)

definition balloc_post ::
  "nat \<Rightarrow> uint32 set \<Rightarrow> uint32 set \<Rightarrow> nat \<Rightarrow> nat \<Rightarrow> 'a kfs_scheme \<Rightarrow> uint32 \<Rightarrow> 'a kfs_scheme \<Rightarrow> bool" where
  "balloc_post me L F k b s r t \<longleftrightarrow>
     (case first_free (bview s) (sb s) b of
        None \<Rightarrow> r = 0 \<and> tx_step me L F k s (bview s) {} t
      | Some x \<Rightarrow> r = of_nat x \<and>
          tx_step me L F (k - 1) s (claim (sb s) x (bview s)) {of_nat x, BBLOCK (of_nat x) (sb s)} t)"

lemma balloc_post_next:
  assumes step: "tx_step me L F k s (bview s) {} u" and post: "balloc_post me L F k (b + BPB) u r t"
    and none: "first_free (bview s) (sb s) b = first_free (bview s) (sb s) (b + BPB)"
  shows "balloc_post me L F k b s r t"
proof -
  have e: "sb u = sb s" "bview u = bview s" using tx_stepD [OF step] tx_same_fs(1) by auto
  show ?thesis
    using post tx_step_trans [OF step] unfolding balloc_post_def none e by (auto split: option.splits)
qed

lemma length_mark: "length (mark sp x V c) = length (V c)"
  by (simp add: mark_def Let_def)

lemma balloc_take:
  assumes tx: "in_tx me L F k s" and ok: "alloc_ok L s" and b: "BPB dvd b" "b < unat (sb_size (sb s))"
    and F: "bitmap_blocks (sb s) \<subseteq> F" and k: "0 < k"
    and scan: "balloc_scan (bview s (BBLOCK (of_nat b) (sb s))) (unat (sb_size (sb s))) b 0 = Some bi"
  shows "\<exists>r t. balloc_loop me 1 (unat (sb_size (sb s))) b s = Ok (r, t) \<and> balloc_post me L F k b s r t"
proof -
  let ?sz = "unat (sb_size (sb s))" and ?c = "BBLOCK (of_nat b) (sb s)" and ?V = "bview s"
  let ?bs = "?V ?c"
  define x where "x = b + bi"
  have c: "?c \<in> bitmap_blocks (sb s)" using b(2) by (simp add: bitmap_blocks_def)
  then have c': "?c \<in> F \<union> logged s" "?c \<notin> L" "?c \<notin> log_area s" "1 \<le> log_outstanding s"
    using F ok by (auto simp: alloc_ok_def)
  have ff: "first_free ?V (sb s) b = Some x"
    by (simp add: first_free_split [of _ _ b] scan_first [OF b(1)] scan x_def)
  then have x: "x < ?sz" "\<not> used ?V (sb s) x" by (auto simp: first_free_def find_upt_Some)
  then have x': "of_nat x \<notin> L" "of_nat x \<notin> log_area s" using ok by (auto simp: alloc_ok_def)
  have bi: "bi < BPB" using balloc_scan_spec [where bs = ?bs and sz = ?sz and b = b and bi = 0] scan by simp
  have cx: "BBLOCK (of_nat x) (sb s) = ?c" "x mod BPB = bi"
    using b bi BBLOCK_eq_iff [OF x(1) b(2)] by (auto simp: x_def elim!: dvdE)
  let ?d = "?bs[bi div 8 := (?bs ! (bi div 8)) OR bit_mask bi]"
  have d: "length ?d = BSIZE" by (simp add: in_tx_length [OF tx])
  have V1: "?V(?c := ?d) = mark (sb s) x ?V" by (simp add: mark_def cx Let_def)
  obtain i u where r: "bread me 1 ?c s = Ok (i, u)" "b_data (bufs u ! i) = ?bs" "tx_same me s u"
    and m: "\<And>d. length d = BSIZE \<Longrightarrow> \<exists>v t. log_write i (set_data i d u) = Ok v \<and> brelse me i v = Ok t \<and>
       tx_step me L F (if ?c \<in> F \<union> logged s then k else k - 1) s (?V(?c := d)) {?c} t"
    using tx_step_modify [OF tx c'(2) disjI1 [OF c'(1)] c'(3,4)] by (metis (no_types, lifting))
  obtain v t where t: "log_write i (set_data i ?d u) = Ok v" "brelse me i v = Ok t"
    "tx_step me L F k s (mark (sb s) x ?V) {?c} t"
    using m [OF d] c'(1) V1 by auto
  note T = tx_stepD [OF t(3)]
  obtain w where w: "bzero me 1 (of_nat x) t = Ok w"
    "tx_step me L F (if of_nat x \<in> F \<union> logged t then k else k - 1) t ((bview t)(of_nat x := replicate BSIZE 0)) {of_nat x} w"
    using tx_bzero [OF T(2) x'(1)] k x'(2) c'(4) T(5,6) by auto
  then have "tx_step me L F (k - 1) t (claim (sb s) x ?V) {of_nat x} w"
    using T(1) by (auto simp: claim_def elim!: tx_step_mono split: if_splits)
  from tx_step_trans [OF t(3) this] have st: "tx_step me L F (k - 1) s (claim (sb s) x ?V) {of_nat x, BBLOCK (of_nat x) (sb s)} w"
    unfolding cx by (simp add: insert_commute)
  have "balloc_loop me 1 ?sz b s = Ok (of_nat x, w)"
    using b(2) scan r(2) t(1,2) w(1) tx_same_fs(1) [OF r(3)]
    by (subst balloc_loop.simps) (simp add: r(1) Let_def x_def)
  then show ?thesis using st by (intro exI [of _ "of_nat x"] exI [of _ w]) (simp add: balloc_post_def ff)
qed

lemma balloc_loop_spec:
  assumes "in_tx me L F k s" "alloc_ok L s" "BPB dvd b" "bitmap_blocks (sb s) \<subseteq> F" "0 < k"
  shows "\<exists>r t. balloc_loop me 1 (unat (sb_size (sb s))) b s = Ok (r, t) \<and> balloc_post me L F k b s r t"
  using assms
proof (induction "unat (sb_size (sb s)) - b" arbitrary: b s rule: less_induct)
  case less
  let ?sz = "unat (sb_size (sb s))" and ?c = "BBLOCK (of_nat b) (sb s)"
  show ?case
  proof (cases "b < ?sz")
    case False
    then have "balloc_loop me 1 ?sz b s = Ok (0, s)" by (subst balloc_loop.simps) simp
    moreover have "first_free (bview s) (sb s) b = None" using False by (simp add: first_free_def)
    ultimately show ?thesis using tx_step_refl [OF less.prems(1)] by (simp add: balloc_post_def)
  next
    case b: True
    show ?thesis
    proof (cases "balloc_scan (bview s ?c) ?sz b 0")
      case (Some bi)
      then show ?thesis by (rule balloc_take [OF less.prems(1-3) b less.prems(4,5)])
    next
      case None
      have c: "?c \<in> bitmap_blocks (sb s)" using b by (simp add: bitmap_blocks_def)
      then have c': "?c \<in> F \<union> logged s" "?c \<notin> L" using less.prems(2,4) by (auto simp: alloc_ok_def)
      obtain i u t where r: "bread me 1 ?c s = Ok (i, u)" "b_data (bufs u ! i) = bview s ?c" "brelse me i u = Ok t"
        "tx_step me L F k s (bview s) {} t"
        using tx_step_peek [OF less.prems(1) c'(2) disjI1 [OF c'(1)]] by metis
      note T = tx_stepD [OF r(4)]
      have sb: "sb t = sb s" by (rule tx_same_fs(1) [OF T(3)])
      have lt: "?sz - (b + BPB) < ?sz - b" using b BPB_pos by linarith
      have "\<exists>r' t'. balloc_loop me 1 (unat (sb_size (sb t))) (b + BPB) t = Ok (r', t') \<and> balloc_post me L F k (b + BPB) t r' t'"
        using less.prems b alloc_ok_same [OF T(3,1)] lt by (intro less.hyps) (auto simp: sb T(2))
      then obtain r' t' where "balloc_loop me 1 ?sz (b + BPB) t = Ok (r', t')" "balloc_post me L F k (b + BPB) t r' t'"
        by (auto simp: sb)
      moreover have "balloc_loop me 1 ?sz b s = balloc_loop me 1 ?sz (b + BPB) t"
        using b by (subst balloc_loop.simps) (simp add: r(1-3) None)
      moreover have "first_free (bview s) (sb s) b = first_free (bview s) (sb s) (b + BPB)"
        by (simp add: first_free_split [of _ _ b] scan_first [OF less.prems(3)] None)
      ultimately show ?thesis using balloc_post_next [OF r(4)] by auto
    qed
  qed
qed

lemma balloc_spec:
  assumes "in_tx me L F k s" "alloc_ok L s" "bitmap_blocks (sb s) \<subseteq> F" "0 < k"
  shows "\<exists>r t. balloc me 1 s = Ok (r, t) \<and> balloc_post me L F k 0 s r t"
  unfolding balloc_def by (rule balloc_loop_spec [OF assms(1,2) _ assms(3,4)]) simp

section \<open>bfree\<close>

lemma bfree_spec:
  assumes tx: "in_tx me L F k s" and out: "1 \<le> log_outstanding s" and b: "unat b < unat (sb_size (sb s))"
    and c: "BBLOCK b (sb s) \<notin> L" "BBLOCK b (sb s) \<notin> log_area s" and room: "BBLOCK b (sb s) \<in> F \<union> logged s \<or> 0 < k"
  shows "if used (bview s) (sb s) (unat b)
     then \<exists>t. bfree me 1 b s = Ok t \<and> tx_step me L F (if BBLOCK b (sb s) \<in> F \<union> logged s then k else k - 1) s
       (unmark (sb s) (unat b) (bview s)) {BBLOCK b (sb s)} t
     else bfree me 1 b s = Panic ''freeing free block''"
proof -
  let ?c = "BBLOCK b (sb s)" and ?bi = "unat b mod BPB"
  let ?bs = "bview s ?c"
  let ?d = "?bs[?bi div 8 := (?bs ! (?bi div 8)) AND NOT (bit_mask ?bi)]"
  have bb: "of_nat (unat b) = b" by simp
  have u: "used (bview s) (sb s) (unat b) = map_bit ?bs ?bi" unfolding used_def bb ..
  have v: "(bview s)(?c := ?d) = unmark (sb s) (unat b) (bview s)" unfolding unmark_def bb Let_def ..
  have d: "length ?d = BSIZE" by (simp add: in_tx_length [OF tx])
  have test: "(?bs ! (?bi div 8)) AND bit_mask ?bi = 0 \<longleftrightarrow> \<not> map_bit ?bs ?bi" by (simp add: mask_clear map_bit_def)
  obtain i w where r: "bread me 1 ?c s = Ok (i, w)" "b_data (bufs w ! i) = ?bs" "tx_same me s w"
    and m: "\<And>d. length d = BSIZE \<Longrightarrow> \<exists>v t. log_write i (set_data i d w) = Ok v \<and> brelse me i v = Ok t \<and>
       tx_step me L F (if ?c \<in> F \<union> logged s then k else k - 1) s ((bview s)(?c := d)) {?c} t"
    using tx_step_modify [OF tx c(1) room c(2) out] by (metis (no_types, lifting))
  show ?thesis
  proof (cases "map_bit ?bs ?bi")
    case False
    then show ?thesis unfolding u using test by (simp add: bfree_def r(1,2) Let_def)
  next
    case True
    obtain x t where "log_write i (set_data i ?d w) = Ok x" "brelse me i x = Ok t"
      "tx_step me L F (if ?c \<in> F \<union> logged s then k else k - 1) s (unmark (sb s) (unat b) (bview s)) {?c} t"
      using m [OF d] unfolding v by blast
    then show ?thesis unfolding u using True test by (auto simp: bfree_def r(1,2) Let_def)
  qed
qed

section \<open>The bitmap that mkfs writes\<close>

lemma length_mk_bitmap [simp]: "length (mk_bitmap n) = BSIZE"
  by (induction n) (simp_all add: Let_def)

lemma map_bit_zero: "bi < BPB \<Longrightarrow> \<not> map_bit (replicate BSIZE 0) bi"
  by (simp add: map_bit_def BPB_def BSIZE_def less_mult_imp_div_less)

lemma mk_bitmap_bits: "n \<le> BPB \<Longrightarrow> i < BPB \<Longrightarrow> map_bit (mk_bitmap n) i \<longleftrightarrow> i < n"
proof (induction n)
  case 0
  then show ?case by (simp add: map_bit_zero)
next
  case (Suc n)
  then have "n < 8 * length (mk_bitmap n)" by (simp add: BPB_def)
  then have "map_bit (mk_bitmap (Suc n)) i \<longleftrightarrow> i = n \<or> map_bit (mk_bitmap n) i"
    unfolding mk_bitmap.simps Let_def by (rule map_bit_set)
  also have "\<dots> \<longleftrightarrow> i < Suc n" using Suc by auto
  finally show ?case .
qed

end
