(* ===== verification/FileProof.thy ===== *)
theory FileProof
  imports BlockProof
begin

text \<open>
  The contents of a file: the block map \<open>bmap\<close>, which allocates on demand, and \<open>readi\<close> and
  \<open>writei\<close> over it. A file is abstracted to the function from positions to bytes; the invariant says
  that the blocks of the file are marked in the bitmap, lie outside the file system's own
  blocks and are all different.
\<close>

section \<open>Well-formed file systems and files\<close>

definition inode_blocks :: "superblock \<Rightarrow> uint32 set" where
  "inode_blocks sp = (\<lambda>i. IBLOCK (of_nat i) sp) ` {..<unat (sb_ninodes sp)}"

definition fs_meta :: "superblock \<Rightarrow> uint32 set \<Rightarrow> uint32 set" where
  "fs_meta sp A = insert 0 (A \<union> bitmap_blocks sp \<union> inode_blocks sp)"

text \<open>\<open>A\<close> is the area of the log.\<close>

definition fs_ok :: "(uint32 \<Rightarrow> byte list) \<Rightarrow> superblock \<Rightarrow> uint32 set \<Rightarrow> bool" where
  "fs_ok V sp A \<longleftrightarrow> bitmap_blocks sp \<inter> A = {} \<and> inode_blocks sp \<inter> (A \<union> bitmap_blocks sp) = {} \<and>
     (\<forall>x<unat (sb_size sp). \<not> used V sp x \<longrightarrow> of_nat x \<notin> fs_meta sp A) \<and> (\<forall>b. length (V b) = BSIZE)"

text \<open>The block of a file that holds its \<open>n\<close>-th piece, 0 if there is none.\<close>

definition fblk :: "(uint32 \<Rightarrow> byte list) \<Rightarrow> inode \<Rightarrow> nat \<Rightarrow> uint32" where
  "fblk V i n = (if n < NDIRECT then i_addrs i ! n
     else if i_addrs i ! NDIRECT = 0 then 0 else indirect_get (V (i_addrs i ! NDIRECT)) (n - NDIRECT))"

abbreviation ind :: "inode \<Rightarrow> uint32" where
  "ind i \<equiv> i_addrs i ! NDIRECT"

definition in_use_blk :: "(uint32 \<Rightarrow> byte list) \<Rightarrow> superblock \<Rightarrow> uint32 \<Rightarrow> bool" where
  "in_use_blk V sp a \<longleftrightarrow> unat a < unat (sb_size sp) \<and> used V sp (unat a)"

definition blocks_ok :: "(uint32 \<Rightarrow> bool) \<Rightarrow> uint32 set \<Rightarrow> (nat \<Rightarrow> uint32) \<Rightarrow> uint32 \<Rightarrow> bool" where
  "blocks_ok U M g j \<longleftrightarrow> (\<forall>n<MAXFILE. g n \<noteq> 0 \<longrightarrow> U (g n) \<and> g n \<notin> M) \<and> (j \<noteq> 0 \<longrightarrow> U j \<and> j \<notin> M) \<and>
     (\<forall>m<MAXFILE. \<forall>n<MAXFILE. g m \<noteq> 0 \<longrightarrow> g m = g n \<longrightarrow> m = n) \<and> (j \<noteq> 0 \<longrightarrow> (\<forall>n<MAXFILE. g n \<noteq> j))"

definition inode_ok :: "(uint32 \<Rightarrow> byte list) \<Rightarrow> superblock \<Rightarrow> uint32 set \<Rightarrow> inode \<Rightarrow> bool" where
  "inode_ok V sp A i \<longleftrightarrow> i_dev i = 1 \<and> length (i_addrs i) = NDIRECT + 1 \<and>
     blocks_ok (in_use_blk V sp) (fs_meta sp A) (fblk V i) (ind i)"

definition disk_full :: "(uint32 \<Rightarrow> byte list) \<Rightarrow> superblock \<Rightarrow> bool" where
  "disk_full V sp \<longleftrightarrow> (\<forall>x<unat (sb_size sp). used V sp x)"

definition file_byte :: "(uint32 \<Rightarrow> byte list) \<Rightarrow> inode \<Rightarrow> nat \<Rightarrow> byte" where
  "file_byte V i p = V (fblk V i (p div BSIZE)) ! (p mod BSIZE)"

lemma blocks_ok_link:
  assumes ok: "blocks_ok U M g j" and a: "\<not> U a" "a \<notin> M" and n: "g n = 0"
  shows "blocks_ok (\<lambda>b. b = a \<or> U b) M (g(n := a)) j"
  using assms by (auto simp: blocks_ok_def)

lemma blocks_ok_index:
  assumes ok: "blocks_ok U M g 0" and a: "\<not> U a" "a \<notin> M"
  shows "blocks_ok (\<lambda>b. b = a \<or> U b) M g a"
  using assms by (auto simp: blocks_ok_def)

lemma blocks_ok_cong:
  assumes "\<And>n. n < MAXFILE \<Longrightarrow> g' n = g n" "\<And>a. a \<noteq> 0 \<Longrightarrow> a \<notin> M \<Longrightarrow> U a \<Longrightarrow> U' a" "blocks_ok U M g j"
  shows "blocks_ok U' M g' j"
  using assms unfolding blocks_ok_def by (metis (no_types, lifting))

section \<open>Claiming a block\<close>

lemma claim_apply:
  "claim sp x V b = (if b = of_nat x then replicate BSIZE 0 else if b = BBLOCK (of_nat x) sp then mark sp x V b else V b)"
  by (simp add: claim_def mark_def Let_def)

lemma length_claim: "(\<And>b. length (V b) = BSIZE) \<Longrightarrow> length (claim sp x V b) = BSIZE"
  by (simp add: claim_apply length_mark)

lemma BBLOCK_bitmap: "y < unat (sb_size sp) \<Longrightarrow> BBLOCK (of_nat y) sp \<in> bitmap_blocks sp"
  by (simp add: bitmap_blocks_def)

lemma fs_ok_free: "fs_ok V sp A \<Longrightarrow> x < unat (sb_size sp) \<Longrightarrow> \<not> used V sp x \<Longrightarrow> of_nat x \<notin> fs_meta sp A"
  by (simp add: fs_ok_def)

lemma used_claim:
  assumes "fs_ok V sp A" "x < unat (sb_size sp)" "\<not> used V sp x" "y < unat (sb_size sp)"
  shows "used (claim sp x V) sp y \<longleftrightarrow> y = x \<or> used V sp y"
proof -
  have "BBLOCK (of_nat y) sp \<noteq> of_nat x"
    using fs_ok_free [OF assms(1-3)] BBLOCK_bitmap [OF assms(4)] by (auto simp: fs_meta_def)
  then have "used (claim sp x V) sp y = used (mark sp x V) sp y" by (simp add: used_def claim_def)
  then show ?thesis using used_mark [OF assms(2,4)] assms(1) by (simp add: fs_ok_def)
qed

lemma fs_ok_claim:
  assumes "fs_ok V sp A" "x < unat (sb_size sp)" "\<not> used V sp x"
  shows "fs_ok (claim sp x V) sp A"
  using assms(1) used_claim [OF assms] length_claim [of V sp x] by (auto simp: fs_ok_def)

text \<open>Blocks that are in use and not in the bitmap keep their contents.\<close>

lemma claim_other:
  assumes "in_use_blk V sp a" "a \<notin> fs_meta sp A" "x < unat (sb_size sp)" "\<not> used V sp x"
  shows "claim sp x V a = V a" "a \<noteq> of_nat x"
proof -
  show ne: "a \<noteq> of_nat x" using assms unat_size_32 [OF assms(3)] by (auto simp: in_use_blk_def)
  show "claim sp x V a = V a" 
    using assms(2) ne BBLOCK_bitmap [OF assms(3)] by (auto simp: claim_apply fs_meta_def)
qed

lemma in_use_claim:
  assumes "fs_ok V sp A" "x < unat (sb_size sp)" "\<not> used V sp x"
  shows "in_use_blk (claim sp x V) sp a \<longleftrightarrow> a = of_nat x \<or> in_use_blk V sp a"
proof -
  have "unat a = x \<longleftrightarrow> a = of_nat x" using unat_size_32 [OF assms(2)] by (auto simp: word_unat_eq_iff)
  then show ?thesis using used_claim [OF assms] unat_size_32 [OF assms(2)] assms(2) by (auto simp: in_use_blk_def)
qed

section \<open>Growing a file\<close>

text \<open>
  File \<open>i\<close> over the blocks \<open>V\<close> has become \<open>j\<close> over \<open>W\<close> by taking further blocks, which are zero;
  every other block in use keeps its contents, the index block of the file excepted.
\<close>

definition grown ::
  "superblock \<Rightarrow> uint32 set \<Rightarrow> (uint32 \<Rightarrow> byte list) \<Rightarrow> inode \<Rightarrow> (uint32 \<Rightarrow> byte list) \<Rightarrow> inode \<Rightarrow> bool" where
  "grown sp A V i W j \<longleftrightarrow> fs_ok W sp A \<and> inode_ok W sp A j \<and> j = i\<lparr>i_addrs := i_addrs j\<rparr> \<and>
     (\<forall>b. in_use_blk V sp b \<longrightarrow> in_use_blk W sp b) \<and>
     (\<forall>b. in_use_blk V sp b \<longrightarrow> b \<notin> fs_meta sp A \<longrightarrow> b \<noteq> ind i \<longrightarrow> W b = V b) \<and>
     (ind j = ind i \<or> ind i = 0 \<and> \<not> in_use_blk V sp (ind j)) \<and>
     (\<forall>n<MAXFILE. fblk V i n \<noteq> 0 \<longrightarrow> fblk W j n = fblk V i n) \<and>
     (\<forall>n<MAXFILE. fblk V i n = 0 \<longrightarrow> fblk W j n \<noteq> 0 \<longrightarrow>
        W (fblk W j n) = replicate BSIZE 0 \<and> \<not> in_use_blk V sp (fblk W j n)) \<and>
     (\<forall>b\<in>inode_blocks sp. W b = V b)"

lemma grownD:
  assumes "grown sp A V i W j"
  shows "fs_ok W sp A" "inode_ok W sp A j" "j = i\<lparr>i_addrs := i_addrs j\<rparr>" "in_use_blk V sp b \<Longrightarrow> in_use_blk W sp b"
    "in_use_blk V sp b \<Longrightarrow> b \<notin> fs_meta sp A \<Longrightarrow> b \<noteq> ind i \<Longrightarrow> W b = V b"
    "ind j = ind i \<or> ind i = 0 \<and> \<not> in_use_blk V sp (ind j)"
    "n < MAXFILE \<Longrightarrow> fblk V i n \<noteq> 0 \<Longrightarrow> fblk W j n = fblk V i n"
    "n < MAXFILE \<Longrightarrow> fblk V i n = 0 \<Longrightarrow> fblk W j n \<noteq> 0 \<Longrightarrow>
       W (fblk W j n) = replicate BSIZE 0 \<and> \<not> in_use_blk V sp (fblk W j n)"
    "b \<in> inode_blocks sp \<Longrightarrow> W b = V b"
  using assms unfolding grown_def by blast+

lemma inode_okD:
  assumes "inode_ok V sp A i"
  shows "i_dev i = 1" "length (i_addrs i) = NDIRECT + 1"
    "n < MAXFILE \<Longrightarrow> fblk V i n \<noteq> 0 \<Longrightarrow> in_use_blk V sp (fblk V i n) \<and> fblk V i n \<notin> fs_meta sp A"
    "ind i \<noteq> 0 \<Longrightarrow> in_use_blk V sp (ind i) \<and> ind i \<notin> fs_meta sp A"
    "m < MAXFILE \<Longrightarrow> n < MAXFILE \<Longrightarrow> fblk V i m \<noteq> 0 \<Longrightarrow> fblk V i m = fblk V i n \<Longrightarrow> m = n"
    "ind i \<noteq> 0 \<Longrightarrow> n < MAXFILE \<Longrightarrow> fblk V i n \<noteq> ind i"
  using assms unfolding inode_ok_def blocks_ok_def by blast+

lemma grown_refl: "fs_ok V sp A \<Longrightarrow> inode_ok V sp A i \<Longrightarrow> grown sp A V i V i"
  by (simp add: grown_def)

lemma fblk_not_ind:
  assumes "inode_ok V sp A i" "n < MAXFILE" "fblk V i n \<noteq> 0"
  shows "fblk V i n \<noteq> ind i"
  using inode_okD(6) [OF assms(1) _ assms(2)] assms(3) by metis

lemma grown_trans:
  assumes a: "grown sp A V i W j" and b: "grown sp A W j X k"
  shows "grown sp A V i X k"
  unfolding grown_def
proof (intro conjI allI impI ballI)
  note P = grownD [OF a] and Q = grownD [OF b]
  show "fs_ok X sp A" "inode_ok X sp A k" by (fact Q(1,2))+
  show "k = i\<lparr>i_addrs := i_addrs k\<rparr>" using P(3) Q(3) by (metis inode.surjective inode.update_convs(11))
  show "in_use_blk X sp c" if "in_use_blk V sp c" for c using Q(4) P(4) that by blast
  show "X c = V c" if "in_use_blk V sp c" "c \<notin> fs_meta sp A" "c \<noteq> ind i" for c
  proof -
    have "c \<noteq> ind j" using P(6) that by auto
    then show ?thesis using P(4,5) Q(5) that by metis
  qed
  show "ind k = ind i \<or> ind i = 0 \<and> \<not> in_use_blk V sp (ind k)" using P(4,6) Q(6) by metis
  fix n assume n: "n < MAXFILE"
  show "fblk X k n = fblk V i n" if "fblk V i n \<noteq> 0" using P(7) Q(7) n that by metis
  assume z: "fblk V i n = 0" "fblk X k n \<noteq> 0"
  have "X (fblk X k n) = replicate BSIZE 0 \<and> \<not> in_use_blk V sp (fblk X k n)"
  proof (cases "fblk W j n = 0")
    case True
    then show ?thesis using Q(8) [OF n True z(2)] P(4) by blast
  next
    case False
    then have "fblk X k n = fblk W j n" "W (fblk W j n) = replicate BSIZE 0" "\<not> in_use_blk V sp (fblk W j n)"
      using P(8) Q(7) n z(1) by blast+
    then show ?thesis using Q(5) inode_okD(3) [OF P(2) n False] fblk_not_ind [OF P(2) n False] by simp
  qed
  then show "X (fblk X k n) = replicate BSIZE 0" "\<not> in_use_blk V sp (fblk X k n)" by blast+
next
  show "X c = V c" if "c \<in> inode_blocks sp" for c using grownD(9) [OF a that] grownD(9) [OF b that] by simp
qed

lemma free_not_in_use: "x < unat (sb_size sp) \<Longrightarrow> \<not> used V sp x \<Longrightarrow> \<not> in_use_blk V sp (of_nat x)"
  using unat_size_32 [of x "sb_size sp"] by (simp add: in_use_blk_def)

lemma fblk_claim:
  assumes "inode_ok V sp A i" "x < unat (sb_size sp)" "\<not> used V sp x"
  shows "fblk (claim sp x V) i = fblk V i"
  using inode_okD(4) [OF assms(1)] claim_other(1) [of V sp "ind i" A x] assms(2,3) by (auto simp: fblk_def fun_eq_iff)

lemma claim_inode_block:
  assumes "fs_ok V sp A" "x < unat (sb_size sp)" "\<not> used V sp x" "b \<in> inode_blocks sp"
  shows "claim sp x V b = V b"
  using fs_ok_free [OF assms(1-3)] BBLOCK_bitmap [OF assms(2)] assms(1,4) by (auto simp: claim_apply fs_meta_def fs_ok_def)

lemma MAXFILE_split: "NDIRECT < MAXFILE" "n < MAXFILE \<Longrightarrow> \<not> n < NDIRECT \<Longrightarrow> n - NDIRECT < NINDIRECT"
  by (simp_all add: MAXFILE_def NDIRECT_def NINDIRECT_def BSIZE_def)

lemma indirect_get_zero: "k < NINDIRECT \<Longrightarrow> indirect_get (replicate BSIZE 0) k = 0"
proof -
  have "le_word (replicate m 0) = (0 :: uint32)" for m by (induction m) simp_all
  then show ?thesis by (simp add: indirect_get_def get_le_def)
qed

text \<open>The three ways in which \<open>bmap\<close> extends a file with a fresh block.\<close>

lemma grow_direct:
  assumes ok: "fs_ok V sp A" "inode_ok V sp A i" and x: "x < unat (sb_size sp)" "\<not> used V sp x"
    and n: "n < NDIRECT" "i_addrs i ! n = 0"
  defines "j \<equiv> i\<lparr>i_addrs := (i_addrs i)[n := of_nat x]\<rparr>"
  shows "grown sp A V i (claim sp x V) j" "fblk (claim sp x V) j = (fblk V i)(n := of_nat x)" "ind j = ind i"
proof -
  let ?W = "claim sp x V"
  have len: "length (i_addrs i) = NDIRECT + 1" by (rule inode_okD(2) [OF ok(2)])
  show ij: "ind j = ind i" using n(1) by (simp add: j_def)
  have "fblk ?W j m = ((fblk ?W i)(n := of_nat x)) m" for m
    using n(1) len ij unfolding fblk_def by (auto simp: j_def nth_list_update)
  then show f: "fblk ?W j = (fblk V i)(n := of_nat x)" using fblk_claim [OF ok(2) x] by (simp add: fun_eq_iff)
  have fr: "\<not> in_use_blk V sp (of_nat x)" "of_nat x \<notin> fs_meta sp A"
    using free_not_in_use [OF x] fs_ok_free [OF ok(1) x] by auto
  have z: "fblk V i n = 0" using n by (simp add: fblk_def)
  have "blocks_ok (in_use_blk ?W sp) (fs_meta sp A) (fblk ?W j) (ind j)"
    unfolding f ij in_use_claim [OF ok(1) x, abs_def]
    using ok(2) by (intro blocks_ok_link fr z) (simp add: inode_ok_def)
  then have "inode_ok ?W sp A j" using inode_okD(1,2) [OF ok(2)] by (simp add: inode_ok_def j_def)
  moreover have "?W (of_nat x) = replicate BSIZE 0" by (simp add: claim_apply)
  ultimately show "grown sp A V i ?W j"
    unfolding grown_def f ij
    using fs_ok_claim [OF ok(1) x] claim_other(1) [OF _ _ x] in_use_claim [OF ok(1) x] claim_inode_block [OF ok(1) x] z fr(1)
    by (auto simp: j_def)
qed

lemma grow_index:
  assumes ok: "fs_ok V sp A" "inode_ok V sp A i" and x: "x < unat (sb_size sp)" "\<not> used V sp x" and n: "ind i = 0"
  defines "j \<equiv> i\<lparr>i_addrs := (i_addrs i)[NDIRECT := of_nat x]\<rparr>"
  shows "grown sp A V i (claim sp x V) j" "fblk (claim sp x V) j n = fblk V i n \<or> \<not> n < MAXFILE" "ind j = of_nat x"
proof -
  let ?W = "claim sp x V"
  have len: "length (i_addrs i) = NDIRECT + 1" by (rule inode_okD(2) [OF ok(2)])
  show ij: "ind j = of_nat x" using len by (simp add: j_def)
  have zero: "?W (of_nat x) = replicate BSIZE 0" by (simp add: claim_apply)
  have z: "indirect_get (replicate BSIZE 0) k = 0" if "k < NINDIRECT" for k
    using that by (rule indirect_get_zero)
  have f: "fblk ?W j n = fblk V i n" if "n < MAXFILE" for n
  proof (cases "n < NDIRECT")
    case True
    then show ?thesis by (simp add: fblk_def j_def)
  next
    case False
    have "fblk ?W j n = indirect_get (?W (ind j)) (n - NDIRECT)" using False ij fs_ok_free [OF ok(1) x] by (simp add: fblk_def fs_meta_def)
    then show ?thesis using False n z [OF MAXFILE_split(2) [OF that False]] by (simp add: ij zero fblk_def)
  qed
  then show "fblk ?W j n = fblk V i n \<or> \<not> n < MAXFILE" by blast
  have fr: "\<not> in_use_blk V sp (of_nat x)" "of_nat x \<notin> fs_meta sp A"
    using free_not_in_use [OF x] fs_ok_free [OF ok(1) x] by auto
  have "blocks_ok (in_use_blk ?W sp) (fs_meta sp A) (fblk V i) (ind j)"
    unfolding ij in_use_claim [OF ok(1) x, abs_def]
    using ok(2) n by (intro blocks_ok_index fr) (simp add: inode_ok_def)
  then have "inode_ok ?W sp A j"
    using inode_okD(1,2) [OF ok(2)] blocks_ok_cong [OF f] unfolding inode_ok_def by (auto simp: j_def)
  then show "grown sp A V i ?W j"
    unfolding grown_def ij
    using fs_ok_claim [OF ok(1) x] claim_other(1) [OF _ _ x] in_use_claim [OF ok(1) x] claim_inode_block [OF ok(1) x] f n fr(1)
    by (auto simp: j_def)
qed

text \<open>Changing a block outside the bitmap.\<close>

lemma used_upd: "c \<notin> bitmap_blocks sp \<Longrightarrow> y < unat (sb_size sp) \<Longrightarrow> used (V(c := d)) sp y = used V sp y"
  using BBLOCK_bitmap [of y sp] by (auto simp: used_def)

lemma in_use_upd: "c \<notin> bitmap_blocks sp \<Longrightarrow> in_use_blk (V(c := d)) sp = in_use_blk V sp"
  using used_upd [of c sp _ V d] by (auto simp: in_use_blk_def fun_eq_iff)

lemma fs_ok_upd: "fs_ok V sp A \<Longrightarrow> c \<notin> bitmap_blocks sp \<Longrightarrow> length d = BSIZE \<Longrightarrow> fs_ok (V(c := d)) sp A"
  using used_upd [of c sp _ V d] by (auto simp: fs_ok_def)

lemma indirect_put:
  assumes "k < NINDIRECT" "m < NINDIRECT" "length bs = BSIZE"
  shows "indirect_get (put_le 4 (4 * k) a bs) m = (if m = k then a else indirect_get bs m)"
proof (cases "m = k")
  case True
  then show ?thesis using assms by (simp add: indirect_get_def get_put_le_same NINDIRECT_def BSIZE_def)
next
  case False
  then have "4 * m + 4 \<le> 4 * k \<or> 4 * k + 4 \<le> 4 * m" by auto
  then show ?thesis using False assms by (simp add: indirect_get_def get_put_le_other NINDIRECT_def BSIZE_def)
qed

lemma grow_entry:
  assumes ok: "fs_ok V sp A" "inode_ok V sp A i" and x: "x < unat (sb_size sp)" "\<not> used V sp x"
    and n: "\<not> n < NDIRECT" "n < MAXFILE" "ind i \<noteq> 0" "fblk V i n = 0"
  defines "W \<equiv> (claim sp x V)(ind i := put_le 4 (4 * (n - NDIRECT)) (of_nat x :: uint32) (V (ind i)))"
  shows "grown sp A V i W i" "m < MAXFILE \<Longrightarrow> fblk W i m = ((fblk V i)(n := of_nat x)) m"
proof -
  let ?C = "claim sp x V" and ?k = "n - NDIRECT"
  have iu: "in_use_blk V sp (ind i)" "ind i \<notin> fs_meta sp A" using inode_okD(4) [OF ok(2) n(3)] by auto
  have bm: "ind i \<notin> bitmap_blocks sp" "ind i \<notin> inode_blocks sp" using iu(2) by (auto simp: fs_meta_def)
  have len: "length (V b) = BSIZE" for b using ok(1) by (simp add: fs_ok_def)
  have f: "fblk W i m = ((fblk V i)(n := of_nat x)) m" if "m < MAXFILE" for m
  proof (cases "m < NDIRECT")
    case True
    then show ?thesis using n(1) by (auto simp: fblk_def)
  next
    case False
    have "indirect_get (W (ind i)) (m - NDIRECT) = (if m - NDIRECT = ?k then of_nat x else indirect_get (V (ind i)) (m - NDIRECT))"
      unfolding W_def fun_upd_same by (rule indirect_put [OF MAXFILE_split(2) [OF n(2,1)] MAXFILE_split(2) [OF that False] len])
    moreover have "m - NDIRECT = ?k \<longleftrightarrow> m = n" using False n(1) by auto
    ultimately show ?thesis using False n(1,3) by (auto simp: fblk_def)
  qed
  then show "m < MAXFILE \<Longrightarrow> fblk W i m = ((fblk V i)(n := of_nat x)) m" .
  have fr: "\<not> in_use_blk V sp (of_nat x)" "of_nat x \<notin> fs_meta sp A"
    using free_not_in_use [OF x] fs_ok_free [OF ok(1) x] by auto
  have uW: "in_use_blk W sp b \<longleftrightarrow> b = of_nat x \<or> in_use_blk V sp b" for b
    unfolding W_def in_use_upd [OF bm(1)] by (rule in_use_claim [OF ok(1) x])
  have B: "blocks_ok (in_use_blk W sp) (fs_meta sp A) ((fblk V i)(n := of_nat x)) (ind i)"
    unfolding uW [abs_def] using ok(2) by (intro blocks_ok_link fr n(4)) (simp add: inode_ok_def)
  have "blocks_ok (in_use_blk W sp) (fs_meta sp A) (fblk W i) (ind i)" by (rule blocks_ok_cong [OF f _ B])
  then have "inode_ok W sp A i" using inode_okD(1,2) [OF ok(2)] by (simp add: inode_ok_def)
  moreover have "fs_ok W sp A" unfolding W_def 
    using len MAXFILE_split(2) [OF n(2,1)] by (intro fs_ok_upd fs_ok_claim ok x bm) (simp add: NINDIRECT_def BSIZE_def)
  moreover have "W (of_nat x) = replicate BSIZE 0" using fr(1) iu(1) by (auto simp: W_def claim_apply)
  moreover have "W b = V b" if "in_use_blk V sp b" "b \<notin> fs_meta sp A" "b \<noteq> ind i" for b
    using claim_other(1) [OF that(1,2) x] that(3) by (simp add: W_def)
  moreover have "W b = V b" if "b \<in> inode_blocks sp" for b
    using claim_inode_block [OF ok(1) x that] bm(2) that by (auto simp: W_def)
  ultimately show "grown sp A V i W i" unfolding grown_def using f uW n(4) fr(1) by (auto simp: fun_upd_apply)
qed

section \<open>bmap\<close>

text \<open>Replacing an inode of the table touches nothing that a transaction looks at.\<close>

definition setino :: "nat \<Rightarrow> inode \<Rightarrow> 'a kfs_scheme \<Rightarrow> 'a kfs_scheme" where
  "setino ip j s = s\<lparr>inodes := (inodes s)[ip := j]\<rparr>"

lemma upd_inode_setino: "upd_inode ip f s = setino ip (f (inodes s ! ip)) s"
  by (simp add: upd_inode_def setino_def)

lemma setino_simps [simp]:
  "inodes (setino ip j s) = (inodes s)[ip := j]" "sb (setino ip j s) = sb s" "setino ip j (setino ip i s) = setino ip j s"
  "setino ip (inodes s ! ip) s = s" "bufs (setino ip j s) = bufs s" "disk (setino ip j s) = disk s" "dtrace (setino ip j s) = dtrace s"
  "procs (setino ip j s) = procs s" "lh (setino ip j s) = lh s" "log_start (setino ip j s) = log_start s"
  "log_dev (setino ip j s) = log_dev s" "log_outstanding (setino ip j s) = log_outstanding s"
  "log_committing (setino ip j s) = log_committing s" "lru (setino ip j s) = lru s" "mypid me (setino ip j s) = mypid me s"
  by (simp_all add: setino_def mypid_def)

lemma setino_cache [simp]:
  "bview (setino ip j s) = bview s" "pins (setino ip j s) = pins s" "locked (setino ip j s) = locked s"
  "bcache_inv (setino ip j s) = bcache_inv s" "holds me (setino ip j s) b k = holds me s b k"
  "logged (setino ip j s) = logged s" "log_area (setino ip j s) = log_area s" "log_geom (setino ip j s) = log_geom s"
proof -
  show "bview (setino ip j s) = bview s" "pins (setino ip j s) = pins s" "locked (setino ip j s) = locked s"
    by (rule bmap_cong; simp)+
  show "bcache_inv (setino ip j s) = bcache_inv s" by (simp add: bcache_inv_def)
  then show "holds me (setino ip j s) b k = holds me s b k" by (simp add: holds_def cached_def)
qed (simp_all add: logged_def log_area_def log_head_def log_slot_def log_geom_def)

lemma in_tx_setino [simp]: "in_tx me L F k (setino ip j s) = in_tx me L F k s"
  by (simp add: in_tx_def)

lemma tx_same_setino: "tx_same me s t \<Longrightarrow> tx_same me (setino ip j s) (setino ip j t)"
  using tx_same_fs [of me s t] by (simp add: tx_same_def) (cases s, cases t, simp add: setino_def)

lemma tx_step_setino: "tx_step me L F k s V A t \<Longrightarrow> tx_step me L F k (setino ip j s) V A (setino ip j t)"
  by (auto simp: tx_step_def intro: tx_same_setino)

text \<open>A stretch of a transaction after which inode \<open>ip\<close> is \<open>j\<close>.\<close>

definition file_step :: "nat \<Rightarrow> uint32 set \<Rightarrow> uint32 set \<Rightarrow> nat \<Rightarrow> nat \<Rightarrow> 'a kfs_scheme \<Rightarrow> (uint32 \<Rightarrow> byte list) \<Rightarrow> inode \<Rightarrow>
    uint32 set \<Rightarrow> 'a kfs_scheme \<Rightarrow> bool" where
  "file_step me L F k ip s V j B t \<longleftrightarrow> tx_step me L F k (setino ip j s) V B t"

lemma file_step_trans:
  assumes "file_step me L F k ip s V i B t" "file_step me L F k' ip t W j C u"
  shows "file_step me L F k' ip s W j (C \<union> B) u"
  using tx_step_trans [OF tx_step_setino [OF assms(1) [unfolded file_step_def], of ip j] assms(2) [unfolded file_step_def]]
  by (simp add: file_step_def)

lemma file_step_plain: "tx_step me L F k s V B t \<Longrightarrow> file_step me L F k ip s V (inodes s ! ip) B t"
  by (simp add: file_step_def)

lemma file_step_set: "tx_step me L F k s V B t \<Longrightarrow> file_step me L F k ip s V j B (setino ip j t)"
  unfolding file_step_def by (rule tx_step_setino)

lemma file_step_mono: "file_step me L F k ip s V j B t \<Longrightarrow> k' \<le> k \<Longrightarrow> file_step me L F k' ip s V j B t"
  unfolding file_step_def by (rule tx_step_mono)

lemma file_stepD:
  assumes "file_step me L F k ip s V j B t"
  shows "bview t = V" "in_tx me L F k t" "logged t = B \<union> logged s" "log_area t = log_area s" "sb t = sb s"
    "log_outstanding t = log_outstanding s" "inodes t = (inodes s)[ip := j]" "disk t = disk s" "holds me s c l \<Longrightarrow> holds me t c l"
  using tx_stepD [OF assms [unfolded file_step_def]] tx_same_fs [of me "setino ip j s" t] assms
  by (auto simp: tx_same_def file_step_def tx_step_def)

text \<open>What the index block may still cost.\<close>

definition idx_cost :: "'a klog_scheme \<Rightarrow> inode \<Rightarrow> nat" where
  "idx_cost s i = (if ind i \<noteq> 0 \<and> ind i \<in> logged s then 0 else 1)"

text \<open>The state in which a file operation runs.\<close>

definition file_tx :: "nat \<Rightarrow> uint32 set \<Rightarrow> nat \<Rightarrow> nat \<Rightarrow> 'a kfs_scheme \<Rightarrow> bool" where
  "file_tx me F r ip s \<longleftrightarrow> in_tx me {} F (r + idx_cost s (inodes s ! ip)) s \<and> 1 \<le> log_outstanding s \<and>
     bitmap_blocks (sb s) \<subseteq> F \<and> ip < length (inodes s) \<and>
     fs_ok (bview s) (sb s) (log_area s) \<and> inode_ok (bview s) (sb s) (log_area s) (inodes s ! ip)"

definition bmap_post :: "nat \<Rightarrow> uint32 set \<Rightarrow> nat \<Rightarrow> nat \<Rightarrow> nat \<Rightarrow> 'a kfs_scheme \<Rightarrow> uint32 \<Rightarrow> 'a kfs_scheme \<Rightarrow> bool" where
  "bmap_post me F r ip n s a t \<longleftrightarrow> (\<exists>W j B k. file_step me {} F k ip s W j B t \<and>
     grown (sb s) (log_area s) (bview s) (inodes s ! ip) W j \<and> fblk W j n = a \<and>
     (a = 0 \<longrightarrow> disk_full W (sb s)) \<and> r + idx_cost t j \<le> k \<and> (a \<noteq> 0 \<longrightarrow> a \<notin> logged t \<longrightarrow> Suc r + idx_cost t j \<le> k))"

lemma idx_cost_mono: "logged s \<subseteq> logged t \<Longrightarrow> ind j = ind i \<Longrightarrow> idx_cost t j \<le> idx_cost s i"
  by (auto simp: idx_cost_def)

lemma fs_alloc_ok:
  assumes "fs_ok (bview s) (sb s) (log_area s)" "1 \<le> log_outstanding s"
    "\<And>b. b \<in> L \<Longrightarrow> in_use_blk (bview s) (sb s) b \<and> b \<notin> fs_meta (sb s) (log_area s)"
  shows "alloc_ok L s"
proof -
  have "of_nat x \<notin> L" if "x < unat (sb_size (sb s))" "\<not> used (bview s) (sb s) x" for x
    using free_not_in_use [OF that] assms(3) by blast
  then show ?thesis using assms by (auto simp: alloc_ok_def fs_ok_def fs_meta_def)
qed

lemma balloc_cases:
  assumes tx: "in_tx me L F k s" and ok: "alloc_ok L s" and F: "bitmap_blocks (sb s) \<subseteq> F" and k: "0 < k"
  obtains (full) t where "balloc me 1 s = Ok (0, t)" "tx_step me L F k s (bview s) {} t" "disk_full (bview s) (sb s)"
  | (found) x t where "balloc me 1 s = Ok (of_nat x, t)" "x < unat (sb_size (sb s))" "\<not> used (bview s) (sb s) x"
      "tx_step me L F (k - 1) s (claim (sb s) x (bview s)) {of_nat x, BBLOCK (of_nat x) (sb s)} t" "(of_nat x :: uint32) \<noteq> 0"
proof -
  obtain r t where r: "balloc me 1 s = Ok (r, t)" "balloc_post me L F k 0 s r t" using balloc_spec [OF assms] by blast
  show thesis
  proof (cases "first_free (bview s) (sb s) 0")
    case None
    then have "disk_full (bview s) (sb s)" by (simp add: disk_full_def first_free_def find_None_iff)
    then show thesis using None r by (intro full) (auto simp: balloc_post_def)
  next
    case (Some x)
    then have x: "x < unat (sb_size (sb s))" "\<not> used (bview s) (sb s) x" by (auto simp: first_free_def find_upt_Some)
    then have "(of_nat x :: uint32) \<noteq> 0" using ok unfolding alloc_ok_def by auto
    then show thesis using r Some x by (intro found) (auto simp: balloc_post_def)
  qed
qed

lemma bmap_postI:
  assumes "file_step me {} F k ip s W j B t" "grown (sb s) (log_area s) (bview s) (inodes s ! ip) W j" "fblk W j n = a"
    "r + idx_cost t j \<le> k" "a = 0 \<Longrightarrow> disk_full W (sb s)" "a \<noteq> 0 \<Longrightarrow> a \<notin> logged t \<Longrightarrow> Suc r + idx_cost t j \<le> k"
  shows "bmap_post me F r ip n s a t"
  using assms unfolding bmap_post_def by blast

lemma bmap_direct:
  assumes tx: "file_tx me F (Suc r) ip s" and n: "unat bn < NDIRECT"
  shows "\<exists>a t. bmap me ip bn s = Ok (a, t) \<and> bmap_post me F r ip (unat bn) s a t"
proof -
  let ?i = "inodes s ! ip" and ?n = "unat bn" and ?V = "bview s" and ?sp = "sb s"
  have T: "in_tx me {} F (Suc r + idx_cost s ?i) s" "1 \<le> log_outstanding s" "bitmap_blocks ?sp \<subseteq> F"
    "fs_ok ?V ?sp (log_area s)" "inode_ok ?V ?sp (log_area s) ?i"
    using tx by (auto simp: file_tx_def)
  have g: "grown ?sp (log_area s) ?V ?i ?V ?i" by (rule grown_refl [OF T(4,5)])
  have f: "fblk ?V ?i ?n = i_addrs ?i ! ?n" using n by (simp add: fblk_def)
  show ?thesis
  proof (cases "i_addrs ?i ! ?n = 0")
    case False
    then have "bmap me ip bn s = Ok (i_addrs ?i ! ?n, s)" using n by (simp add: bmap_def Let_def)
    moreover have "bmap_post me F r ip ?n s (i_addrs ?i ! ?n) s"
      by (rule bmap_postI [OF file_step_plain [OF tx_step_refl [OF T(1)]] g f]) (use False in simp_all)
    ultimately show ?thesis by blast
  next
    case zero: True
    have dev: "i_dev ?i = 1" by (rule inode_okD(1) [OF T(5)])
    have al: "alloc_ok {} s" by (rule fs_alloc_ok [OF T(4,2)]) simp
    have k: "0 < Suc r + idx_cost s ?i" by simp
    from T(1) al T(3) k show ?thesis
    proof (cases rule: balloc_cases)
      case (full t)
      then have "bmap me ip bn s = Ok (0, t)" using n zero dev by (simp add: bmap_def Let_def)
      moreover have ic: "idx_cost t ?i \<le> idx_cost s ?i" by (rule idx_cost_mono) (use tx_stepD(4) [OF full(2)] in auto)
      have "bmap_post me F r ip ?n s (i_addrs ?i ! ?n) t"
        by (rule bmap_postI [OF file_step_plain [OF full(2)] g f]) (use zero full(3) ic in simp_all)
      ultimately show ?thesis using zero by auto
    next
      case (found x t)
      let ?j = "?i\<lparr>i_addrs := (i_addrs ?i)[?n := of_nat x]\<rparr>"
      note G = grow_direct [OF T(4,5) found(2,3) n zero]
      have it: "inodes t ! ip = ?i" using tx_same_fs(2) [OF tx_stepD(3) [OF found(4)]] by simp
      then have "bmap me ip bn s = Ok (of_nat x, setino ip ?j t)"
        using n zero dev found(1,5) by (simp add: bmap_def Let_def upd_inode_setino)
      moreover
      have fs: "file_step me {} F (Suc r + idx_cost s ?i - 1) ip s (claim ?sp x ?V) ?j {of_nat x, BBLOCK (of_nat x) ?sp} (setino ip ?j t)"
        by (rule file_step_set [OF found(4)])
      have lg: "of_nat x \<in> logged (setino ip ?j t)" using file_stepD(3) [OF fs] by simp
      have ic: "idx_cost (setino ip ?j t) ?j \<le> idx_cost s ?i"
        by (rule idx_cost_mono) (use file_stepD(3) [OF fs] G(3) in auto)
      have "bmap_post me F r ip ?n s (of_nat x) (setino ip ?j t)"
        by (rule bmap_postI [OF fs G(1)]) (use ic lg found(5) in \<open>simp_all add: G(2)\<close>)
      ultimately show ?thesis by blast
    qed
  qed
qed

text \<open>The part of \<open>bmap\<close> that reads the index block at \<open>addr\<close> and fills its entry \<open>bn\<close>.\<close>

definition bmap_entry :: "nat \<Rightarrow> nat \<Rightarrow> nat \<Rightarrow> uint32 \<Rightarrow> 'a kfs_scheme \<Rightarrow> (uint32 \<times> 'a kfs_scheme) outcome" where
  "bmap_entry me ip bn addr s = bindO (bread me (i_dev (inodes s ! ip)) addr s) (\<lambda>(bp, s).
     bindO (let addr = indirect_get (b_data (bufs s ! bp)) bn in
        if addr = 0 then
          bindO (balloc me (i_dev (inodes s ! ip)) s) (\<lambda>(addr, s).
            if addr \<noteq> 0
            then bindO (log_write bp (set_data bp (put_le 4 (4 * bn) addr (b_data (bufs s ! bp))) s)) (\<lambda>s. Ok (addr, s))
            else Ok (addr, s))
        else Ok (addr, s)) (\<lambda>(addr, s).
     bindO (brelse me bp s) (\<lambda>s. Ok (addr, s))))"

lemma bmap_far:
  assumes "\<not> unat bn < NDIRECT" "unat bn < MAXFILE"
  shows "bmap me ip bn s =
    (if ind (inodes s ! ip) \<noteq> 0 then bmap_entry me ip (unat bn - NDIRECT) (ind (inodes s ! ip)) s
     else bindO (balloc me (i_dev (inodes s ! ip)) s) (\<lambda>(addr, s). if addr = 0 then Ok (0, s)
       else bmap_entry me ip (unat bn - NDIRECT) addr (upd_inode ip (\<lambda>i. i\<lparr>i_addrs := (i_addrs i)[NDIRECT := addr]\<rparr>) s)))"
proof -
  have "unat bn - NDIRECT < NINDIRECT" by (rule MAXFILE_split(2) [OF assms(2,1)])
  then show ?thesis
    using assms(1) unfolding bmap_def bmap_entry_def Let_def
    by (cases "balloc me (i_dev (inodes s ! ip)) s") (auto split: prod.split)
qed

lemma bmap_entry_found:
  assumes tx: "file_tx me F (Suc r) ip s" and n: "\<not> n < NDIRECT" "n < MAXFILE" "ind (inodes s ! ip) \<noteq> 0"
    and f: "fblk (bview s) (inodes s ! ip) n \<noteq> 0"
  shows "\<exists>a t. bmap_entry me ip (n - NDIRECT) (ind (inodes s ! ip)) s = Ok (a, t) \<and> bmap_post me F r ip n s a t"
proof -
  let ?i = "inodes s ! ip" and ?V = "bview s" and ?b = "ind (inodes s ! ip)" and ?k = "Suc r + idx_cost s (inodes s ! ip)"
  have T: "in_tx me {} F ?k s" "fs_ok ?V (sb s) (log_area s)" "inode_ok ?V (sb s) (log_area s) ?i"
    using tx by (auto simp: file_tx_def)
  obtain bp u t where r: "bread me 1 ?b s = Ok (bp, u)" "b_data (bufs u ! bp) = ?V ?b" "tx_same me s u" "brelse me bp u = Ok t"
    "tx_step me {} F ?k s ?V {} t"
    using tx_step_peek [OF T(1), of ?b] by auto
  have e: "indirect_get (?V ?b) (n - NDIRECT) = fblk ?V ?i n" using n by (simp add: fblk_def)
  have "bmap_entry me ip (n - NDIRECT) ?b s = Ok (fblk ?V ?i n, t)"
    unfolding bmap_entry_def inode_okD(1) [OF T(3)] r(1) using r(2,4) e f by simp
  moreover have "bmap_post me F r ip n s (fblk ?V ?i n) t"
  proof (rule bmap_postI [OF file_step_plain [OF r(5)] grown_refl [OF T(2,3)] refl])
    have "idx_cost t ?i \<le> idx_cost s ?i" by (rule idx_cost_mono) (use tx_stepD(4) [OF r(5)] in auto)
    then show "r + idx_cost t ?i \<le> ?k" "Suc r + idx_cost t ?i \<le> ?k" by simp_all
  qed (use f in simp)
  ultimately show ?thesis by blast
qed

lemma no_holds: "in_tx me {} F k s \<Longrightarrow> \<not> holds me s c j"
  by (auto simp: in_tx_def dest: holdsD(7))

lemma bmap_entry_new:
  assumes tx: "file_tx me F (Suc r) ip s" and n: "\<not> n < NDIRECT" "n < MAXFILE" "ind (inodes s ! ip) \<noteq> 0"
    and f: "fblk (bview s) (inodes s ! ip) n = 0"
  shows "\<exists>a t. bmap_entry me ip (n - NDIRECT) (ind (inodes s ! ip)) s = Ok (a, t) \<and> bmap_post me F r ip n s a t"
proof -
  let ?i = "inodes s ! ip" and ?V = "bview s" and ?sp = "sb s" and ?b = "ind (inodes s ! ip)" and ?A = "log_area s"
  let ?k = "Suc r + idx_cost s ?i" and ?e = "n - NDIRECT"
  have T: "in_tx me {} F ?k s" "fs_ok ?V ?sp ?A" "inode_ok ?V ?sp ?A ?i" "1 \<le> log_outstanding s" "bitmap_blocks ?sp \<subseteq> F"
    using tx by (auto simp: file_tx_def)
  have ib: "in_use_blk ?V ?sp ?b" "?b \<notin> fs_meta ?sp ?A" using inode_okD(4) [OF T(3) n(3)] by auto
  have e: "indirect_get (?V ?b) ?e = 0" using f n by (simp add: fblk_def)
  have dev: "i_dev ?i = 1" by (rule inode_okD(1) [OF T(3)])
  have room: "?b \<notin> {}" "?b \<in> F \<union> logged s \<or> 0 < ?k" by simp_all
  obtain bp u where r: "bread me 1 ?b s = Ok (bp, u)" "holds me u ?b bp" "b_data (bufs u ! bp) = ?V ?b" "bview u = ?V"
    "in_tx me {?b} F (if ?b \<in> F \<union> logged s then ?k else ?k - 1) u" "tx_same me s u" "lh u = lh s"
    using tx_bread [OF T(1) room] by (metis (no_types, lifting))
  let ?k2 = "if ?b \<in> F \<union> logged s then ?k else ?k - 1"
  have k2: "Suc r \<le> ?k2" "0 < ?k2" using n(3) by (auto simp: idx_cost_def)
  note U = tx_same_fs(1,2) [OF r(6)] tx_same_area [OF r(6)] logged_cong [OF r(7)]
  have al: "alloc_ok {?b} u" using T(2,4) ib r(4,6) by (intro fs_alloc_ok) (auto simp: U tx_same_def)
  have F: "bitmap_blocks (sb u) \<subseteq> F" using T(5) by (simp add: U)
  from r(5) al F k2(2) show ?thesis
  proof (cases rule: balloc_cases)
    case (full v)
    note P = tx_stepD [OF full(2)]
    have hv: "holds me v ?b bp" using full(2) r(2) by (simp add: tx_step_def)
    have lv: "logged v = logged s" using P(4) U(4) by simp
    obtain t where t: "brelse me bp v = Ok t" "bview t = bview v" "tx_same me v t" "lh t = lh v"
      "in_tx me ({?b} - {?b}) F (if ?b \<in> F \<union> logged v then ?k2 else Suc ?k2) t"
      using tx_brelse [OF P(2) hv] by (metis (no_types, lifting))
    have "in_tx me {} F ?k t" using t(5) k2(2) unfolding lv by (auto split: if_splits)
    moreover have "tx_same me s t" by (rule tx_same_trans [OF r(6) tx_same_trans [OF P(3) t(3)]])
    moreover have lt: "logged t = logged s" using logged_cong [OF t(4)] lv by simp
    ultimately have st: "tx_step me {} F ?k s ?V {} t"
      using no_holds [OF T(1)] t(2) P(1) r(4) by (simp add: tx_step_def)
    have "bmap_post me F r ip n s 0 t"
    proof (rule bmap_postI [OF file_step_plain [OF st] grown_refl [OF T(2,3)] f])
      have "idx_cost t ?i \<le> idx_cost s ?i" by (rule idx_cost_mono) (use lt in auto)
      then show "r + idx_cost t ?i \<le> ?k" by simp
    qed (use full(3) r(4) in \<open>simp_all add: U\<close>)
    moreover have "bmap_entry me ip ?e ?b s = Ok (0, t)"
      unfolding bmap_entry_def dev r(1) using r(3) e full(1) t(1) dev by (simp add: U)
    ultimately show ?thesis by blast
  next
    case (found x v)
    let ?C = "claim ?sp x ?V" and ?d = "put_le 4 (4 * ?e) (of_nat x :: uint32) (?V ?b)"
    have x: "x < unat (sb_size ?sp)" "\<not> used ?V ?sp x" using found(2,3) by (simp_all add: U r(4))
    note P = tx_stepD [OF found(4)] and G = grow_entry [OF T(2,3) x n f]
    have hv: "holds me v ?b bp" using found(4) r(2) by (simp add: tx_step_def)
    have bv: "b_data (bufs v ! bp) = ?V ?b"
      using holdsD(5) [OF hv] P(1) claim_other(1) [OF ib x] by (simp add: U r(4))
    have len: "length ?d = BSIZE" using T(2) MAXFILE_split(2) [OF n(2,1)] by (simp add: fs_ok_def NINDIRECT_def BSIZE_def)
    have area: "?b \<notin> log_area v" "1 \<le> log_outstanding v"
      using ib(2) P(5,6) T(4) r(6) by (auto simp: fs_meta_def U tx_same_def)
    obtain w where w: "log_write bp (set_data bp ?d v) = Ok w" "holds me w ?b bp" "bview w = (bview v)(?b := ?d)"
      "in_tx me {?b} F (?k2 - 1) w" "tx_same me v w" "logged w = insert ?b (logged v)"
      using tx_log_write [OF P(2) hv len area] by (metis (no_types, lifting))
    obtain t where t: "brelse me bp w = Ok t" "bview t = bview w" "tx_same me w t" "lh t = lh w"
      "in_tx me ({?b} - {?b}) F (if ?b \<in> F \<union> logged w then ?k2 - 1 else Suc (?k2 - 1)) t"
      using tx_brelse [OF w(4,2)] by (metis (no_types, lifting))
    let ?W = "?C(?b := ?d)" and ?B = "{?b, of_nat x, BBLOCK (of_nat x) ?sp}"
    have lt: "logged t = ?B \<union> logged s" using logged_cong [OF t(4)] w(6) P(4) U(1,4) by auto
    have "in_tx me {} F (?k2 - 1) t" using t(5) w(6) by simp
    moreover have "tx_same me s t"
      by (rule tx_same_trans [OF r(6) tx_same_trans [OF P(3) tx_same_trans [OF w(5) t(3)]]])
    ultimately have st: "tx_step me {} F (?k2 - 1) s ?W ?B t"
      using no_holds [OF T(1)] t(2) w(3) P(1) lt by (simp add: tx_step_def U r(4))
    have "bmap_post me F r ip n s (of_nat x) t"
    proof (rule bmap_postI [OF file_step_plain [OF st] G(1)])
      show "fblk ?W ?i n = of_nat x" using G(2) [OF n(2)] by simp
      show "r + idx_cost t ?i \<le> ?k2 - 1" using k2(1) lt n(3) by (simp add: idx_cost_def)
    qed (use found(5) in \<open>simp_all add: lt\<close>)
    moreover have "bmap_entry me ip ?e ?b s = Ok (of_nat x, t)"
      unfolding bmap_entry_def dev r(1) using r(3) e found(1,5) bv w(1) t(1) dev by (simp add: U)
    ultimately show ?thesis by blast
  qed
qed

lemma bmap_entry_spec:
  assumes "file_tx me F (Suc r) ip s" "\<not> n < NDIRECT" "n < MAXFILE" "ind (inodes s ! ip) \<noteq> 0"
  shows "\<exists>a t. bmap_entry me ip (n - NDIRECT) (ind (inodes s ! ip)) s = Ok (a, t) \<and> bmap_post me F r ip n s a t"
  using bmap_entry_found [OF assms] bmap_entry_new [OF assms] by blast

lemma bmap_post_trans:
  assumes st: "file_step me {} F k ip s W j B t" and g: "grown (sb s) (log_area s) (bview s) (inodes s ! ip) W j"
    and ip: "ip < length (inodes s)" and post: "bmap_post me F r ip n t a u"
  shows "bmap_post me F r ip n s a u"
proof -
  note S = file_stepD [OF st]
  have it: "inodes t ! ip = j" using S(7) ip by simp
  obtain X l C k' where p: "file_step me {} F k' ip t X l C u" "grown (sb s) (log_area s) W j X l" "fblk X l n = a"
    "r + idx_cost u l \<le> k'" "a = 0 \<longrightarrow> disk_full X (sb s)" "a \<noteq> 0 \<longrightarrow> a \<notin> logged u \<longrightarrow> Suc r + idx_cost u l \<le> k'"
    using post unfolding bmap_post_def it S(1,4,5) by blast
  show ?thesis
    by (rule bmap_postI [OF file_step_trans [OF st p(1)] grown_trans [OF g p(2)] p(3,4)]) (use p(5,6) in blast)+
qed

lemma bmap_spec:
  assumes tx: "file_tx me F (Suc r) ip s" and n: "unat bn < MAXFILE"
  shows "\<exists>a t. bmap me ip bn s = Ok (a, t) \<and> bmap_post me F r ip (unat bn) s a t"
proof (cases "unat bn < NDIRECT")
  case True
  then show ?thesis by (rule bmap_direct [OF tx])
next
  case far: False
  let ?i = "inodes s ! ip" and ?n = "unat bn" and ?V = "bview s" and ?sp = "sb s" and ?A = "log_area s"
  let ?k = "Suc r + idx_cost s ?i"
  have T: "in_tx me {} F ?k s" "fs_ok ?V ?sp ?A" "inode_ok ?V ?sp ?A ?i" "1 \<le> log_outstanding s" "bitmap_blocks ?sp \<subseteq> F"
    "ip < length (inodes s)"
    using tx by (auto simp: file_tx_def)
  show ?thesis
  proof (cases "ind ?i = 0")
    case False
    then show ?thesis using bmap_entry_spec [OF tx far n False] by (simp add: bmap_far [OF far n])
  next
    case zero: True
    have f: "fblk ?V ?i ?n = 0" using far zero by (simp add: fblk_def)
    have dev: "i_dev ?i = 1" by (rule inode_okD(1) [OF T(3)])
    have al: "alloc_ok {} s" by (rule fs_alloc_ok [OF T(2,4)]) simp
    have k: "0 < ?k" "?k - 1 = Suc r" using zero by (simp_all add: idx_cost_def)
    from T(1) al T(5) k(1) show ?thesis
    proof (cases rule: balloc_cases)
      case (full t)
      have "bmap_post me F r ip ?n s 0 t"
        by (rule bmap_postI [OF file_step_plain [OF full(2)] grown_refl [OF T(2,3)] f])
          (use zero full(3) in \<open>simp_all add: idx_cost_def\<close>)
      then show ?thesis using zero dev full(1) by (simp add: bmap_far [OF far n])
    next
      case (found x t)
      let ?j = "?i\<lparr>i_addrs := (i_addrs ?i)[NDIRECT := of_nat x]\<rparr>"
      let ?t = "setino ip ?j t"
      note G = grow_index [OF T(2,3) found(2,3) zero]
      have st: "file_step me {} F (Suc r) ip s (claim ?sp x ?V) ?j {of_nat x, BBLOCK (of_nat x) ?sp} ?t"
        using file_step_set [OF found(4)] unfolding k(2) .
      note S = file_stepD [OF st]
      have it: "inodes t = inodes s" "inodes ?t ! ip = ?j"
        using tx_same_fs(2) [OF tx_stepD(3) [OF found(4)]] T(6) by simp_all
      have "idx_cost ?t ?j = 0" using S(3) G(3) found(5) by (simp add: idx_cost_def)
      then have ft: "file_tx me F (Suc r) ip ?t"
        using S(2) T(4-6) grownD(1,2) [OF G(1)] unfolding file_tx_def it S(1,4-6) by (simp add: it(1))
      have ne: "ind (inodes ?t ! ip) \<noteq> 0" using G(3) found(5) it(2) by simp
      obtain a u where u: "bmap_entry me ip (?n - NDIRECT) (ind (inodes ?t ! ip)) ?t = Ok (a, u)" "bmap_post me F r ip ?n ?t a u"
        using bmap_entry_spec [OF ft far n ne] by blast
      have "bmap_post me F r ip ?n s a u" by (rule bmap_post_trans [OF st G(1) T(6) u(2)])
      moreover have "bmap me ip bn s = Ok (a, u)"
        using u(1) found(1,5) zero dev unfolding it(2) G(3) by (simp add: bmap_far [OF far n] upd_inode_setino it(1))
      ultimately show ?thesis by blast
    qed
  qed
qed

section \<open>Reading\<close>

lemma bmap_present:
  assumes tx: "in_tx me {} F k s" "0 < k" and dev: "i_dev (inodes s ! ip) = 1" and n: "unat bn < MAXFILE"
    and f: "fblk (bview s) (inodes s ! ip) (unat bn) \<noteq> 0"
  shows "\<exists>t. bmap me ip bn s = Ok (fblk (bview s) (inodes s ! ip) (unat bn), t) \<and> tx_step me {} F k s (bview s) {} t"
proof (cases "unat bn < NDIRECT")
  case True
  then show ?thesis using f tx_step_refl [OF tx(1)] by (simp add: bmap_def Let_def fblk_def)
next
  case False
  let ?i = "inodes s ! ip" and ?b = "ind (inodes s ! ip)"
  have b: "?b \<noteq> 0" using f False by (auto simp: fblk_def)
  obtain bp u t where r: "bread me 1 ?b s = Ok (bp, u)" "b_data (bufs u ! bp) = bview s ?b" "brelse me bp u = Ok t"
    "tx_step me {} F k s (bview s) {} t"
    using tx_step_peek [OF tx(1) _ disjI2 [OF tx(2)], of ?b] by (metis empty_iff)
  have "indirect_get (bview s ?b) (unat bn - NDIRECT) = fblk (bview s) ?i (unat bn)" using False b by (simp add: fblk_def)
  then have "bmap_entry me ip (unat bn - NDIRECT) ?b s = Ok (fblk (bview s) ?i (unat bn), t)"
    unfolding bmap_entry_def dev r(1) using r(2,3) f by simp
  then show ?thesis using b r(4) by (simp add: bmap_far [OF False n])
qed

definition file_data :: "(uint32 \<Rightarrow> byte list) \<Rightarrow> inode \<Rightarrow> byte list" where
  "file_data V i = map (file_byte V i) [0..<unat (i_size i)]"

text \<open>One piece of a file: what lies in a single block.\<close>

lemma div_piece: "p < BSIZE - off mod BSIZE \<Longrightarrow> (off + p) div BSIZE = off div BSIZE \<and> (off + p) mod BSIZE = off mod BSIZE + p"
proof -
  assume p: "p < BSIZE - off mod BSIZE"
  have "off + p = off mod BSIZE + p + BSIZE * (off div BSIZE)" using mult_div_mod_eq [of BSIZE off] by linarith
  then show ?thesis using p by (metis (no_types, lifting) add.commute div_less less_diff_conv div_mult_self2 gr_implies_not_zero add_0 mod_mult_self2 mod_less add.left_neutral)
qed

lemma file_piece:
  assumes "m \<le> BSIZE - off mod BSIZE" "length (V (fblk V i (off div BSIZE))) = BSIZE"
  shows "take m (drop (off mod BSIZE) (V (fblk V i (off div BSIZE)))) = map (file_byte V i) [off..<off + m]"
proof (rule nth_equalityI)
  show "length (take m (drop (off mod BSIZE) (V (fblk V i (off div BSIZE))))) = length (map (file_byte V i) [off..<off + m])"
    using assms by (simp add: min_absorb2)
  fix p assume "p < length (take m (drop (off mod BSIZE) (V (fblk V i (off div BSIZE)))))"
  then have "p < m" by simp
  then show "take m (drop (off mod BSIZE) (V (fblk V i (off div BSIZE)))) ! p = map (file_byte V i) [off..<off + m] ! p"
    using assms div_piece [of p off] by (simp add: file_byte_def)
qed

lemma put_bs_put_bs:
  "d + length xs + length ys \<le> length buf \<Longrightarrow> put_bs (d + length xs) ys (put_bs d xs buf) = put_bs d (xs @ ys) buf"
  by (simp add: put_bs_def ac_simps)

lemma file_limit: "MAXFILE * BSIZE < 2 ^ 31"
  by (simp add: MAXFILE_def NDIRECT_def NINDIRECT_def BSIZE_def)

lemma unat_block_no:
  assumes "x \<le> MAXFILE * BSIZE"
  shows "unat (of_nat (x div BSIZE) :: uint32) = x div BSIZE"
proof -
  have "x div BSIZE < 2 ^ 31" using div_le_dividend [of x BSIZE] assms file_limit by linarith
  then have "x div BSIZE < 2 ^ LENGTH(32)" by simp
  then show ?thesis unfolding unat_of_nat by (rule mod_less)
qed

lemma unat_off_add:
  assumes "unat (off :: uint32) + m \<le> MAXFILE * BSIZE"
  shows "unat (off + of_nat m) = unat off + m"
proof -
  have "unat off + m < 4294967296" using assms file_limit by simp
  then show ?thesis by (simp add: unat_word_ariths unat_of_nat)
qed

lemma unat_dst_add:
  assumes "unat (dst :: uint64) + m < 2 ^ 64"
  shows "unat (dst + of_nat m) = unat dst + m"
  using assms by (simp add: unat_word_ariths unat_of_nat)

lemma readi_loop_spec:
  assumes "in_tx me {} F k s" "0 < k" "i_dev (inodes s ! ip) = 1" "unat off + (n - tot) \<le> MAXFILE * BSIZE"
    "\<And>p. unat off \<le> p \<Longrightarrow> p < unat off + (n - tot) \<Longrightarrow> fblk (bview s) (inodes s ! ip) (p div BSIZE) \<noteq> 0"
    "unat dst + (n - tot) \<le> length buf" "length buf < 2 ^ 64" "tot \<le> n"
  shows "\<exists>t. readi_loop to_local me ip dst off n tot buf s = Ok (ret_int n,
       put_bs (unat dst) (map (file_byte (bview s) (inodes s ! ip)) [unat off..<unat off + (n - tot)]) buf, t) \<and>
     tx_step me {} F k s (bview s) {} t"
  using assms
proof (induction "n - tot" arbitrary: tot dst off buf s rule: less_induct)
  case less
  let ?i = "inodes s ! ip" and ?V = "bview s" and ?o = "unat off"
  show ?case
  proof (cases "tot < n")
    case False
    then show ?thesis using less.prems(8) tx_step_refl [OF less.prems(1)]
      by (subst readi_loop.simps) (simp add: put_bs_def)
  next
    case True
    define m where "m = min (n - tot) (BSIZE - ?o mod BSIZE)"
    have m: "0 < m" "m \<le> n - tot" "m \<le> BSIZE - ?o mod BSIZE" using True by (simp_all add: m_def BSIZE_def)
    have bn: "unat (of_nat (?o div BSIZE) :: uint32) = ?o div BSIZE" using less.prems(4) by (intro unat_block_no) simp
    have f: "fblk ?V ?i (?o div BSIZE) \<noteq> 0" using less.prems(5) [of ?o] True by simp
    have nb: "unat (of_nat (?o div BSIZE) :: uint32) < MAXFILE"
      unfolding bn using less.prems(4) True by (intro less_mult_imp_div_less) linarith
    let ?a = "fblk ?V ?i (?o div BSIZE)"
    obtain u where u: "bmap me ip (of_nat (?o div BSIZE)) s = Ok (?a, u)" "tx_step me {} F k s ?V {} u"
      using bmap_present [OF less.prems(1-3) nb] f unfolding bn by blast
    note U = tx_stepD [OF u(2)] tx_same_fs(2) [OF tx_stepD(3) [OF u(2)]]
    obtain bp v w where v: "bread me 1 ?a u = Ok (bp, v)" "b_data (bufs v ! bp) = bview u ?a" "brelse me bp v = Ok w"
      "tx_step me {} F k u (bview u) {} w"
      using tx_step_peek [OF U(2) _ disjI2 [OF less.prems(2)], of ?a] by (metis empty_iff)
    note W = tx_stepD [OF v(4)] tx_same_fs(2) [OF tx_stepD(3) [OF v(4)]]
    have st: "tx_step me {} F k s ?V {} w" using tx_step_trans [OF u(2) v(4)] by (simp add: U(1))
    have piece: "take m (drop (?o mod BSIZE) (?V ?a)) = map (file_byte ?V ?i) [?o..<?o + m]"
      by (rule file_piece [OF m(3) in_tx_length [OF less.prems(1)]])
    let ?buf = "put_bs (unat dst) (map (file_byte ?V ?i) [?o..<?o + m]) buf"
    have off: "unat (off + of_nat m) = ?o + m" using less.prems(4) m(2) by (intro unat_off_add) linarith
    have dst: "unat (dst + of_nat m) = unat dst + m" using less.prems(6,7) m(2) by (intro unat_dst_add) linarith
    have e: "?o + m + (n - (tot + m)) = ?o + (n - tot)" using m(2) by linarith
    have fit: "unat dst + m \<le> length buf" using less.prems(6) m(2) by linarith
    have lb: "length ?buf = length buf" using fit by simp
    have "\<exists>t. readi_loop to_local me ip (dst + of_nat m) (off + of_nat m) n (tot + m) ?buf w = Ok (ret_int n,
        put_bs (unat dst + m) (map (file_byte (bview w) (inodes w ! ip)) [?o + m..<?o + m + (n - (tot + m))]) ?buf, t) \<and>
        tx_step me {} F k w (bview w) {} t"
      using less.prems m W(2) unfolding off [symmetric] dst [symmetric]
      by (intro less.hyps) (auto simp: off dst lb W(1) U(1) W(7) U(7))
    then obtain t where t: "readi_loop to_local me ip (dst + of_nat m) (off + of_nat m) n (tot + m) ?buf w = Ok (ret_int n,
        put_bs (unat dst + m) (map (file_byte ?V ?i) [?o + m..<?o + (n - tot)]) ?buf, t)" "tx_step me {} F k w ?V {} t"
      by (auto simp: e W(1) U(1) W(7) U(7))
    have join: "put_bs (unat dst + m) (map (file_byte ?V ?i) [?o + m..<?o + (n - tot)]) ?buf =
        put_bs (unat dst) (map (file_byte ?V ?i) [?o..<?o + (n - tot)]) buf"
    proof -
      have "[?o..<?o + (n - tot)] = [?o..<?o + m] @ [?o + m..<?o + (n - tot)]"
        using upt_add_eq_append [of ?o "?o + m" "n - (tot + m)"] unfolding e by simp
      then show ?thesis
        using put_bs_put_bs [of "unat dst" "map (file_byte ?V ?i) [?o..<?o + m]" "map (file_byte ?V ?i) [?o + m..<?o + (n - tot)]" buf]
          less.prems(6) m(2) by simp
    qed
    have "readi_loop to_local me ip dst off n tot buf s =
        readi_loop to_local me ip (dst + of_nat m) (off + of_nat m) n (tot + m) ?buf w"
      using True f u(1) v(1-3) U(1,7) less.prems(3) piece
      by (subst readi_loop.simps) (simp add: Let_def to_local_def m_def [symmetric])
    then show ?thesis using t join tx_step_trans [OF st t(2)] by simp
  qed
qed

lemma ret_int_small: "n < 2 ^ 31 \<Longrightarrow> ret_int n = int n"
  unfolding ret_int_def by (simp add: signed_of_nat signed_take_bit_int_eq_self)

text \<open>The number of bytes that \<open>readi\<close> delivers.\<close>

definition read_len :: "inode \<Rightarrow> uint32 \<Rightarrow> uint32 \<Rightarrow> nat" where
  "read_len i off n = (if unat (i_size i) < unat off \<or> 2 ^ 32 \<le> unat off + unat n then 0
     else min (unat n) (unat (i_size i) - unat off))"

definition no_holes :: "(uint32 \<Rightarrow> byte list) \<Rightarrow> inode \<Rightarrow> bool" where
  "no_holes V i \<longleftrightarrow> unat (i_size i) \<le> MAXFILE * BSIZE \<and> (\<forall>p<unat (i_size i). fblk V i (p div BSIZE) \<noteq> 0)"

lemma word32_add_cases:
  "(a :: uint32) + b < a \<longleftrightarrow> 2 ^ 32 \<le> unat a + unat b" "unat a + unat b < 2 ^ 32 \<Longrightarrow> unat (a + b) = unat a + unat b"
proof -
  have l: "unat a < 2 ^ 32" "unat b < 2 ^ 32" using unsigned_less [of a] unsigned_less [of b] by simp_all
  show e: "unat (a + b) = unat a + unat b" if "unat a + unat b < 2 ^ 32" using that by (simp add: unat_add_32)
  show "a + b < a \<longleftrightarrow> 2 ^ 32 \<le> unat a + unat b"
  proof (cases "unat a + unat b < 2 ^ 32")
    case True
    then show ?thesis using e by (simp add: word_less_nat_alt)
  next
    case False
    then have "unat (a + b) = unat a + unat b - 2 ^ 32" using l by (simp add: unat_add_32 mod_if)
    then show ?thesis using False l by (simp add: word_less_nat_alt)
  qed
qed

lemma readi_spec:
  assumes tx: "in_tx me {} F k s" "0 < k" and dev: "i_dev (inodes s ! ip) = 1" and nh: "no_holes (bview s) (inodes s ! ip)"
    and buf: "unat dst + read_len (inodes s ! ip) off n \<le> length buf" "length buf < 2 ^ 64"
  defines "r \<equiv> read_len (inodes s ! ip) off n"
  shows "\<exists>t. readi to_local me ip dst off n buf s =
      Ok (int r, put_bs (unat dst) (take r (drop (unat off) (file_data (bview s) (inodes s ! ip)))) buf, t) \<and>
    tx_step me {} F k s (bview s) {} t"
proof -
  let ?i = "inodes s ! ip" and ?V = "bview s"
  let ?sz = "unat (i_size ?i)"
  show ?thesis
  proof (cases "?sz < unat off \<or> 2 ^ 32 \<le> unat off + unat n")
    case True
    then have "i_size ?i < off \<or> off + n < off" by (simp add: word_less_nat_alt word32_add_cases(1) [of off n, unfolded word_less_nat_alt])
    then have "readi to_local me ip dst off n buf s = Ok (0, buf, s)" by (simp add: readi_def Let_def)
    then show ?thesis using True tx_step_refl [OF tx(1)] by (simp add: r_def read_len_def put_bs_def)
  next
    case False
    then have c: "\<not> (i_size ?i < off \<or> off + n < off)" "unat (off + n) = unat off + unat n"
      using word32_add_cases [of off n] by (simp_all add: word_less_nat_alt)
    have r: "r = min (unat n) (?sz - unat off)" using False by (simp add: r_def read_len_def)
    have un: "unat (if i_size ?i < off + n then i_size ?i - off else n) = r"
      using c False unfolding r by (auto simp: word_less_nat_alt unat_sub word_le_nat_alt)
    have lim: "unat off + r \<le> ?sz" "?sz \<le> MAXFILE * BSIZE" using False nh by (auto simp: r no_holes_def)
    have "\<exists>t. readi_loop to_local me ip dst off r 0 buf s = Ok (ret_int r,
        put_bs (unat dst) (map (file_byte ?V ?i) [unat off..<unat off + (r - 0)]) buf, t) \<and> tx_step me {} F k s ?V {} t"
      using tx dev buf lim nh by (intro readi_loop_spec) (auto simp: no_holes_def r_def)
    moreover have "ret_int r = int r" using lim file_limit by (intro ret_int_small) linarith
    moreover have "map (file_byte ?V ?i) [unat off..<unat off + r] = take r (drop (unat off) (file_data ?V ?i))"
      using lim(1) by (simp add: file_data_def drop_map take_map drop_upt take_upt)
    ultimately show ?thesis using c(1) un by (simp add: readi_def Let_def)
  qed
qed

end
