(* ===== verification/WriteProof.thy ===== *)
theory WriteProof
  imports FileProof
begin

text \<open>
  Writing to a file: \<open>writei\<close> stores the bytes it is given, takes blocks on demand, keeps every
  other byte of the file and every block of other files, and stays within the budget of a transaction.
\<close>

section \<open>The effect of a write\<close>

definition foreign :: "superblock \<Rightarrow> uint32 set \<Rightarrow> (uint32 \<Rightarrow> byte list) \<Rightarrow> inode \<Rightarrow> uint32 \<Rightarrow> bool" where
  "foreign sp A V i b \<longleftrightarrow> in_use_blk V sp b \<and> b \<notin> fs_meta sp A \<and> b \<noteq> ind i \<and> (\<forall>n<MAXFILE. b \<noteq> fblk V i n)"

text \<open>File \<open>i\<close> over the blocks \<open>V\<close> has become \<open>j\<close> over \<open>W\<close> by writing \<open>xs\<close> at position \<open>lo\<close>.\<close>

definition wrote_file :: "superblock \<Rightarrow> uint32 set \<Rightarrow> (uint32 \<Rightarrow> byte list) \<Rightarrow> inode \<Rightarrow> (uint32 \<Rightarrow> byte list) \<Rightarrow> inode \<Rightarrow>
    nat \<Rightarrow> byte list \<Rightarrow> bool" where
  "wrote_file sp A V i W j lo xs \<longleftrightarrow> fs_ok W sp A \<and> inode_ok W sp A j \<and> j = i\<lparr>i_addrs := i_addrs j\<rparr> \<and>
     (\<forall>p. p div BSIZE < MAXFILE \<longrightarrow> lo \<le> p \<longrightarrow> p < lo + length xs \<longrightarrow>
        fblk W j (p div BSIZE) \<noteq> 0 \<and> file_byte W j p = xs ! (p - lo)) \<and>
     (\<forall>p. p div BSIZE < MAXFILE \<longrightarrow> \<not> (lo \<le> p \<and> p < lo + length xs) \<longrightarrow> fblk V i (p div BSIZE) \<noteq> 0 \<longrightarrow>
        fblk W j (p div BSIZE) \<noteq> 0 \<and> file_byte W j p = file_byte V i p) \<and>
     (\<forall>b. in_use_blk V sp b \<longrightarrow> in_use_blk W sp b) \<and>
     (\<forall>b. foreign sp A V i b \<longrightarrow> foreign sp A W j b \<and> W b = V b) \<and> (\<forall>b\<in>inode_blocks sp. W b = V b)"

lemma wrote_fileD:
  assumes "wrote_file sp A V i W j lo xs"
  shows "fs_ok W sp A" "inode_ok W sp A j" "j = i\<lparr>i_addrs := i_addrs j\<rparr>"
    "p div BSIZE < MAXFILE \<Longrightarrow> lo \<le> p \<Longrightarrow> p < lo + length xs \<Longrightarrow> fblk W j (p div BSIZE) \<noteq> 0 \<and> file_byte W j p = xs ! (p - lo)"
    "p div BSIZE < MAXFILE \<Longrightarrow> \<not> (lo \<le> p \<and> p < lo + length xs) \<Longrightarrow> fblk V i (p div BSIZE) \<noteq> 0 \<Longrightarrow>
       fblk W j (p div BSIZE) \<noteq> 0 \<and> file_byte W j p = file_byte V i p"
    "in_use_blk V sp b \<Longrightarrow> in_use_blk W sp b" "foreign sp A V i b \<Longrightarrow> foreign sp A W j b \<and> W b = V b"
    "b \<in> inode_blocks sp \<Longrightarrow> W b = V b"
  using assms unfolding wrote_file_def by blast+

lemma wrote_file_Nil: "fs_ok V sp A \<Longrightarrow> inode_ok V sp A i \<Longrightarrow> wrote_file sp A V i V i lo []"
  by (simp add: wrote_file_def)

lemma wrote_file_trans:
  assumes a: "wrote_file sp A V i W j lo xs" and b: "wrote_file sp A W j X k (lo + length xs) ys"
  shows "wrote_file sp A V i X k lo (xs @ ys)"
  unfolding wrote_file_def
proof (intro conjI allI impI ballI)
  note P = wrote_fileD [OF a] and Q = wrote_fileD [OF b]
  show "fs_ok X sp A" "inode_ok X sp A k" by (fact Q(1,2))+
  show "k = i\<lparr>i_addrs := i_addrs k\<rparr>" using P(3) Q(3) by (metis inode.surjective inode.update_convs(11))
  show "in_use_blk X sp c" if "in_use_blk V sp c" for c using P(6) Q(6) that by blast
  show "foreign sp A X k c" "X c = V c" if "foreign sp A V i c" for c using P(7) Q(7) that by metis+
  show "X c = V c" if "c \<in> inode_blocks sp" for c using P(8) Q(8) that by metis
  fix p assume p: "p div BSIZE < MAXFILE"
  {
    assume lo: "lo \<le> p" "p < lo + length (xs @ ys)"
    have "fblk X k (p div BSIZE) \<noteq> 0 \<and> file_byte X k p = (xs @ ys) ! (p - lo)"
    proof (cases "p < lo + length xs")
      case True
      then have "p - lo < length xs" using lo(1) by linarith
      then show ?thesis using P(4) [OF p lo(1)] Q(5) [OF p] lo(1) True by (simp add: nth_append)
    next
      case False
      then have "p - (lo + length xs) = p - lo - length xs" "\<not> p - lo < length xs" using lo(1) by linarith+
      then show ?thesis using Q(4) [OF p] False lo by (simp add: nth_append)
    qed
    then show "fblk X k (p div BSIZE) \<noteq> 0" "file_byte X k p = (xs @ ys) ! (p - lo)" by blast+
  }
  assume "\<not> (lo \<le> p \<and> p < lo + length (xs @ ys))" and f: "fblk V i (p div BSIZE) \<noteq> 0"
  then have "\<not> (lo \<le> p \<and> p < lo + length xs)" "\<not> (lo + length xs \<le> p \<and> p < lo + length xs + length ys)" by auto
  then show "fblk X k (p div BSIZE) \<noteq> 0" "file_byte X k p = file_byte V i p" using P(5) [OF p _ f] Q(5) [OF p] by auto
qed

text \<open>Filling a part of one block, after the file has been extended to contain it.\<close>

lemma fblk_upd: "c \<noteq> ind i \<Longrightarrow> fblk (V(c := d)) i = fblk V i"
  by (simp add: fblk_def fun_eq_iff)

lemma in_block_iff:
  assumes "off + l \<le> BSIZE"
  shows "n * BSIZE + off \<le> p \<and> p < n * BSIZE + off + l \<longleftrightarrow> p div BSIZE = n \<and> off \<le> p mod BSIZE \<and> p mod BSIZE < off + l"
proof (cases "p div BSIZE = n")
  case True
  have e: "n * BSIZE + p mod BSIZE = p" using div_mult_mod_eq [of p BSIZE] unfolding True .
  have "n * BSIZE + off \<le> p \<longleftrightarrow> off \<le> p mod BSIZE" "p < n * BSIZE + off + l \<longleftrightarrow> p mod BSIZE < off + l"
    using e by linarith+
  then show ?thesis using True by blast
next
  case False
  have "p div BSIZE = n" if "n * BSIZE + off \<le> p" "p < n * BSIZE + off + l"
    using that assms by (intro div_nat_eqI) (simp_all add: algebra_simps)
  with False show ?thesis by blast
qed

lemma file_byte_put:
  assumes ok: "inode_ok W sp A j" and n: "n < MAXFILE" "fblk W j n \<noteq> 0" and len: "length (W (fblk W j n)) = BSIZE"
    and o: "off + length xs \<le> BSIZE" and p: "p div BSIZE < MAXFILE" "fblk W j (p div BSIZE) \<noteq> 0"
  shows "file_byte (W(fblk W j n := put_bs off xs (W (fblk W j n)))) j p =
    (if n * BSIZE + off \<le> p \<and> p < n * BSIZE + off + length xs then xs ! (p - (n * BSIZE + off)) else file_byte W j p)"
proof -
  have f: "fblk (W(fblk W j n := d)) j = fblk W j" for d by (rule fblk_upd [OF fblk_not_ind [OF ok n]])
  show ?thesis
  proof (cases "p div BSIZE = n")
    case True
    have "n * BSIZE + p mod BSIZE = p" using div_mult_mod_eq [of p BSIZE] unfolding True .
    then have e: "p - (n * BSIZE + off) = p mod BSIZE - off" by linarith
    have "p mod BSIZE < BSIZE" by (simp add: BSIZE_def)
    then show ?thesis
      unfolding in_block_iff [OF o] e using True o len by (simp add: file_byte_def f nth_put_bs)
  next
    case False
    then have "fblk W j (p div BSIZE) \<noteq> fblk W j n" using inode_okD(5) [OF ok p(1) n(1) p(2)] by blast
    then show ?thesis unfolding in_block_iff [OF o] using False by (simp add: file_byte_def f)
  qed
qed

lemma grown_byte:
  assumes "inode_ok V sp A i" "grown sp A V i W j" "p div BSIZE < MAXFILE" "fblk V i (p div BSIZE) \<noteq> 0"
  shows "fblk W j (p div BSIZE) \<noteq> 0" "file_byte W j p = file_byte V i p"
  using grownD(5,7) [OF assms(2)] inode_okD(3) [OF assms(1,3,4)] fblk_not_ind [OF assms(1,3,4)] assms(3,4)
  by (simp_all add: file_byte_def)

lemma grown_foreign:
  assumes g: "grown sp A V i W j" and b: "foreign sp A V i b"
  shows "foreign sp A W j b" "W b = V b"
proof -
  have u: "in_use_blk V sp b" "b \<notin> fs_meta sp A" "b \<noteq> ind i" "\<And>n. n < MAXFILE \<Longrightarrow> b \<noteq> fblk V i n" "b \<noteq> 0"
    using b by (auto simp: foreign_def fs_meta_def)
  have "b \<noteq> fblk W j n" if "n < MAXFILE" for n
    using grownD(7,8) [OF g that] u(1,5) u(4) [OF that] by (cases "fblk V i n = 0") metis+
  moreover have "b \<noteq> ind j" using grownD(6) [OF g] u(1,3) by metis
  ultimately show "foreign sp A W j b" "W b = V b" using u(1-3) grownD(4,5) [OF g] by (auto simp: foreign_def)
qed

lemma wrote_file_block:
  assumes ok: "inode_ok V sp A i" and g: "grown sp A V i W j" and n: "n < MAXFILE" "fblk W j n \<noteq> 0"
    and o: "off + length xs \<le> BSIZE"
  defines "X \<equiv> W(fblk W j n := put_bs off xs (W (fblk W j n)))"
  shows "wrote_file sp A V i X j (n * BSIZE + off) xs"
proof -
  let ?a = "fblk W j n"
  note G = grownD [OF g]
  have len: "length (W b) = BSIZE" for b using G(1) by (simp add: fs_ok_def)
  have bm: "?a \<notin> bitmap_blocks sp" "?a \<notin> inode_blocks sp" using inode_okD(3) [OF G(2) n] by (auto simp: fs_meta_def)
  have f: "fblk X j = fblk W j" unfolding X_def by (rule fblk_upd [OF fblk_not_ind [OF G(2) n]])
  have u: "in_use_blk X sp = in_use_blk W sp" unfolding X_def by (rule in_use_upd [OF bm(1)])
  note byte = file_byte_put [where xs = xs, OF G(2) n len o, folded X_def]
  show ?thesis
    unfolding wrote_file_def
  proof (intro conjI allI impI ballI)
    show "fs_ok X sp A" unfolding X_def using o len by (intro fs_ok_upd G(1) bm) simp
    show "inode_ok X sp A j" using G(2) by (simp add: inode_ok_def f u)
    show "j = i\<lparr>i_addrs := i_addrs j\<rparr>" by (rule G(3))
    show "in_use_blk X sp b" if "in_use_blk V sp b" for b using G(4) that u by simp
    show "foreign sp A X j b" if "foreign sp A V i b" for b using grown_foreign(1) [OF g that] by (simp add: foreign_def f u)
    show "X b = V b" if "foreign sp A V i b" for b
      using grown_foreign [OF g that] n(1) by (auto simp: foreign_def X_def)
    show "X b = V b" if "b \<in> inode_blocks sp" for b using G(9) [OF that] bm(2) that by (auto simp: X_def)
    fix p assume p: "p div BSIZE < MAXFILE"
    {
      assume lo: "n * BSIZE + off \<le> p" "p < n * BSIZE + off + length xs"
      then have "p div BSIZE = n" using in_block_iff [OF o] by blast
      then show "fblk X j (p div BSIZE) \<noteq> 0" "file_byte X j p = xs ! (p - (n * BSIZE + off))"
        using byte [OF p] lo n by (simp_all add: f)
    next
      assume "\<not> (n * BSIZE + off \<le> p \<and> p < n * BSIZE + off + length xs)" "fblk V i (p div BSIZE) \<noteq> 0"
      then show "fblk X j (p div BSIZE) \<noteq> 0" "file_byte X j p = file_byte V i p"
        using byte [OF p] grown_byte [OF ok g p] by (auto simp: f)
    }
  qed
qed

lemma grown_wrote:
  assumes "inode_ok V sp A i" "grown sp A V i W j"
  shows "wrote_file sp A V i W j lo []"
  using grownD [OF assms(2)] grown_byte [OF assms] grown_foreign [OF assms(2)] unfolding wrote_file_def by auto

section \<open>The loop of writei\<close>

text \<open>How many blocks the bytes from \<open>off\<close> to \<open>off + n\<close> touch.\<close>

definition nblk :: "nat \<Rightarrow> nat \<Rightarrow> nat" where
  "nblk off n = (if n = 0 then 0 else (off + n - 1) div BSIZE - off div BSIZE + 1)"

lemma nblk_next:
  fixes off n :: nat
  assumes "0 < n"
  defines "m \<equiv> min n (BSIZE - off mod BSIZE)"
  shows "nblk off n = Suc (nblk (off + m) (n - m))"
proof (cases "n \<le> BSIZE - off mod BSIZE")
  case True
  then have "(off + (n - 1)) div BSIZE = off div BSIZE" using div_piece [of "n - 1" off] assms(1) by simp
  then show ?thesis using True assms(1) by (simp add: nblk_def m_def)
next
  case False
  let ?q = "off div BSIZE"
  have m: "m = BSIZE - off mod BSIZE" using False by (simp add: m_def)
  have r: "off mod BSIZE < BSIZE" by (simp add: BSIZE_def)
  have "off + m = Suc ?q * BSIZE"
    using m r div_mult_mod_eq [of off BSIZE] unfolding mult_Suc by linarith
  then have d: "(off + m) div BSIZE = Suc ?q" using r by simp
  have e: "off + m + (n - m) - 1 = off + n - 1" "0 < n - m" using False m by auto
  have "Suc ?q \<le> (off + n - 1) div BSIZE" using d e(2) div_le_mono [of "off + m" "off + n - 1" BSIZE] False m by simp
  then show ?thesis using e d assms(1) by (simp add: nblk_def)
qed

text \<open>Where the bytes come from: \<open>either_copyin\<close>, as far as \<open>writei\<close> relies on it.\<close>

locale byte_source =
  fixes cin :: "uint64 \<Rightarrow> nat \<Rightarrow> 'a kfs_scheme \<Rightarrow> (int \<times> byte list \<times> 'a kfs_scheme) outcome" and xs :: "byte list"
  assumes delivers: "unat src + m \<le> length xs \<Longrightarrow> cin src m s = Ok (0, take m (drop (unat src) xs), s)"
begin

text \<open>One block.\<close>

lemma write_block:
  assumes tx: "file_tx me F (Suc r) ip s" and n: "tot < n" and lim: "unat off < MAXFILE * BSIZE"
    and src: "unat src + (n - tot) \<le> length xs"
  defines "m \<equiv> min (n - tot) (BSIZE - unat off mod BSIZE)"
  shows "(\<exists>t W j B k. writei_loop cin me ip src off n tot s = Ok (tot, off, t) \<and> file_step me {} F k ip s W j B t \<and>
       grown (sb s) (log_area s) (bview s) (inodes s ! ip) W j \<and> disk_full W (sb s) \<and> r + idx_cost t j \<le> k) \<or>
     (\<exists>t W j B k. writei_loop cin me ip src off n tot s = writei_loop cin me ip (src + of_nat m) (off + of_nat m) n (tot + m) t \<and>
       file_step me {} F k ip s W j B t \<and> r + idx_cost t j \<le> k \<and>
       wrote_file (sb s) (log_area s) (bview s) (inodes s ! ip) W j (unat off) (take m (drop (unat src) xs)))"
proof -
  let ?o = "unat off" and ?i = "inodes s ! ip" and ?q = "unat off div BSIZE" and ?bs = "take m (drop (unat src) xs)"
  have bn: "unat (of_nat ?q :: uint32) = ?q" using lim by (intro unat_block_no) simp
  have q: "?q < MAXFILE" using lim by (rule less_mult_imp_div_less)
  have ip: "ip < length (inodes s)" and ok: "inode_ok (bview s) (sb s) (log_area s) ?i" using tx by (auto simp: file_tx_def)
  obtain a t1 where b: "bmap me ip (of_nat ?q) s = Ok (a, t1)" "bmap_post me F r ip ?q s a t1"
    using bmap_spec [OF tx, of "of_nat ?q"] q bn by auto
  then obtain W j B k where st: "file_step me {} F k ip s W j B t1" and g: "grown (sb s) (log_area s) (bview s) ?i W j"
    and f: "fblk W j ?q = a" and z: "a = 0 \<Longrightarrow> disk_full W (sb s)" and k: "r + idx_cost t1 j \<le> k"
      "a \<noteq> 0 \<Longrightarrow> a \<notin> logged t1 \<Longrightarrow> Suc r + idx_cost t1 j \<le> k"
    unfolding bmap_post_def by blast
  note S = file_stepD [OF st] and G = grownD [OF g]
  show ?thesis
  proof (cases "a = 0")
    case True
    then have "writei_loop cin me ip src off n tot s = Ok (tot, off, t1)" using n b(1) by (subst writei_loop.simps) simp
    then show ?thesis using st g z [OF True] k(1) by blast
  next
    case False
    have m: "m \<le> n - tot" "?o mod BSIZE + m \<le> BSIZE" by (simp_all add: m_def BSIZE_def)
    have lb: "length ?bs = m" using src m(1) by simp
    have it: "inodes t1 ! ip = j" "i_dev j = 1" using S(7) ip inode_okD(1) [OF G(2)] by simp_all
    have fn: "fblk W j ?q \<noteq> 0" using False f by simp
    have area: "a \<notin> log_area t1" "1 \<le> log_outstanding t1"
      using inode_okD(3) [OF G(2) q fn] f S(4,6) tx by (auto simp: fs_meta_def file_tx_def)
    have room: "a \<in> F \<union> logged t1 \<or> 0 < k" using k(2) [OF False] by auto
    let ?k = "if a \<in> F \<union> logged t1 then k else k - 1" and ?d = "put_bs (?o mod BSIZE) ?bs (W a)"
    obtain bp u where r: "bread me 1 a t1 = Ok (bp, u)" "b_data (bufs u ! bp) = bview t1 a"
      and md: "\<And>d. length d = BSIZE \<Longrightarrow> \<exists>v t. log_write bp (set_data bp d u) = Ok v \<and> brelse me bp v = Ok t \<and>
         tx_step me {} F ?k t1 ((bview t1)(a := d)) {a} t"
      using tx_step_modify [OF S(2) _ room area] by (metis (no_types, lifting) empty_iff)
    have "length ?d = BSIZE" using m(2) lb G(1) by (simp add: fs_ok_def)
    then obtain v t where v: "log_write bp (set_data bp ?d u) = Ok v" "brelse me bp v = Ok t"
      "tx_step me {} F ?k t1 (W(a := ?d)) {a} t"
      using md unfolding S(1) by blast
    have st2: "file_step me {} F ?k ip s (W(a := ?d)) j ({a} \<union> B) t"
      using file_step_trans [OF st file_step_plain [OF v(3), of ip, unfolded it(1)]] .
    have "wrote_file (sb s) (log_area s) (bview s) ?i (W(a := ?d)) j (?q * BSIZE + ?o mod BSIZE) ?bs"
      using wrote_file_block [OF ok g q fn, of "?o mod BSIZE" ?bs] m(2) lb f by simp
    then have wf: "wrote_file (sb s) (log_area s) (bview s) ?i (W(a := ?d)) j ?o ?bs" by simp
    have ic: "idx_cost t j \<le> idx_cost t1 j" by (rule idx_cost_mono) (use tx_stepD(4) [OF v(3)] in auto)
    have "r + idx_cost t j \<le> ?k" using ic k False by (cases "a \<in> logged t1") auto
    moreover have "writei_loop cin me ip src off n tot s =
        writei_loop cin me ip (src + of_nat m) (off + of_nat m) n (tot + m) t"
      using n b(1) False r(1,2) v(1,2) it S(1) delivers [of src m u] src m(1)
      by (subst writei_loop.simps) (simp add: Let_def m_def [symmetric])
    ultimately show ?thesis using st2 wf by blast
  qed
qed

lemma file_tx_next:
  assumes "file_tx me F r ip s" "file_step me {} F k ip s W j B t" "fs_ok W (sb s) (log_area s)"
    "inode_ok W (sb s) (log_area s) j" "r' + idx_cost t j \<le> k"
  shows "file_tx me F r' ip t"
  using assms file_stepD [OF assms(2)] unfolding file_tx_def by (auto intro: in_tx_mono)

text \<open>The whole loop: it stops early only when the disk is full.\<close>

lemma write_loop:
  assumes "file_tx me F r ip s" "nblk (unat off) (n - tot) \<le> r" "unat off + (n - tot) \<le> MAXFILE * BSIZE"
    "unat src + (n - tot) \<le> length xs" "length xs < 2 ^ 64" "tot \<le> n"
  shows "\<exists>w t W j B k. writei_loop cin me ip src off n tot s = Ok (tot + w, off + of_nat w, t) \<and> w \<le> n - tot \<and>
     file_step me {} F k ip s W j B t \<and> idx_cost t j \<le> k \<and> (w < n - tot \<longrightarrow> disk_full W (sb s)) \<and>
     wrote_file (sb s) (log_area s) (bview s) (inodes s ! ip) W j (unat off) (take w (drop (unat src) xs))"
  using assms
proof (induction "n - tot" arbitrary: tot src off r s rule: less_induct)
  case less
  let ?i = "inodes s ! ip" and ?V = "bview s"
  have T: "in_tx me {} F (r + idx_cost s ?i) s" "fs_ok ?V (sb s) (log_area s)" "inode_ok ?V (sb s) (log_area s) ?i"
    "ip < length (inodes s)"
    using less.prems(1) by (auto simp: file_tx_def)
  show ?case
  proof (cases "tot < n")
    case False
    then have "writei_loop cin me ip src off n tot s = Ok (tot + 0, off + of_nat 0, s)"
      by (subst writei_loop.simps) simp
    then show ?thesis
      using False file_step_plain [OF tx_step_refl [OF T(1)], of ip] wrote_file_Nil [OF T(2,3)]
      by (intro exI [of _ 0] exI [of _ s] exI [of _ ?V] exI [of _ ?i] exI [of _ "{}"] exI [of _ "r + idx_cost s ?i"]) simp
  next
    case True
    define m where "m = min (n - tot) (BSIZE - unat off mod BSIZE)"
    have m: "0 < m" "m \<le> n - tot" using True by (simp_all add: m_def BSIZE_def)
    have nb: "nblk (unat off) (n - tot) = Suc (nblk (unat off + m) (n - (tot + m)))"
      using nblk_next [of "n - tot" "unat off"] True by (simp add: m_def)
    then obtain r' where r': "r = Suc r'" "nblk (unat off + m) (n - (tot + m)) \<le> r'" using less.prems(2) by (cases r) auto
    have lim: "unat off < MAXFILE * BSIZE" using less.prems(3) True by linarith
    consider (full) t W j B k where "writei_loop cin me ip src off n tot s = Ok (tot, off, t)" "file_step me {} F k ip s W j B t"
        "grown (sb s) (log_area s) ?V ?i W j" "disk_full W (sb s)" "r' + idx_cost t j \<le> k"
      | (step) t W j B k where "writei_loop cin me ip src off n tot s = writei_loop cin me ip (src + of_nat m) (off + of_nat m) n (tot + m) t"
        "file_step me {} F k ip s W j B t" "r' + idx_cost t j \<le> k"
        "wrote_file (sb s) (log_area s) ?V ?i W j (unat off) (take m (drop (unat src) xs))"
      using write_block [OF less.prems(1) [unfolded r'(1)] True lim less.prems(4)] unfolding m_def by blast
    then show ?thesis
    proof cases
      case full
      then show ?thesis using grown_wrote [OF T(3) full(3)] True
        by (intro exI [of _ 0] exI [of _ t] exI [of _ W] exI [of _ j] exI [of _ B] exI [of _ k]) simp
    next
      case step
      note P = wrote_fileD [OF step(4)] and S = file_stepD [OF step(2)]
      have off: "unat (off + of_nat m) = unat off + m" using less.prems(3) m(2) by (intro unat_off_add) linarith
      have src: "unat (src + of_nat m) = unat src + m" using less.prems(4,5) m(2) by (intro unat_dst_add) linarith
      have ft: "file_tx me F r' ip t" by (rule file_tx_next [OF less.prems(1) step(2) P(1,2) step(3)])
      have it: "inodes t ! ip = j" using S(7) T(4) by simp
      have c: "n - (tot + m) < n - tot" "unat off + m + (n - (tot + m)) \<le> MAXFILE * BSIZE"
        "unat src + m + (n - (tot + m)) \<le> length xs" "tot + m \<le> n"
        using m less.prems(3,4,6) by linarith+
      obtain w u X l C k' where u: "writei_loop cin me ip (src + of_nat m) (off + of_nat m) n (tot + m) t =
            Ok (tot + m + w, off + of_nat m + of_nat w, u)" "w \<le> n - (tot + m)" "file_step me {} F k' ip t X l C u"
          "idx_cost u l \<le> k'" "w < n - (tot + m) \<longrightarrow> disk_full X (sb s)"
          "wrote_file (sb s) (log_area s) W j X l (unat off + m) (take w (drop (unat src + m) xs))"
        using less.hyps [OF c(1) ft, of "off + of_nat m" "src + of_nat m"] r'(2) c(2-4) less.prems(5)
        unfolding off src it S(1,4,5) by blast
      have "take (m + w) (drop (unat src) xs) = take m (drop (unat src) xs) @ take w (drop (unat src + m) xs)"
        by (simp add: take_add add.commute)
      moreover have "length (take m (drop (unat src) xs)) = m" using less.prems(4) m(2) by simp
      ultimately have "wrote_file (sb s) (log_area s) ?V ?i X l (unat off) (take (m + w) (drop (unat src) xs))"
        using wrote_file_trans [OF step(4), of X l "take w (drop (unat src + m) xs)"] u(6) by simp
      moreover have "writei_loop cin me ip src off n tot s = Ok (tot + (m + w), off + of_nat (m + w), u)"
        using step(1) u(1) by (simp add: add.assoc)
      moreover have "m + w \<le> n - tot" "m + w < n - tot \<longrightarrow> w < n - (tot + m)" using u(2) m(2) by linarith+
      ultimately show ?thesis using file_step_trans [OF step(2) u(3)] u(4,5) by blast
    qed
  qed
qed

end

interpretation local_source: byte_source "from_local buf" buf for buf
  by unfold_locales (simp add: from_local_def)

section \<open>The contents after a write\<close>

definition splice :: "nat \<Rightarrow> byte list \<Rightarrow> byte list \<Rightarrow> byte list" where
  "splice lo ys xs = take lo xs @ ys @ drop (lo + length ys) xs"

lemma fblk_size [simp]: "fblk V (i\<lparr>i_size := z\<rparr>) = fblk V i" "file_byte V (i\<lparr>i_size := z\<rparr>) = file_byte V i"
  by (simp_all add: fblk_def file_byte_def fun_eq_iff)

lemma div_BSIZE_less: "p < MAXFILE * BSIZE \<Longrightarrow> p div BSIZE < MAXFILE"
  by (rule less_mult_imp_div_less)

lemma wrote_file_data:
  assumes wf: "wrote_file sp A V i W j lo ys" and nh: "no_holes V i" and lo: "lo \<le> unat (i_size i)"
    and lim: "lo + length ys \<le> MAXFILE * BSIZE" and sz: "unat z = max (unat (i_size i)) (lo + length ys)"
  shows "file_data W (j\<lparr>i_size := z\<rparr>) = splice lo ys (file_data V i)" "no_holes W (j\<lparr>i_size := z\<rparr>)"
proof -
  let ?n = "unat (i_size i)" and ?z = "max (unat (i_size i)) (lo + length ys)"
  note P = wrote_fileD [OF wf]
  have small: "p div BSIZE < MAXFILE" if "p < ?z" for p
    using that lim nh by (intro div_BSIZE_less) (auto simp: no_holes_def)
  have inb: "fblk W j (p div BSIZE) \<noteq> 0 \<and> file_byte W j p = ys ! (p - lo)" if "lo \<le> p" "p < lo + length ys" for p
    using P(4) [OF small] that by simp
  have outb: "fblk W j (p div BSIZE) \<noteq> 0 \<and> file_byte W j p = file_byte V i p" if "p < ?n" "\<not> (lo \<le> p \<and> p < lo + length ys)" for p
    using P(5) [OF small] nh that by (simp add: no_holes_def)
  have "fblk W j (p div BSIZE) \<noteq> 0" if "p < ?z" for p
  proof (cases "lo \<le> p \<and> p < lo + length ys")
    case True
    then show ?thesis using inb by blast
  next
    case False
    then have "p < ?n" using that lo by auto
    then show ?thesis using outb False by blast
  qed
  then show "no_holes W (j\<lparr>i_size := z\<rparr>)" using nh lim sz by (simp add: no_holes_def)
  show "file_data W (j\<lparr>i_size := z\<rparr>) = splice lo ys (file_data V i)"
  proof (rule nth_equalityI)
    show "length (file_data W (j\<lparr>i_size := z\<rparr>)) = length (splice lo ys (file_data V i))"
      using lo by (auto simp: file_data_def splice_def sz)
    fix p assume "p < length (file_data W (j\<lparr>i_size := z\<rparr>))"
    then have p: "p < ?z" by (simp add: file_data_def sz)
    then have l: "file_data W (j\<lparr>i_size := z\<rparr>) ! p = file_byte W j p" by (simp add: file_data_def sz)
    consider "p < lo" | "lo \<le> p" "p < lo + length ys" | "lo + length ys \<le> p" "p < ?n" using p by linarith
    then show "file_data W (j\<lparr>i_size := z\<rparr>) ! p = splice lo ys (file_data V i) ! p"
    proof cases
      case 1
      then show ?thesis unfolding l using outb [of p] lo by (simp add: splice_def file_data_def nth_append)
    next
      case 2
      then have "p - lo < length ys" by linarith
      then show ?thesis unfolding l using inb [of p] lo 2 by (simp add: splice_def file_data_def nth_append min_absorb2)
    next
      case 3
      then have "\<not> p - lo < length ys" "p - lo - length ys + (lo + length ys) = p" by linarith+
      then show ?thesis unfolding l using outb [of p] lo 3 by (simp add: splice_def file_data_def nth_append min_absorb2 add.commute)
    qed
  qed
qed

section \<open>iupdate\<close>

lemma length_write_dinode: "off + 64 \<le> length bs \<Longrightarrow> length (i_addrs i) = NDIRECT + 1 \<Longrightarrow> length (write_dinode off i bs) = length bs"
  by (simp add: write_dinode_def NDIRECT_def)

lemma dinode_in_block: "length bs = BSIZE \<Longrightarrow> dinode_off inum + 64 \<le> length bs"
  using mod_less_divisor [of IPB "unat inum"] by (simp add: dinode_off_def IPB_def BSIZE_def)

lemma iupdate_spec:
  fixes ip s
  defines "i \<equiv> inodes s ! ip"
  defines "c \<equiv> IBLOCK (i_inum i) (sb s)"
  assumes tx: "in_tx me {} F k s" "1 \<le> log_outstanding s" "c \<in> F" "c \<notin> log_area s" and i: "i_dev i = 1" "length (i_addrs i) = NDIRECT + 1"
  shows "\<exists>t. iupdate me ip s = Ok t \<and>
     tx_step me {} F k s ((bview s)(c := write_dinode (dinode_off (i_inum i)) i (bview s c))) {c} t"
proof -
  obtain bp u where r: "bread me 1 c s = Ok (bp, u)" "b_data (bufs u ! bp) = bview s c"
    and md: "\<And>d. length d = BSIZE \<Longrightarrow> \<exists>v t. log_write bp (set_data bp d u) = Ok v \<and> brelse me bp v = Ok t \<and>
       tx_step me {} F (if c \<in> F \<union> logged s then k else k - 1) s ((bview s)(c := d)) {c} t"
    using tx_step_modify [OF tx(1) _ _ tx(4,2)] tx(3) by (metis (no_types, lifting) empty_iff UnI1)
  have "length (write_dinode (dinode_off (i_inum i)) i (bview s c)) = BSIZE"
    using length_write_dinode [OF dinode_in_block i(2)] in_tx_length [OF tx(1)] by simp
  then show ?thesis
    using md [of "write_dinode (dinode_off (i_inum i)) i (bview s c)"] r tx(3) i(1)
    by (auto simp: iupdate_def Let_def i_def [symmetric] c_def [symmetric])
qed

text \<open>Writing one of the file system's own blocks, other than the bitmap, leaves every file alone.\<close>

lemma inode_ok_size [simp]: "inode_ok V sp A (i\<lparr>i_size := z\<rparr>) = inode_ok V sp A i"
  by (simp add: inode_ok_def)

lemma meta_upd:
  assumes ok: "fs_ok V sp A" "inode_ok V sp A i" and c: "c \<in> inode_blocks sp" and d: "length d = BSIZE"
  shows "fs_ok (V(c := d)) sp A" "inode_ok (V(c := d)) sp A i" "no_holes V i \<Longrightarrow> no_holes (V(c := d)) i"
    "no_holes V i \<Longrightarrow> file_data (V(c := d)) i = file_data V i" "disk_full (V(c := d)) sp = disk_full V sp"
    "foreign sp A V i b \<Longrightarrow> (V(c := d)) b = V b"
proof -
  have m: "c \<in> fs_meta sp A" using c by (simp add: fs_meta_def)
  have bm: "c \<notin> bitmap_blocks sp" using c ok(1) by (auto simp: fs_ok_def)
  have f: "fblk (V(c := d)) i = fblk V i"
  proof (cases "ind i = 0")
    case True
    then show ?thesis by (simp add: fblk_def fun_eq_iff)
  next
    case False
    then show ?thesis using inode_okD(4) [OF ok(2) False] m by (intro fblk_upd) auto
  qed
  show "fs_ok (V(c := d)) sp A" by (rule fs_ok_upd [OF ok(1) bm d])
  show "inode_ok (V(c := d)) sp A i" using ok(2) by (simp add: inode_ok_def f in_use_upd [OF bm])
  show "no_holes V i \<Longrightarrow> no_holes (V(c := d)) i" by (simp add: no_holes_def f)
  show "disk_full (V(c := d)) sp = disk_full V sp" using used_upd [OF bm] by (simp add: disk_full_def)
  show "foreign sp A V i b \<Longrightarrow> (V(c := d)) b = V b" using m by (auto simp: foreign_def)
  assume nh: "no_holes V i"
  have "fblk V i (p div BSIZE) \<noteq> c" if "p < unat (i_size i)" for p
    using inode_okD(3) [OF ok(2) div_BSIZE_less, of p] nh that m by (auto simp: no_holes_def)
  then show "file_data (V(c := d)) i = file_data V i" by (simp add: file_data_def file_byte_def f)
qed

lemma file_step_reset: "file_step me L F k ip s V j B t \<Longrightarrow> file_step me L F k ip s V l B (setino ip l t)"
  unfolding file_step_def using tx_step_setino [of me L F k "setino ip j s" V B t ip l] by simp

text \<open>What a caller of \<open>writei\<close> may rely on after \<open>ys\<close> have been written at \<open>lo\<close>.\<close>

definition file_written :: "nat \<Rightarrow> uint32 set \<Rightarrow> nat \<Rightarrow> 'a kfs_scheme \<Rightarrow> nat \<Rightarrow> byte list \<Rightarrow> 'a kfs_scheme \<Rightarrow> bool" where
  "file_written me F ip s lo ys t \<longleftrightarrow>
     (let i = inodes s ! ip; j = inodes t ! ip; A = log_area s; sp = sb s in
      (\<exists>B. file_step me {} F 0 ip s (bview t) j B t) \<and> fs_ok (bview t) sp A \<and> inode_ok (bview t) sp A j \<and>
      no_holes (bview t) j \<and> file_data (bview t) j = splice lo ys (file_data (bview s) i) \<and>
      j = i\<lparr>i_addrs := i_addrs j, i_size := i_size j\<rparr> \<and>
      (\<forall>b. foreign sp A (bview s) i b \<longrightarrow> bview t b = bview s b) \<and>
      read_dinode (dinode_off (i_inum i)) (bview t (IBLOCK (i_inum i) sp)) j = j)"

lemma addrs_only:
  assumes "j = i\<lparr>i_addrs := i_addrs j\<rparr>"
  shows "i_size j = i_size i" "i_inum j = i_inum i" "j\<lparr>i_size := z\<rparr> = i\<lparr>i_addrs := i_addrs j, i_size := z\<rparr>"
  using arg_cong [OF assms, of i_size] arg_cong [OF assms, of i_inum] arg_cong [OF assms, of "\<lambda>i. i\<lparr>i_size := z\<rparr>"] by simp_all

text \<open>The end of \<open>writei\<close>: the new size and the inode go to their block.\<close>

lemma writei_finish:
  assumes tx: "file_tx me F r ip s" and ib: "IBLOCK (i_inum (inodes s ! ip)) (sb s) \<in> F \<inter> inode_blocks (sb s)"
    and nh: "no_holes (bview s) (inodes s ! ip)" and lo: "lo \<le> unat (i_size (inodes s ! ip))" "lo + length ys \<le> MAXFILE * BSIZE"
    and st: "file_step me {} F k ip s W j B t" and wf: "wrote_file (sb s) (log_area s) (bview s) (inodes s ! ip) W j lo ys"
    and z: "unat z = max (unat (i_size (inodes s ! ip))) (lo + length ys)"
  shows "\<exists>u. iupdate me ip (setino ip (j\<lparr>i_size := z\<rparr>) t) = Ok u \<and> file_written me F ip s lo ys u \<and>
     disk_full (bview u) (sb u) = disk_full W (sb s)"
proof -
  let ?i = "inodes s ! ip" and ?V = "bview s" and ?sp = "sb s" and ?A = "log_area s" and ?j = "j\<lparr>i_size := z\<rparr>"
  let ?c = "IBLOCK (i_inum ?i) ?sp" and ?t = "setino ip (j\<lparr>i_size := z\<rparr>) t" and ?o = "dinode_off (i_inum ?i)"
  have T: "ip < length (inodes s)" "1 \<le> log_outstanding s" "fs_ok ?V ?sp ?A" using tx by (auto simp: file_tx_def)
  have st': "file_step me {} F k ip s W ?j B ?t" by (rule file_step_reset [OF st])
  note S = file_stepD [OF st'] and P = wrote_fileD [OF wf]
  have it: "inodes ?t ! ip = ?j" using S(7) T(1) by simp
  have j: "i_inum ?j = i_inum ?i" "i_dev ?j = 1" "length (i_addrs ?j) = NDIRECT + 1"
    using addrs_only(2) [OF P(3)] inode_okD(1,2) [OF P(2)] by simp_all
  have area: "?c \<notin> log_area ?t" "1 \<le> log_outstanding ?t" using ib T(2,3) S(4,6) by (auto simp: fs_ok_def)
  let ?X = "W(?c := write_dinode ?o ?j (W ?c))"
  obtain u where u: "iupdate me ip ?t = Ok u" "tx_step me {} F k ?t ?X {?c} u"
    using iupdate_spec [where ip = ip, OF S(2) area(2)] area(1) ib j unfolding it S(1,5) by auto
  have fu: "file_step me {} F k ip s ?X ?j ({?c} \<union> B) u"
    using file_step_trans [OF st' file_step_plain [OF u(2), of ip, unfolded it]] .
  note U = file_stepD [OF fu]
  have len: "length (W ?c) = BSIZE" using P(1) by (simp add: fs_ok_def)
  have ld: "length (write_dinode ?o ?j (W ?c)) = BSIZE" using length_write_dinode [OF dinode_in_block [OF len] j(3)] len by simp
  note M = meta_upd [OF P(1) _ _ ld, of ?j ?c] and D = wrote_file_data [OF wf nh lo z]
  have rd: "read_dinode ?o (write_dinode ?o ?j (W ?c)) ?j = ?j"
    unfolding read_write_dinode_same [OF dinode_in_block [OF len] j(3)] by (simp add: same_dinode_def)
  have iu: "inodes u ! ip = ?j" using U(7) T(1) by simp
  have io: "inode_ok W ?sp ?A ?j" using P(2) by simp
  have ci: "?c \<in> inode_blocks ?sp" using ib by blast
  have "bview u b = ?V b" if "foreign ?sp ?A ?V ?i b" for b
    using P(7) [OF that] ci unfolding U(1) by (auto simp: foreign_def fs_meta_def)
  then have "file_written me F ip s lo ys u"
    unfolding file_written_def Let_def iu
    using file_step_mono [OF fu, of 0] M(1-4) [OF io ci] D rd addrs_only(3) [OF P(3), of z] by (auto simp: U(1))
  then show ?thesis using u(1) M(5) [OF io ci] U(1,5) by auto
qed

context byte_source
begin

lemma writei_spec:
  assumes tx: "file_tx me F r ip s" "nblk (unat off) (unat n) \<le> r"
    and ib: "IBLOCK (i_inum (inodes s ! ip)) (sb s) \<in> F \<inter> inode_blocks (sb s)" and nh: "no_holes (bview s) (inodes s ! ip)"
    and rg: "unat off \<le> unat (i_size (inodes s ! ip))" "unat off + unat n \<le> MAXFILE * BSIZE"
    and src: "unat src + unat n \<le> length xs" "length xs < 2 ^ 64"
  shows "\<exists>w t. writei cin me ip src off n s = Ok (int w, t) \<and> w \<le> unat n \<and> (w < unat n \<longrightarrow> disk_full (bview t) (sb t)) \<and>
     file_written me F ip s (unat off) (take w (drop (unat src) xs)) t"
proof -
  let ?i = "inodes s ! ip" and ?V = "bview s" and ?sp = "sb s" and ?A = "log_area s"
  obtain w t W j B k where l: "writei_loop cin me ip src off (unat n) 0 s = Ok (w, off + of_nat w, t)" "w \<le> unat n"
    "file_step me {} F k ip s W j B t" "w < unat n \<longrightarrow> disk_full W ?sp"
    "wrote_file ?sp ?A ?V ?i W j (unat off) (take w (drop (unat src) xs))"
    using write_loop [OF tx(1), of off "unat n" 0 src] tx(2) rg(2) src by auto
  let ?ys = "take w (drop (unat src) xs)"
  have ly: "length ?ys = w" using l(2) src(1) by simp
  have ip: "ip < length (inodes s)" using tx(1) by (simp add: file_tx_def)
  have j: "inodes t ! ip = j" "i_size j = i_size ?i"
    using file_stepD(7) [OF l(3)] ip addrs_only(1) [OF wrote_fileD(3) [OF l(5)]] by simp_all
  have o: "unat (off + of_nat w) = unat off + w" using rg(2) l(2) by (intro unat_off_add) linarith
  define z where "z = (if off + of_nat w > i_size ?i then off + of_nat w else i_size ?i)"
  have uz: "unat z = max (unat (i_size ?i)) (unat off + length ?ys)" using o ly by (auto simp: z_def word_less_nat_alt)
  have lim: "unat off + length ?ys \<le> MAXFILE * BSIZE" using rg(2) l(2) ly by simp
  obtain u where u: "iupdate me ip (setino ip (j\<lparr>i_size := z\<rparr>) t) = Ok u" "file_written me F ip s (unat off) ?ys u"
    "disk_full (bview u) (sb u) = disk_full W ?sp"
    using writei_finish [OF tx(1) ib nh rg(1) lim l(3,5) uz] by blast
  have t: "(if off + of_nat w > i_size (inodes t ! ip) then upd_inode ip (\<lambda>i. i\<lparr>i_size := off + of_nat w\<rparr>) t else t) =
      setino ip (j\<lparr>i_size := z\<rparr>) t"
  proof (cases "off + of_nat w > i_size ?i")
    case True
    then show ?thesis by (simp add: upd_inode_setino j z_def)
  next
    case False
    then have jz: "j\<lparr>i_size := z\<rparr> = inodes t ! ip" using j by (simp add: z_def)
    show ?thesis unfolding jz using False j(2) unfolding j(1) [symmetric] by (simp add: setino_def)
  qed
  have "unat (off + n) = unat off + unat n" using word32_add_cases(2) [of off n] rg(2) file_limit by simp
  moreover have "ret_int w = int w" using l(2) rg(2) file_limit by (intro ret_int_small) linarith
  ultimately have "writei cin me ip src off n s = Ok (int w, u)"
    using rg l(1) u(1) t word32_add_cases(1) [of off n] file_limit by (simp add: writei_def Let_def word_less_nat_alt)
  then show ?thesis using u(2,3) l(2,4) by auto
qed

end

end
