(* ===== verification/FileSpec.thy ===== *)
theory FileSpec
  imports WriteProof
begin

text \<open>
  What the file system promises: the allocator, reading and writing of file contents, the size of a
  write's transaction, and that a write between \<open>begin_op\<close> and \<open>end_op\<close> is atomic under crashes.
\<close>

section \<open>A small file system\<close>

text \<open>
  Sixty blocks: the log in 2 to 32, one block of inodes (33), the bitmap in 35, and one file of five
  bytes in block 36, which is inode 1 and is open as entry 0 of the inode table.
\<close>

definition small_sb :: superblock where
  "small_sb = \<lparr>sb_magic = 0x10203040, sb_size = 60, sb_nblocks = 24, sb_ninodes = 16, sb_nlog = 31, sb_logstart = 2,
     sb_inodestart = 33, sb_bmapstart = 35\<rparr>"

definition small_inode :: inode where
  "small_inode = \<lparr>i_dev = 1, i_inum = 1, i_ref = 1, i_lock = initsleeplock, i_valid = 1, i_type = 2, i_major = 0, i_minor = 0,
     i_nlink = 1, i_size = 5, i_addrs = 36 # replicate 12 0\<rparr>"

definition small_disk :: "uint32 \<Rightarrow> byte list" where
  "small_disk b = (if b = 33 then write_dinode (dinode_off 1) small_inode (replicate 1024 0) else if b = 35 then mk_bitmap 37
     else if b = 36 then [104, 101, 108, 108, 111] @ replicate 1019 0 else replicate 1024 0)"

definition small_fs :: kfs where
  "small_fs = klog.extend (rebooted small_disk) (kfs.fields small_sb [small_inode])"

lemma small_fs_simps [simp]:
  "disk small_fs = small_disk" "sb small_fs = small_sb" "inodes small_fs = [small_inode]" "log_start small_fs = 2"
  "log_outstanding small_fs = 0" "log_committing small_fs = 0" "lh_n (lh small_fs) = 0"
  by (simp_all add: small_fs_def rebooted_def klog.extend_def kfs.fields_def)

lemma length_small_disk [simp]: "length (small_disk b) = BSIZE"
  by (simp add: small_disk_def length_mk_bitmap length_write_dinode dinode_off_def IPB_def BSIZE_def small_inode_def NDIRECT_def)

lemma fresh_booted:
  assumes "bufs s = replicate 30 unused_buf" "lru s = [0..<30]" "\<forall>b. length (disk s b) = BSIZE" "0 < length (procs s)" "log_geom s"
  shows "booted 0 s \<and> bview s = disk s"
proof -
  have n: "NBUF = 30" by (simp add: NBUF_def MAXOPBLOCKS_def)
  have b: "bufs s ! i = unused_buf" if "i < 30" for i using that assms(1) by simp
  have f: "length (bufs s) = 30" using assms(1) by simp
  have at: "\<not> buf_at s x i" for x i by (auto simp: buf_at_def n b unused_buf_def)
  then have p: "bproj g v s x = v" for g v x by (simp add: bproj_def find_none)
  have c: "\<not> cached s x i" for x i by (auto simp: cached_def n b unused_buf_def)
  have "bcache_inv s"
    using assms(2,3) by (auto simp: bcache_inv_def n f b bufs_uniq_def buf_ok_def unused_buf_def initsleeplock_def)
  then have "booted 0 s" using assms(4,5) by (simp add: booted_def quiet_def pins_def locked_def p)
  moreover have "bview s = disk s" by (simp add: bview_def c find_none fun_eq_iff)
  ultimately show ?thesis ..
qed

lemma small_fs_idle: "tx_idle 0 small_fs" "bview small_fs = small_disk"
proof -
  have "booted 0 small_fs \<and> bview small_fs = disk small_fs"
    by (rule fresh_booted)
      (simp_all add: small_fs_def rebooted_def klog.extend_def kfs.fields_def log_geom_def LOGBLOCKS_def MAXOPBLOCKS_def)
  moreover have d: "small_disk 2 = replicate 1024 0" by (simp add: small_disk_def)
  have "head_n (small_disk 2) = 0" unfolding d by (simp add: head_n_def get_le_def numeral_eq_Suc)
  ultimately show "tx_idle 0 small_fs" "bview small_fs = small_disk" by (simp_all add: tx_idle_def log_head_def)
qed

lemma small_area: "b \<in> log_area small_fs \<Longrightarrow> 2 \<le> unat b \<and> unat b < 33"
proof -
  assume b: "b \<in> log_area small_fs"
  have "unat (3 + of_nat x :: uint32) = 3 + x" if "x < 30" for x
    using that by (simp add: unat_word_ariths unat_of_nat)
  then show ?thesis using b by (auto simp: log_area_def log_head_def log_slot_def LOGBLOCKS_def MAXOPBLOCKS_def)
qed

lemma small_meta: "bitmap_blocks small_sb = {35}" "inode_blocks small_sb = {33}"
proof -
  have sz: "unat (sb_size small_sb) = 60" "unat (sb_ninodes small_sb) = 16" by (simp_all add: small_sb_def)
  have "BBLOCK (of_nat b) small_sb = 35" if "b < 60" for b
    using that by (simp add: BBLOCK_def small_sb_def unat_of_nat BPB_def BSIZE_def)
  then show "bitmap_blocks small_sb = {35}"
    unfolding bitmap_blocks_def sz by (intro equalityI subsetI) (auto intro: image_eqI [of _ _ 0])
  have "IBLOCK (of_nat b) small_sb = 33" if "b < 16" for b
    using that by (simp add: IBLOCK_def small_sb_def unat_of_nat IPB_def BSIZE_def)
  then show "inode_blocks small_sb = {33}"
    unfolding inode_blocks_def sz by (intro equalityI subsetI) (auto intro: image_eqI [of _ _ 0])
qed

lemma small_used: "x < 60 \<Longrightarrow> used small_disk small_sb x \<longleftrightarrow> x < 37"
proof -
  assume x: "x < 60"
  have "BBLOCK (of_nat x) small_sb = 35" using x by (simp add: BBLOCK_def small_sb_def unat_of_nat BPB_def BSIZE_def)
  moreover have "small_disk 35 = mk_bitmap 37" by (simp add: small_disk_def)
  moreover have "x mod BPB = x" "x < BPB" "37 \<le> BPB" using x by (simp_all add: BPB_def BSIZE_def)
  ultimately show ?thesis using mk_bitmap_bits [of 37 x] by (simp add: used_def)
qed

lemma small_fs_ok: "fs_ok small_disk small_sb (log_area small_fs)"
proof -
  have "of_nat x \<notin> fs_meta small_sb (log_area small_fs)" if "x < 60" "\<not> used small_disk small_sb x" for x
  proof -
    have u: "unat (of_nat x :: uint32) = x" using that(1) by (simp add: unat_of_nat)
    moreover have "37 \<le> x" using small_used that by simp
    moreover have "(of_nat x :: uint32) \<noteq> 0" "(of_nat x :: uint32) \<noteq> 35" "(of_nat x :: uint32) \<noteq> 33"
      using u \<open>37 \<le> x\<close> by (auto simp del: unat_of_nat dest: arg_cong [where f = unat])
    ultimately show ?thesis using small_area [of "of_nat x"] by (auto simp: fs_meta_def small_meta)
  qed
  moreover have "35 \<notin> log_area small_fs" "33 \<notin> log_area small_fs" using small_area [of 35] small_area [of 33] by auto
  ultimately show ?thesis by (auto simp: fs_ok_def small_meta) (simp add: small_sb_def)
qed

lemma small_fblk: "n < MAXFILE \<Longrightarrow> fblk V small_inode n = (if n = 0 then 36 else 0)"
  by (simp add: fblk_def small_inode_def NDIRECT_def nth_Cons')

lemma small_inode_ok: "inode_ok small_disk small_sb (log_area small_fs) small_inode" "no_holes V small_inode"
proof -
  have "36 \<notin> fs_meta small_sb (log_area small_fs)" using small_area [of 36] by (auto simp: fs_meta_def small_meta)
  moreover have "in_use_blk small_disk small_sb 36" using small_used [of 36] by (simp add: in_use_blk_def small_sb_def)
  moreover have "ind small_inode = 0" by (simp add: small_inode_def NDIRECT_def)
  moreover have "i_dev small_inode = 1" "length (i_addrs small_inode) = NDIRECT + 1" by (simp_all add: small_inode_def NDIRECT_def)
  ultimately show "inode_ok small_disk small_sb (log_area small_fs) small_inode"
    by (simp add: inode_ok_def blocks_ok_def small_fblk)
  have s: "unat (i_size small_inode) = 5" by (simp add: small_inode_def)
  have "fblk V small_inode (p div BSIZE) \<noteq> 0" if "p < 5" for p
    using that small_fblk [of 0 V] by (simp add: BSIZE_def MAXFILE_def NDIRECT_def)
  then show "no_holes V small_inode"
    unfolding no_holes_def s by (simp add: MAXFILE_def BSIZE_def NDIRECT_def)
qed

lemma small_contents: "file_data small_disk small_inode = [104, 101, 108, 108, 111]"
proof -
  have "file_byte small_disk small_inode p = [104, 101, 108, 108, 111] ! p" if "p < 5" for p
    using that small_fblk [of 0 small_disk] by (simp add: file_byte_def BSIZE_def MAXFILE_def NDIRECT_def small_disk_def nth_Cons')
  moreover have "unat (i_size small_inode) = 5" by (simp add: small_inode_def)
  ultimately show ?thesis by (intro nth_equalityI) (simp_all add: file_data_def)
qed

text \<open>A transaction that starts on an idle log sees the blocks of the disk.\<close>

lemma idle_file_tx:
  assumes idle: "tx_idle me s" and room: "card F + r + 3 \<le> NBUF" and bm: "bitmap_blocks (sb s) \<subseteq> F" and ip: "ip < length (inodes s)"
    and ok: "fs_ok (disk s) (sb s) (log_area s)" "inode_ok (disk s) (sb s) (log_area s) (inodes s ! ip)"
  shows "begin_op s = Ok (s\<lparr>log_outstanding := 1\<rparr>)" "file_tx me F r ip (s\<lparr>log_outstanding := 1\<rparr>)" "bview s = disk s"
proof -
  let ?t = "s\<lparr>log_outstanding := 1\<rparr>"
  show b: "begin_op s = Ok ?t" and tx: "bview s = disk s"
  proof -
    have t: "begin_op s = Ok ?t" "in_tx me {} F (r + 1) ?t" using tx_begin [OF idle, of F "r + 1"] room by simp_all
    have "logged ?t = {}" using idle by (simp add: logged_def tx_idle_def)
    then show "begin_op s = Ok ?t" "bview s = disk s" using t by (auto simp: in_tx_def)
  qed
  have "in_tx me {} F (r + idx_cost ?t (inodes s ! ip)) ?t"
    using tx_begin [OF idle, of F "r + idx_cost ?t (inodes s ! ip)"] room by (simp add: idx_cost_def)
  moreover have "log_area ?t = log_area s" by (simp add: log_area_def log_head_def log_slot_def)
  ultimately show "file_tx me F r ip ?t" using bm ip ok tx by (simp add: file_tx_def)
qed

abbreviation small_tx :: kfs where
  "small_tx \<equiv> small_fs\<lparr>log_outstanding := 1\<rparr>"

lemma small_file_tx: "r \<le> 25 \<Longrightarrow> file_tx 0 {33, 35} r 0 small_tx"
  using idle_file_tx(2) [OF small_fs_idle(1), of "{33, 35}" r 0] small_fs_ok small_inode_ok(1)
  by (simp add: small_meta NBUF_def MAXOPBLOCKS_def)

lemma small_in_tx: "k \<le> 26 \<Longrightarrow> in_tx 0 {} {33, 35} k small_tx"
  using tx_begin [OF small_fs_idle(1), of "{33, 35}" k] by (simp add: NBUF_def MAXOPBLOCKS_def)

lemma small_block: "IBLOCK (i_inum small_inode) small_sb = 33"
  by (simp add: IBLOCK_def small_inode_def small_sb_def IPB_def BSIZE_def)

section \<open>The block allocator\<close>

text \<open>A call of the allocator inside a transaction on a consistent file system.\<close>

definition alloc_tx :: "nat \<Rightarrow> uint32 set \<Rightarrow> nat \<Rightarrow> 'a kfs_scheme \<Rightarrow> bool" where
  "alloc_tx me F k s \<longleftrightarrow> in_tx me {} F k s \<and> 1 \<le> log_outstanding s \<and> bitmap_blocks (sb s) \<subseteq> F \<and>
     fs_ok (bview s) (sb s) (log_area s)"

lemma balloc_result:
  assumes "alloc_tx me F (Suc k) s"
  shows "case first_free (bview s) (sb s) 0 of
      None \<Rightarrow> \<exists>t. balloc me 1 s = Ok (0, t) \<and> bview t = bview s
    | Some x \<Rightarrow> \<exists>t. balloc me 1 s = Ok (of_nat x, t) \<and> tx_step me {} F k s (claim (sb s) x (bview s)) {of_nat x, BBLOCK (of_nat x) (sb s)} t"
proof -
  have "alloc_ok {} s" using assms by (intro fs_alloc_ok) (auto simp: alloc_tx_def)
  then obtain r t where "balloc me 1 s = Ok (r, t)" "balloc_post me {} F (Suc k) 0 s r t"
    using balloc_spec [of me "{}" F "Suc k" s] assms by (auto simp: alloc_tx_def)
  then show ?thesis by (auto simp: balloc_post_def tx_step_def split: option.splits)
qed

lemma first_free_Some: "first_free V sp 0 = Some x \<Longrightarrow> x < unat (sb_size sp) \<and> \<not> used V sp x"
  by (simp add: first_free_def find_upt_Some)

text \<open>C11: A call of \<open>balloc\<close> inside a transaction takes the lowest block the bitmap shows free: it returns its number, the
  block reads as zeros, exactly that bit of the bitmap is set in addition, and every block other than
  it and the bitmap is as before. When no block is free it returns 0 and changes nothing.\<close>

theorem balloc_takes_first_free:
  assumes "alloc_tx me F (Suc k) s"
  shows "case first_free (bview s) (sb s) 0 of
      None \<Rightarrow> \<exists>t. balloc me 1 s = Ok (0, t) \<and> bview t = bview s
    | Some x \<Rightarrow> \<exists>t. balloc me 1 s = Ok (of_nat x, t) \<and> bview t (of_nat x) = replicate BSIZE 0 \<and>
        (\<forall>y<unat (sb_size (sb s)). used (bview t) (sb t) y \<longleftrightarrow> y = x \<or> used (bview s) (sb s) y) \<and>
        (\<forall>c. c \<noteq> of_nat x \<longrightarrow> c \<notin> bitmap_blocks (sb s) \<longrightarrow> bview t c = bview s c)"
proof (cases "first_free (bview s) (sb s) 0")
  case None
  then show ?thesis using balloc_result [OF assms] by simp
next
  case (Some x)
  then obtain t where t: "balloc me 1 s = Ok (of_nat x, t)"
    "tx_step me {} F k s (claim (sb s) x (bview s)) {of_nat x, BBLOCK (of_nat x) (sb s)} t"
    using balloc_result [OF assms] by auto
  note x = first_free_Some [OF Some]
  have fs: "fs_ok (bview s) (sb s) (log_area s)" using assms by (simp add: alloc_tx_def)
  have V: "bview t = claim (sb s) x (bview s)" "sb t = sb s" using tx_stepD(1,3) [OF t(2)] tx_same_fs(1) by blast+
  have "used (bview t) (sb t) y \<longleftrightarrow> y = x \<or> used (bview s) (sb s) y" if "y < unat (sb_size (sb s))" for y
    using used_claim [OF fs] x that by (simp add: V)
  then show ?thesis using Some t(1) x BBLOCK_bitmap [of x "sb s"] by (auto simp: V claim_apply)
qed

lemma small_free: "first_free small_disk small_sb 0 = Some 37"
proof -
  have "unat (sb_size small_sb) = 60" by (simp add: small_sb_def)
  then show ?thesis by (auto simp: first_free_def find_upt_Some small_used)
qed

lemma small_alloc_tx: "k \<le> 26 \<Longrightarrow> alloc_tx 0 {33, 35} k small_tx"
  using small_in_tx [of k] small_fs_ok
  by (simp add: alloc_tx_def small_meta small_fs_idle log_area_def log_head_def log_slot_def)

theorem balloc_takes_first_free_witness:
  "\<exists>t. balloc 0 1 small_tx = Ok (37, t) \<and> bview t 37 = replicate BSIZE 0 \<and> used (bview t) (sb t) 37 \<and>
     \<not> used (bview small_tx) small_sb 37 \<and> bview t 36 = bview small_tx 36"
proof -
  have "unat (sb_size small_sb) = 60" by (simp add: small_sb_def)
  then show ?thesis
    using balloc_takes_first_free [OF small_alloc_tx, of 1] by (auto simp: small_fs_idle small_free small_used small_meta)
qed

text \<open>C12: Freeing the block that \<open>balloc\<close> has just returned puts the bitmap back: every bit is as it was before the
  allocation. Freeing the block once more panics with ``freeing free block''.\<close>

theorem bfree_undoes_balloc:
  assumes "alloc_tx me F (Suc k) s" and x: "first_free (bview s) (sb s) 0 = Some x"
  shows "\<exists>t u. balloc me 1 s = Ok (of_nat x, t) \<and> bfree me 1 (of_nat x) t = Ok u \<and>
     (\<forall>y<unat (sb_size (sb s)). used (bview u) (sb u) y = used (bview s) (sb s) y) \<and>
     bfree me 1 (of_nat x) u = Panic ''freeing free block''"
proof -
  obtain t where t: "balloc me 1 s = Ok (of_nat x, t)"
    "tx_step me {} F k s (claim (sb s) x (bview s)) {of_nat x, BBLOCK (of_nat x) (sb s)} t"
    using balloc_result [OF assms(1)] x by auto
  note f = first_free_Some [OF x] and T = tx_stepD [OF t(2)]
  have fs: "fs_ok (bview s) (sb s) (log_area s)" "1 \<le> log_outstanding s" using assms(1) by (simp_all add: alloc_tx_def)
  let ?c = "BBLOCK (of_nat x) (sb s)"
  have sp: "sb t = sb s" using tx_same_fs(1) [OF T(3)] .
  have u: "unat (of_nat x :: uint32) = x" using unat_size_32 f by blast
  have c: "?c \<in> bitmap_blocks (sb s)" "?c \<notin> log_area s" using f fs(1) by (auto simp: bitmap_blocks_def fs_ok_def)
  have ut: "used (bview t) (sb s) y \<longleftrightarrow> y = x \<or> used (bview s) (sb s) y" if "y < unat (sb_size (sb s))" for y
    using used_claim [OF fs(1)] f that by (simp add: T(1))
  obtain w where w: "bfree me 1 (of_nat x) t = Ok w" "tx_step me {} F k t (unmark (sb s) x (bview t)) {?c} w"
    using bfree_spec [OF T(2), of "of_nat x"] T(4-6) fs(2) f c(2) ut [of x] u sp by auto
  note W = tx_stepD [OF w(2)]
  have sw: "sb w = sb s" using tx_same_fs(1) [OF W(3)] sp by simp
  have uw: "used (bview w) (sb s) y = used (bview s) (sb s) y" if "y < unat (sb_size (sb s))" for y
    using used_unmark [of x "sb s" y "bview t"] in_tx_length [OF T(2)] f that ut [OF that] by (auto simp: W(1))
  then have "bfree me 1 (of_nat x) w = Panic ''freeing free block''"
    using bfree_spec [OF W(2), of "of_nat x"] W(4-6) T(5,6) fs(2) f c(2) u sw by simp
  then show ?thesis using t(1) w(1) uw sw by auto
qed

theorem bfree_undoes_balloc_witness:
  "\<exists>t u. balloc 0 1 small_tx = Ok (37, t) \<and> bfree 0 1 37 t = Ok u \<and> used (bview u) (sb u) 36 \<and>
     \<not> used (bview u) (sb u) 37 \<and> bfree 0 1 37 u = Panic ''freeing free block''"
proof -
  have "unat (sb_size small_sb) = 60" by (simp add: small_sb_def)
  then show ?thesis
    using bfree_undoes_balloc [OF small_alloc_tx, of 1 37] by (auto simp: small_fs_idle small_free small_used)
qed

section \<open>Files\<close>

text \<open>The log is no part of a file: views that agree outside it hold the same files.\<close>

lemma file_agree:
  assumes ok: "fs_ok V sp A" "inode_ok V sp A i" and eq: "\<And>b. b \<notin> A \<Longrightarrow> W b = V b" and len: "\<And>b. length (W b) = BSIZE"
  shows "fs_ok W sp A" "inode_ok W sp A i" "no_holes W i = no_holes V i" "no_holes V i \<Longrightarrow> file_data W i = file_data V i"
    "b \<in> inode_blocks sp \<Longrightarrow> W b = V b" "disk_full W sp = disk_full V sp"
proof -
  have us: "used W sp x = used V sp x" if "x < unat (sb_size sp)" for x
  proof -
    have "BBLOCK (of_nat x) sp \<notin> A" using BBLOCK_bitmap [OF that] ok(1) by (auto simp: fs_ok_def)
    then show ?thesis by (simp add: used_def eq)
  qed
  have iu: "in_use_blk W sp = in_use_blk V sp" by (auto simp: in_use_blk_def us fun_eq_iff)
  have f: "fblk W i n = fblk V i n" for n
    using eq [of "ind i"] inode_okD(4) [OF ok(2)] by (auto simp: fblk_def fs_meta_def)
  show "fs_ok W sp A" using ok(1) len us by (auto simp: fs_ok_def)
  show "inode_ok W sp A i" using ok(2) by (simp add: inode_ok_def f iu blocks_ok_def)
  show "no_holes W i = no_holes V i" by (simp add: no_holes_def f)
  show "b \<in> inode_blocks sp \<Longrightarrow> W b = V b" using eq ok(1) by (auto simp: fs_ok_def)
  show "disk_full W sp = disk_full V sp" by (simp add: disk_full_def us)
  assume nh: "no_holes V i"
  have "W (fblk V i (p div BSIZE)) = V (fblk V i (p div BSIZE))" if "p < unat (i_size i)" for p
    using inode_okD(3) [OF ok(2) div_BSIZE_less, of p] nh that by (intro eq) (auto simp: no_holes_def fs_meta_def)
  then show "file_data W i = file_data V i" by (simp add: file_data_def file_byte_def f)
qed

text \<open>
  Between system calls: the log is idle, the file system on the disk is consistent, and the entry \<open>ip\<close> of the
  inode table, which is not locked by anyone else, holds what its block on the disk says.
\<close>

definition saved :: "(uint32 \<Rightarrow> byte list) \<Rightarrow> superblock \<Rightarrow> inode \<Rightarrow> bool" where
  "saved V sp i \<longleftrightarrow> read_dinode (dinode_off (i_inum i)) (V (IBLOCK (i_inum i) sp)) i = i"

definition file_ok :: "nat \<Rightarrow> nat \<Rightarrow> 'a kfs_scheme \<Rightarrow> bool" where
  "file_ok me ip s \<longleftrightarrow> tx_idle me s \<and> ip < length (inodes s) \<and> IBLOCK (i_inum (inodes s ! ip)) (sb s) \<in> inode_blocks (sb s) \<and>
     fs_ok (disk s) (sb s) (log_area s) \<and> inode_ok (disk s) (sb s) (log_area s) (inodes s ! ip) \<and>
     no_holes (disk s) (inodes s ! ip) \<and> saved (disk s) (sb s) (inodes s ! ip)"

definition contents :: "nat \<Rightarrow> 'a kfs_scheme \<Rightarrow> byte list" where
  "contents ip s = file_data (disk s) (inodes s ! ip)"

text \<open>The blocks a write of \<open>n\<close> bytes at \<open>off\<close> may touch fit the cache and the log.\<close>

definition write_room :: "nat \<Rightarrow> nat \<Rightarrow> 'a kfs_scheme \<Rightarrow> bool" where
  "write_room off n s \<longleftrightarrow> card (bitmap_blocks (sb s)) + nblk off n + 4 \<le> NBUF \<and> off + n \<le> MAXFILE * BSIZE"

lemma file_write_tx:
  assumes ok: "file_ok me ip s" and room: "write_room (unat off) (unat n) s" and off: "unat off \<le> unat (i_size (inodes s ! ip))"
    and buf: "unat n \<le> length buf" "length buf < 2 ^ 64"
  defines "F \<equiv> insert (IBLOCK (i_inum (inodes s ! ip)) (sb s)) (bitmap_blocks (sb s))"
  shows "\<exists>w t. begin_op s = Ok (s\<lparr>log_outstanding := 1\<rparr>) \<and> writei (from_local buf) me ip 0 off n (s\<lparr>log_outstanding := 1\<rparr>) = Ok (int w, t) \<and>
     w \<le> unat n \<and> (w < unat n \<longrightarrow> disk_full (bview t) (sb t)) \<and>
     file_written me F ip (s\<lparr>log_outstanding := 1\<rparr>) (unat off) (take w buf) t"
proof -
  let ?t = "s\<lparr>log_outstanding := 1\<rparr>"
  have f: "finite (bitmap_blocks (sb s))" by (simp add: bitmap_blocks_def)
  have "card F \<le> card (bitmap_blocks (sb s)) + 1" unfolding F_def using f by (simp add: card_insert_if)
  then have c: "card F + nblk (unat off) (unat n) + 3 \<le> NBUF" using room by (simp add: write_room_def)
  note I = idle_file_tx [of me s F "nblk (unat off) (unat n)" ip]
  have tx: "begin_op s = Ok ?t" "file_tx me F (nblk (unat off) (unat n)) ip ?t" "bview s = disk s"
    using I [OF _ c] ok by (auto simp: file_ok_def F_def)
  have "IBLOCK (i_inum (inodes ?t ! ip)) (sb ?t) \<in> F \<inter> inode_blocks (sb ?t)" using ok by (simp add: F_def file_ok_def)
  moreover have "no_holes (bview ?t) (inodes ?t ! ip)" using ok tx(3) by (simp add: file_ok_def)
  ultimately show ?thesis
    using local_source.writei_spec [where off = off and n = n and src = 0 and buf = buf, OF tx(2) order_refl] tx(1) off buf room by (simp add: write_room_def)
qed

text \<open>The bytes of a file as one finds them by its inode number, with nothing in memory.\<close>

definition file_at :: "(uint32 \<Rightarrow> byte list) \<Rightarrow> superblock \<Rightarrow> inode \<Rightarrow> byte list" where
  "file_at V sp i = file_data V (read_dinode (dinode_off (i_inum i)) (V (IBLOCK (i_inum i) sp)) i)"

lemma file_at_saved: "saved V sp j \<Longrightarrow> i_inum j = i_inum i \<Longrightarrow> file_at V sp i = file_data V j"
proof -
  assume "saved V sp j" "i_inum j = i_inum i"
  moreover have "file_data V (read_dinode o1 bs i) = file_data V (read_dinode o1 bs j)" for o1 bs
    by (simp add: file_data_def file_byte_def fblk_def read_dinode_def)
  ultimately show ?thesis by (simp add: file_at_def saved_def)
qed

lemma file_writtenD:
  assumes "file_written me F ip s lo ys t"
  shows "in_tx me {} F 0 t" "log_area t = log_area s" "sb t = sb s" "log_outstanding t = log_outstanding s" "disk t = disk s"
    "fs_ok (bview t) (sb s) (log_area s)" "inode_ok (bview t) (sb s) (log_area s) (inodes t ! ip)" "no_holes (bview t) (inodes t ! ip)"
    "file_data (bview t) (inodes t ! ip) = splice lo ys (file_data (bview s) (inodes s ! ip))"
    "i_inum (inodes t ! ip) = i_inum (inodes s ! ip)" "saved (bview t) (sb s) (inodes t ! ip)"
    "log_start t = log_start s" "log_committing t = log_committing s" "dtrace t = dtrace s"
    "length (inodes t) = length (inodes s)"
    "foreign (sb s) (log_area s) (bview s) (inodes s ! ip) b \<Longrightarrow> bview t b = bview s b"
proof -
  obtain B where st: "file_step me {} F 0 ip s (bview t) (inodes t ! ip) B t" using assms by (auto simp: file_written_def Let_def)
  note S = file_stepD [OF st]
  show "in_tx me {} F 0 t" "log_area t = log_area s" "sb t = sb s" "log_outstanding t = log_outstanding s" "disk t = disk s"
    using S(2,4-6,8) by simp_all
  show "length (inodes t) = length (inodes s)" using arg_cong [OF S(7), of length] by simp
  show inum: "i_inum (inodes t ! ip) = i_inum (inodes s ! ip)"
  proof -
    have "inodes t ! ip = (inodes s ! ip)\<lparr>i_addrs := i_addrs (inodes t ! ip), i_size := i_size (inodes t ! ip)\<rparr>"
      using assms by (simp add: file_written_def Let_def)
    from arg_cong [OF this, of i_inum] show ?thesis by simp
  qed
  show "fs_ok (bview t) (sb s) (log_area s)" "inode_ok (bview t) (sb s) (log_area s) (inodes t ! ip)" "no_holes (bview t) (inodes t ! ip)"
    "file_data (bview t) (inodes t ! ip) = splice lo ys (file_data (bview s) (inodes s ! ip))"
    "saved (bview t) (sb s) (inodes t ! ip)"
    "foreign (sb s) (log_area s) (bview s) (inodes s ! ip) b \<Longrightarrow> bview t b = bview s b"
    using assms by (simp_all add: file_written_def Let_def saved_def inum)
  show "log_start t = log_start s" "log_committing t = log_committing s" "dtrace t = dtrace s"
    using st by (simp_all add: file_step_def tx_step_def tx_same_def)
qed

text \<open>The end of the transaction puts the written file on the disk; a crash leaves the old file or the new one.\<close>

lemma idle_view: "tx_idle me s \<Longrightarrow> bview s = disk s \<and> (\<forall>b. length (disk s b) = BSIZE)"
proof -
  assume idle: "tx_idle me s"
  have "in_tx me {} {} 0 (s\<lparr>log_outstanding := 1\<rparr>)" using tx_begin [OF idle, of "{}" 0] by (simp add: NBUF_def MAXOPBLOCKS_def)
  moreover have "logged (s\<lparr>log_outstanding := 1\<rparr>) = {}" using idle by (simp add: logged_def tx_idle_def)
  ultimately have "bview s = disk s" by (auto simp: in_tx_def)
  moreover have "bcache_inv s" using idle by (simp add: tx_idle_def booted_def quiet_def)
  ultimately show ?thesis using length_bview by metis
qed

lemma more_fs: "klog.more t = klog.more s \<Longrightarrow> sb t = sb s \<and> inodes t = inodes s"
  by (cases s, cases t) simp

lemma file_commit:
  assumes ok: "file_ok me ip s" and w: "file_written me F ip (s\<lparr>log_outstanding := 1\<rparr>) lo ys t"
  shows "\<exists>u. end_op me t = Ok u \<and> dtrace u = dtrace s @ tx_writes t \<and> file_ok me ip u \<and> sb u = sb s \<and> log_start u = log_start s \<and>
     contents ip u = splice lo ys (contents ip s) \<and> inodes u = inodes t \<and> disk_full (disk u) (sb u) = disk_full (bview t) (sb t) \<and>
     (\<forall>b. foreign (sb s) (log_area s) (disk s) (inodes s ! ip) b \<longrightarrow> disk u b = disk s b)"
proof -
  let ?s = "s\<lparr>log_outstanding := 1\<rparr>"
  have a: "log_area ?s = log_area s" "log_head t = log_head s"
    using file_writtenD(12) [OF w] by (simp_all add: log_area_def log_head_def log_slot_def)
  have idle: "tx_idle me s" "bview s = disk s" using ok idle_view [of me s] by (auto simp: file_ok_def)
  note W = file_writtenD [OF w, simplified a, simplified]
  obtain u where u: "end_op me t = Ok u" "tx_idle me u" "dtrace u = dtrace t @ tx_writes t" "log_start u = log_start t"
    "klog.more u = klog.more t" "\<And>b. b \<notin> log_area s \<Longrightarrow> disk u b = bview t b"
    using tx_end [OF W(1)] W(2,4,5,13) idle a by (auto simp: tx_idle_def)
  have A: "log_area u = log_area s" using u(4) W(12) by (simp add: log_area_def log_head_def log_slot_def)
  have m: "sb u = sb s" "inodes u = inodes t" using more_fs [OF u(5)] W(3) by simp_all
  have len: "length (disk u b) = BSIZE" for b using idle_view [OF u(2)] by simp
  note G = file_agree [OF W(6,7) u(6) len, simplified]
  have c: "IBLOCK (i_inum (inodes t ! ip)) (sb s) \<in> inode_blocks (sb s)" using ok W(10) by (simp add: file_ok_def)
  have "saved (disk u) (sb s) (inodes t ! ip)" using W(11) G(5) [OF c] by (simp add: saved_def)
  then have "file_ok me ip u" using u(2) ok c W(8,15) G(1-3) by (simp add: file_ok_def m A)
  moreover have "disk u b = disk s b" if "foreign (sb s) (log_area s) (disk s) (inodes s ! ip) b" for b
    using that u(6) [of b] W(16) [of b] idle(2) by (simp add: foreign_def fs_meta_def)
  ultimately show ?thesis
    using u(1,3,4) W(3,8,9,12,14) G(4,6) idle(2) by (simp add: contents_def m)
qed

lemma booted_length: "booted p x \<Longrightarrow> length (disk x b) = BSIZE"
  by (simp add: booted_def quiet_def bcache_inv_def)

lemma file_crash:
  assumes ok: "file_ok me ip s" and w: "file_written me F ip (s\<lparr>log_outstanding := 1\<rparr>) lo ys t"
    and x: "booted p x" "log_start x = log_start s" "cut_recoveries t (apply_writes (take j (tx_writes t)) (disk s)) (disk x)"
  shows "\<exists>y. recover_from_log p x = Ok y \<and>
     file_at (disk y) (sb s) (inodes s ! ip) \<in> {contents ip s, splice lo ys (contents ip s)}"
proof -
  let ?s = "s\<lparr>log_outstanding := 1\<rparr>" and ?i = "inodes s ! ip"
  have a: "log_area ?s = log_area s" "log_head t = log_head s"
    using file_writtenD(12) [OF w] by (simp_all add: log_area_def log_head_def log_slot_def)
  note W = file_writtenD [OF w, simplified a, simplified]
  have idle: "tx_idle me s" "bview s = disk s" using ok idle_view [of me s] by (auto simp: file_ok_def)
  have t: "head_n (disk t (log_head t)) = 0" "log_start x = log_start t"
    "cut_recoveries t (apply_writes (take j (tx_writes t)) (disk t)) (disk x)"
    using x(2,3) W(5,12) idle(1) a(2) by (simp_all add: tx_idle_def)
  obtain y where y: "recover_from_log p x = Ok y" "booted p y"
    "(\<forall>b. b \<notin> log_area s \<longrightarrow> disk y b = disk s b) \<or> (\<forall>b. b \<notin> log_area s \<longrightarrow> disk y b = bview t b)"
    using tx_crash [OF W(1) t(1) x(1) t(2,3)] unfolding W(2,5) by blast
  note len = booted_length [OF y(2)]
  have c: "IBLOCK (i_inum ?i) (sb s) \<in> inode_blocks (sb s)" using ok by (simp add: file_ok_def)
  from y(3) show ?thesis
  proof
    assume d: "\<forall>b. b \<notin> log_area s \<longrightarrow> disk y b = disk s b"
    have o: "fs_ok (disk s) (sb s) (log_area s)" "inode_ok (disk s) (sb s) (log_area s) ?i" "no_holes (disk s) ?i"
      "saved (disk s) (sb s) ?i" using ok by (simp_all add: file_ok_def)
    note G = file_agree [OF o(1,2) d [rule_format] len, simplified]
    have "saved (disk y) (sb s) ?i" using o(4) G(5) [OF c] by (simp add: saved_def)
    then show ?thesis using y(1) file_at_saved [of "disk y" "sb s" ?i ?i] G(4) [OF o(3)] by (simp add: contents_def)
  next
    assume d: "\<forall>b. b \<notin> log_area s \<longrightarrow> disk y b = bview t b"
    note G = file_agree [OF W(6,7) d [rule_format] len, simplified]
    have "saved (disk y) (sb s) (inodes t ! ip)" using W(10,11) G(5) [OF c] by (simp add: saved_def)
    then show ?thesis using y(1) file_at_saved [OF _ W(10)] G(4) [OF W(8)] W(9) idle(2) by (simp add: contents_def)
  qed
qed


lemma small_file_ok: "file_ok 0 0 small_fs" "contents 0 small_fs = [104, 101, 108, 108, 111]"
proof -
  have "small_disk 33 = write_dinode (dinode_off 1) small_inode (replicate 1024 0)" by (simp add: small_disk_def)
  moreover have "read_dinode (dinode_off 1) (write_dinode (dinode_off 1) small_inode (replicate 1024 0)) small_inode = small_inode"
    by (subst read_write_dinode_same) (simp_all add: dinode_off_def IPB_def BSIZE_def small_inode_def NDIRECT_def same_dinode_def)
  ultimately have "saved small_disk small_sb small_inode"
    by (simp add: saved_def small_block) (simp add: small_inode_def)
  then show "file_ok 0 0 small_fs"
    using small_fs_idle(1) small_fs_ok small_inode_ok small_block by (simp add: file_ok_def small_meta)
  show "contents 0 small_fs = [104, 101, 108, 108, 111]" by (simp add: contents_def small_contents)
qed

lemma small_room:
  "write_room (unat (5 :: uint32)) (unat (3 :: uint32)) small_fs" "unat (5 :: uint32) \<le> unat (i_size (inodes small_fs ! 0))"
  by (simp_all add: write_room_def small_meta nblk_def BSIZE_def NBUF_def MAXOPBLOCKS_def MAXFILE_def NDIRECT_def NINDIRECT_def
      small_inode_def)


lemma idle_in_tx: "tx_idle me s \<Longrightarrow> k \<le> 28 \<Longrightarrow> in_tx me {} {} k s"
proof -
  assume "tx_idle me s" "k \<le> 28"
  then have "in_tx me {} {} k (s\<lparr>log_outstanding := 1\<rparr>)" using tx_begin [of me s "{}" k] by (simp add: NBUF_def MAXOPBLOCKS_def)
  then show ?thesis
    by (simp add: in_tx_def logged_def log_geom_def log_area_def log_head_def log_slot_def)
qed





section \<open>The size of a write's transaction\<close>

lemma finite_logged [simp]: "finite (logged s)"
  by (simp add: logged_def)

lemma logged_le: "in_tx me L F k s \<Longrightarrow> card (logged s) \<le> LOGBLOCKS"
proof -
  assume "in_tx me L F k s"
  then have "nat (lh_n (lh s)) \<le> LOGBLOCKS" unfolding in_tx_def by linarith
  then show ?thesis unfolding logged_def using card_length [of "take (nat (lh_n (lh s))) (lh_block (lh s))"] by simp
qed

text \<open>
  The bound of \<open>in_tx\<close> is on a set of blocks that may be chosen: filled up with blocks that the
  operation does not touch, it leaves room for exactly the \<open>k\<close> blocks the operation may add.
\<close>

lemma in_tx_filled:
  assumes tx: "in_tx me {} F k s" and X: "card X \<le> LOGBLOCKS"
  obtains D where "D \<inter> X = {}" "in_tx me {} (F \<union> D) k s" "card (F \<union> D \<union> logged s) + k + 2 = NBUF"
proof -
  let ?Y = "X \<union> (F \<union> logged s)" and ?c = "card (F \<union> logged s)"
  have c: "?c + k + 2 \<le> NBUF" using tx by (simp add: in_tx_def)
  have n: "NBUF = 30" "LOGBLOCKS = 30" by (simp_all add: NBUF_def LOGBLOCKS_def MAXOPBLOCKS_def)
  have "card ?Y \<le> 60" using card_Un_le [of X "F \<union> logged s"] c X n by linarith
  moreover have "card (- ?Y) = 2 ^ 32 - card ?Y" by (simp add: Compl_eq_Diff_UNIV card_Diff_subset card_word)
  ultimately have "28 \<le> card (- ?Y)" by simp
  then have "NBUF - 2 - k - ?c \<le> card (- ?Y)" unfolding n by simp
  then obtain D where D: "D \<subseteq> - ?Y" "card D = NBUF - 2 - k - ?c" by (meson obtain_subset_with_card_n)
  have "card (F \<union> logged s \<union> D) = ?c + card D" using D(1) by (intro card_Un_disjoint) auto
  then have e: "card (F \<union> D \<union> logged s) + k + 2 = NBUF" using D(2) c by (simp add: Un_ac)
  then have "in_tx me {} (F \<union> D) k s" using tx by (simp add: in_tx_def)
  then show ?thesis using that D(1) e by blast
qed

lemma write_log_growth:
  assumes tx: "file_tx me F (nblk (unat off) (unat n)) ip s"
    and ib: "IBLOCK (i_inum (inodes s ! ip)) (sb s) \<in> F \<inter> inode_blocks (sb s)" and nh: "no_holes (bview s) (inodes s ! ip)"
    and rg: "unat off \<le> unat (i_size (inodes s ! ip))" "unat off + unat n \<le> MAXFILE * BSIZE"
    and src: "unat src + unat n \<le> length buf" "length buf < 2 ^ 64"
  shows "\<exists>w t. writei (from_local buf) me ip src off n s = Ok (w, t) \<and>
     card (logged t - logged s) \<le> card F + nblk (unat off) (unat n) + 1"
proof -
  let ?k = "nblk (unat off) (unat n) + idx_cost s (inodes s ! ip)"
  obtain w t where t: "writei (from_local buf) me ip src off n s = Ok (int w, t)"
    "file_written me F ip s (unat off) (take w (drop (unat src) buf)) t"
    using local_source.writei_spec [OF tx order_refl ib nh rg src] by blast
  have "in_tx me {} F ?k s" using tx by (simp add: file_tx_def)
  then obtain D where D: "D \<inter> logged t = {}" "in_tx me {} (F \<union> D) ?k s" "card (F \<union> D \<union> logged s) + ?k + 2 = NBUF"
    using in_tx_filled logged_le [OF file_writtenD(1) [OF t(2)]] by metis
  have tx': "file_tx me (F \<union> D) (nblk (unat off) (unat n)) ip s" using tx D(2) by (auto simp: file_tx_def)
  have ib': "IBLOCK (i_inum (inodes s ! ip)) (sb s) \<in> (F \<union> D) \<inter> inode_blocks (sb s)" using ib by blast
  obtain w' where w': "file_written me (F \<union> D) ip s (unat off) (take w' (drop (unat src) buf)) t"
    using local_source.writei_spec [OF tx' order_refl ib' nh rg src] t(1) by auto
  have sub: "logged s \<subseteq> logged t" using t(2) by (auto simp: file_written_def Let_def dest: file_stepD(3))
  let ?G = "F \<union> D \<union> logged s"
  have "card (F \<union> D \<union> logged t) \<le> card ?G + ?k" using file_writtenD(1) [OF w'] D(3) by (simp add: in_tx_def)
  moreover have "F \<union> D \<union> logged t = ?G \<union> (logged t - ?G)" using sub by blast
  moreover have "card (?G \<union> (logged t - ?G)) = card ?G + card (logged t - ?G)" by (intro card_Un_disjoint) auto
  ultimately have "card (logged t - ?G) \<le> ?k" by simp
  moreover have "logged t - logged s \<subseteq> F \<union> (logged t - ?G)" using D(1) by blast
  then have "card (logged t - logged s) \<le> card F + card (logged t - ?G)"
    using card_mono [of "F \<union> (logged t - ?G)"] card_Un_le [of F "logged t - ?G"] by (meson finite le_trans)
  moreover have "idx_cost s (inodes s ! ip) \<le> 1" by (simp add: idx_cost_def)
  ultimately show ?thesis using t(1) by auto
qed

lemma nblk_chunk: "n \<le> 3 * BSIZE \<Longrightarrow> nblk off n \<le> 4"
proof -
  assume n: "n \<le> 3 * BSIZE"
  have "(off + n - 1) div BSIZE \<le> (off + 3 * BSIZE) div BSIZE" using n by (intro div_le_mono) simp
  also have "\<dots> = off div BSIZE + 3" by (simp add: BSIZE_def)
  finally have "(off + n - 1) div BSIZE - off div BSIZE \<le> 3" by linarith
  then show ?thesis by (simp add: nblk_def)
qed



section \<open>Writing and reading back\<close>

lemma take_drop_splice: "lo \<le> length xs \<Longrightarrow> take (length ys) (drop lo (splice lo ys xs)) = ys"
  by (simp add: splice_def)

lemma length_splice: "lo \<le> length xs \<Longrightarrow> length (splice lo ys xs) = max (length xs) (lo + length ys)"
  by (simp add: splice_def)

lemma length_contents: "length (contents ip s) = unat (i_size (inodes s ! ip))"
  by (simp add: contents_def file_data_def)

lemma read_back:
  assumes ok: "file_ok me ip u" and c: "contents ip u = splice (unat off) ys xs" "unat off \<le> length xs"
    and ys: "unat off + length ys \<le> MAXFILE * BSIZE"
  shows "\<exists>v. readi to_local me ip 0 off (of_nat (length ys)) (replicate (length ys) 0) u = Ok (int (length ys), ys, v)"
proof -
  let ?i = "inodes u ! ip" and ?n = "of_nat (length ys) :: uint32"
  have tx: "in_tx me {} {} 1 u" "i_dev ?i = 1" "bview u = disk u" "no_holes (bview u) ?i"
    using ok idle_in_tx [of me u 1] idle_view [of me u] by (auto simp: file_ok_def inode_ok_def)
  have lt: "length ys < 2 ^ 32" "unat off + length ys < 2 ^ 32" using ys file_limit by simp_all
  then have n: "unat ?n = length ys" by (simp add: unat_of_nat)
  have "unat off + length ys \<le> unat (i_size ?i)" using length_contents [of ip u] length_splice [OF c(2), of ys] c(1) by simp
  then have r: "read_len ?i off ?n = length ys" using lt by (simp add: read_len_def n)
  have "length (replicate (length ys) (0 :: byte)) < 2 ^ 64" using lt by simp
  then have "\<exists>v. readi to_local me ip 0 off ?n (replicate (length ys) 0) u =
      Ok (int (length ys), put_bs 0 (take (length ys) (drop (unat off) (contents ip u))) (replicate (length ys) 0), v)"
    using readi_spec [OF tx(1) _ tx(2,4), of 0 off ?n "replicate (length ys) 0"] unfolding r contents_def tx(3) by auto
  moreover have "take (length ys) (drop (unat off) (contents ip u)) = ys" using take_drop_splice [OF c(2)] c(1) by simp
  ultimately show ?thesis by (auto simp: put_bs_def)
qed



end
