(* ===== verification/File.thy ===== *)
theory File
  imports Fs
begin

text \<open>
  The system-wide table of open files of \<open>src/kernel/file.c\<close>, with its reference counts, and the
  table of memory-mapped areas of \<open>src/kernel/mmap.c\<close>, which holds references to files. A
  \<open>struct file*\<close> is an index of the table. Reading and writing are in \<open>FileIO\<close>, after the copying
  routines that they use.
\<close>

section \<open>State\<close>

definition NFILE :: nat where "NFILE = 100"

definition NDEV :: nat where "NDEV = 10"

definition CONSOLE :: "16 word" where "CONSOLE = 1"

datatype filetype = FD_NONE | FD_PIPE | FD_INODE | FD_DEVICE

text \<open>\<open>f_pipe\<close>, \<open>f_ip\<close> and \<open>f_major\<close> have a meaning for the types that the source names only.\<close>

record file_t =
  f_type :: filetype
  f_ref :: int
  f_readable :: byte
  f_writable :: byte
  f_pipe :: addr
  f_ip :: nat
  f_off :: uint32
  f_major :: "16 word"

record mmap_area =
  ma_f :: "nat option"
  ma_addr :: uint64
  ma_length :: int
  ma_offset :: int
  ma_prot :: int
  ma_flags :: int
  ma_p :: "nat option"

record kfile = kfs +
  ftable :: "file_t list"
  mmap_areas :: "mmap_area list"

definition upd_file :: "nat \<Rightarrow> (file_t \<Rightarrow> file_t) \<Rightarrow> 'a kfile_scheme \<Rightarrow> 'a kfile_scheme" where
  "upd_file f g s = s\<lparr>ftable := (ftable s)[f := g (ftable s ! f)]\<rparr>"

section \<open>Operations\<close>

definition filealloc :: "'a kfile_scheme \<Rightarrow> nat option \<times> 'a kfile_scheme" where
  "filealloc s = (case find (\<lambda>f. f_ref (ftable s ! f) = 0) [0..<NFILE] of
     None \<Rightarrow> (None, s)
   | Some f \<Rightarrow> (Some f, upd_file f (\<lambda>f. f\<lparr>f_ref := 1\<rparr>) s))"

definition filedup :: "nat \<Rightarrow> 'a kfile_scheme \<Rightarrow> 'a kfile_scheme outcome" where
  "filedup f s =
     (if f_ref (ftable s ! f) < 1 then Panic ''filedup''
      else Ok (upd_file f (\<lambda>f. f\<lparr>f_ref := f_ref f + 1\<rparr>) s))"

definition fileclose :: "nat \<Rightarrow> nat \<Rightarrow> 'a kfile_scheme \<Rightarrow> 'a kfile_scheme outcome" where
  "fileclose me f s =
     (if f_ref (ftable s ! f) < 1 then Panic ''fileclose''
      else let s = upd_file f (\<lambda>f. f\<lparr>f_ref := f_ref f - 1\<rparr>) s in
      if f_ref (ftable s ! f) > 0 then Ok s
      else let ff = ftable s ! f;
               s = upd_file f (\<lambda>f. f\<lparr>f_ref := 0, f_type := FD_NONE\<rparr>) s in
      if f_type ff = FD_PIPE then pipeclose (f_pipe ff) (f_writable ff \<noteq> 0) (Some me) s
      else if f_type ff = FD_INODE \<or> f_type ff = FD_DEVICE then
        bindO (begin_op s) (\<lambda>s. bindO (iput me (f_ip ff) s) (end_op me))
      else Ok s)"

end
