(* ===== verification/Virtio.thy ===== *)
theory Virtio
  imports File
begin

text \<open>
  The disk driver (\<open>src/kernel/virtio_disk.c\<close>): the table of descriptors with its free map, the
  requests, the rings shared with the device and the completion interrupt. The device is an
  argument where the driver waits for it; its registers are a function of the writes made so far.
\<close>

section \<open>State\<close>

definition NUM :: nat where "NUM = 8"

definition VRING_DESC_F_NEXT :: "16 word" where "VRING_DESC_F_NEXT = 1"
definition VRING_DESC_F_WRITE :: "16 word" where "VRING_DESC_F_WRITE = 2"
definition VIRTIO_BLK_T_IN :: uint32 where "VIRTIO_BLK_T_IN = 0"
definition VIRTIO_BLK_T_OUT :: uint32 where "VIRTIO_BLK_T_OUT = 1"

text \<open>What a descriptor points to: a request header, the data of a buffer or a status byte.\<close>

datatype dma = NullAddr | ReqAddr nat | DataAddr nat | StatusAddr nat

record virtq_desc =
  d_addr :: dma
  d_len :: uint32
  d_flags :: "16 word"
  d_next :: "16 word"

record virtio_blk_req =
  r_type :: uint32
  r_reserved :: uint32
  r_sector :: uint64

record kvd = kfile +
  vd_desc :: "virtq_desc list"
  vd_avail_ring :: "16 word list"
  vd_avail_idx :: "16 word"
  vd_used_ring :: "uint32 list"
  vd_used_dev :: "16 word"
  vd_free :: "byte list"
  vd_used_idx :: "16 word"
  vd_info_b :: "nat option list"
  vd_status :: "byte list"
  vd_ops :: "virtio_blk_req list"
  vd_busy :: "nat \<Rightarrow> int"
  vd_regs :: "(uint32 \<times> uint32) list"
  vd_queues :: "addr \<times> addr \<times> addr"

section \<open>Descriptors\<close>

definition alloc_desc :: "'a kvd_scheme \<Rightarrow> nat option \<times> 'a kvd_scheme" where
  "alloc_desc s = (case find (\<lambda>i. vd_free s ! i \<noteq> 0) [0..<NUM] of
     None \<Rightarrow> (None, s) | Some i \<Rightarrow> (Some i, s\<lparr>vd_free := (vd_free s)[i := 0]\<rparr>))"

definition null_desc :: virtq_desc where
  "null_desc = \<lparr>d_addr = NullAddr, d_len = 0, d_flags = 0, d_next = 0\<rparr>"

definition free_desc :: "nat option \<Rightarrow> nat \<Rightarrow> 'a kvd_scheme \<Rightarrow> 'a kvd_scheme outcome" where
  "free_desc me i s =
     (if i \<ge> NUM then Panic ''free_desc 1''
      else if vd_free s ! i \<noteq> 0 then Panic ''free_desc 2''
      else Ok (wakeup DiskFreeChan me (s\<lparr>vd_desc := (vd_desc s)[i := null_desc], vd_free := (vd_free s)[i := 1]\<rparr>)))"

text \<open>
  The endless loop of \<open>free_chain\<close>. A chain that comes back to a freed descriptor panics there,
  so \<open>Suc NUM\<close> rounds are enough.
\<close>

fun free_chain_loop :: "nat \<Rightarrow> nat option \<Rightarrow> nat \<Rightarrow> 'a kvd_scheme \<Rightarrow> 'a kvd_scheme outcome" where
  "free_chain_loop 0 me i s = NoFuel"
| "free_chain_loop (Suc k) me i s =
     (let flag = d_flags (vd_desc s ! i); nxt = d_next (vd_desc s ! i) in
      bindO (free_desc me i s) (\<lambda>s.
      if flag AND VRING_DESC_F_NEXT \<noteq> 0 then free_chain_loop k me (unat nxt) s else Ok s))"

definition free_chain :: "nat option \<Rightarrow> nat \<Rightarrow> 'a kvd_scheme \<Rightarrow> 'a kvd_scheme outcome" where
  "free_chain me i s = free_chain_loop (Suc NUM) me i s"

definition alloc3_desc :: "nat option \<Rightarrow> 'a kvd_scheme \<Rightarrow> ((nat \<times> nat \<times> nat) option \<times> 'a kvd_scheme) outcome" where
  "alloc3_desc me s =
     (case alloc_desc s of (None, s) \<Rightarrow> Ok (None, s)
      | (Some i0, s) \<Rightarrow>
     (case alloc_desc s of (None, s) \<Rightarrow> bindO (free_desc me i0 s) (\<lambda>s. Ok (None, s))
      | (Some i1, s) \<Rightarrow>
     (case alloc_desc s of
        (None, s) \<Rightarrow> bindO (free_desc me i0 s) (\<lambda>s. bindO (free_desc me i1 s) (\<lambda>s. Ok (None, s)))
      | (Some i2, s) \<Rightarrow> Ok (Some (i0, i1, i2), s))))"

section \<open>Requests\<close>

definition set_desc :: "nat \<Rightarrow> virtq_desc \<Rightarrow> 'a kvd_scheme \<Rightarrow> 'a kvd_scheme" where
  "set_desc i d s = s\<lparr>vd_desc := (vd_desc s)[i := d]\<rparr>"

text \<open>\<open>virtio_disk_rw\<close> up to the wait: \<open>None\<close> when it must sleep for descriptors.\<close>

definition virtio_submit ::
  "nat \<Rightarrow> nat \<Rightarrow> uint32 \<Rightarrow> bool \<Rightarrow> 'a kvd_scheme \<Rightarrow> (nat option \<times> 'a kvd_scheme) outcome" where
  "virtio_submit me b blockno write s =
     (let sector = (ucast (blockno * of_nat (BSIZE div 512)) :: uint64) in
      bindO (alloc3_desc (Some me) s) (\<lambda>(r, s).
      case r of None \<Rightarrow> Ok (None, s)
      | Some (i0, i1, i2) \<Rightarrow>
          let s = s\<lparr>vd_ops := (vd_ops s)[i0 := \<lparr>r_type = (if write then VIRTIO_BLK_T_OUT else VIRTIO_BLK_T_IN),
                      r_reserved = 0, r_sector = sector\<rparr>]\<rparr>;
              s = set_desc i0 \<lparr>d_addr = ReqAddr i0, d_len = 16, d_flags = VRING_DESC_F_NEXT, d_next = of_nat i1\<rparr> s;
              s = set_desc i1 \<lparr>d_addr = DataAddr b, d_len = of_nat BSIZE,
                      d_flags = (if write then 0 else VRING_DESC_F_WRITE) OR VRING_DESC_F_NEXT, d_next = of_nat i2\<rparr> s;
              s = s\<lparr>vd_status := (vd_status s)[i0 := 0xff]\<rparr>;
              s = set_desc i2 \<lparr>d_addr = StatusAddr i0, d_len = 1, d_flags = VRING_DESC_F_WRITE, d_next = 0\<rparr> s;
              s = s\<lparr>vd_busy := (vd_busy s)(b := 1), vd_info_b := (vd_info_b s)[i0 := Some b]\<rparr>;
              s = s\<lparr>vd_avail_ring := (vd_avail_ring s)[unat (vd_avail_idx s) mod NUM := of_nat i0]\<rparr>;
              s = s\<lparr>vd_avail_idx := vd_avail_idx s + 1\<rparr>;
              s = s\<lparr>vd_regs := vd_regs s @ [(0x050, 0)]\<rparr>
          in Ok (Some i0, s)))"

text \<open>The end of \<open>virtio_disk_rw\<close>, once \<open>b->disk\<close> is 0.\<close>

definition virtio_finish :: "nat \<Rightarrow> nat \<Rightarrow> 'a kvd_scheme \<Rightarrow> 'a kvd_scheme outcome" where
  "virtio_finish me i0 s = free_chain (Some me) i0 (s\<lparr>vd_info_b := (vd_info_b s)[i0 := None]\<rparr>)"

text \<open>With the device, and the interrupts it raises, as the function \<open>dev\<close>.\<close>

definition virtio_rw ::
  "('a kvd_scheme \<Rightarrow> 'a kvd_scheme outcome) \<Rightarrow> nat \<Rightarrow> nat \<Rightarrow> uint32 \<Rightarrow> bool \<Rightarrow> 'a kvd_scheme \<Rightarrow> 'a kvd_scheme outcome" where
  "virtio_rw dev me b blockno write s =
     bindO (virtio_submit me b blockno write s) (\<lambda>(r, s).
     case r of None \<Rightarrow> Sleeps
     | Some i0 \<Rightarrow>
         bindO (dev s) (\<lambda>s.
         if vd_busy s b = 1 then Sleeps else virtio_finish me i0 s))"

text \<open>The loop of the interrupt handler over the entries that the device has added.\<close>

function virtio_intr_loop :: "nat option \<Rightarrow> 'a kvd_scheme \<Rightarrow> 'a kvd_scheme outcome" where
  "virtio_intr_loop me s =
     (if vd_used_idx s \<noteq> vd_used_dev s then
        let id = unat (vd_used_ring s ! (unat (vd_used_idx s) mod NUM)) in
        if id \<ge> NUM then Undef
        else if vd_status s ! id \<noteq> 0 then Panic ''virtio_disk_intr status''
        else case vd_info_b s ! id of None \<Rightarrow> Undef
        | Some b \<Rightarrow>
            virtio_intr_loop me ((wakeup (BufChan b) me (s\<lparr>vd_busy := (vd_busy s)(b := 0)\<rparr>))
              \<lparr>vd_used_idx := vd_used_idx s + 1\<rparr>)
      else Ok s)"
  by pat_completeness auto
termination
proof (relation "measure (\<lambda>(me, s). unat (vd_used_dev s - vd_used_idx s))", goal_cases)
  case (2 me s)
  then have "vd_used_dev s - vd_used_idx s \<noteq> 0" by simp
  then have "unat (vd_used_dev s - vd_used_idx s - 1) < unat (vd_used_dev s - vd_used_idx s)"
    by (rule measure_unat)
  then show ?case by (simp add: wakeup_def diff_diff_eq)
qed simp

declare virtio_intr_loop.simps [simp del]

definition virtio_disk_intr :: "(uint32 \<Rightarrow> uint32) \<Rightarrow> nat option \<Rightarrow> 'a kvd_scheme \<Rightarrow> 'a kvd_scheme outcome" where
  "virtio_disk_intr rd me s = virtio_intr_loop me (s\<lparr>vd_regs := vd_regs s @ [(0x064, rd 0x060 AND 3)]\<rparr>)"

section \<open>Initialisation\<close>

definition wr :: "uint32 \<Rightarrow> uint32 \<Rightarrow> 'a kvd_scheme \<Rightarrow> 'a kvd_scheme" where
  "wr r v s = s\<lparr>vd_regs := vd_regs s @ [(r, v)]\<rparr>"

definition clear_bit :: "nat \<Rightarrow> uint64 \<Rightarrow> uint64" where
  "clear_bit k x = x AND NOT (push_bit k 1)"

text \<open>The features that the driver accepts: read-only, SCSI and so on are turned off.\<close>

definition accept_features :: "uint64 \<Rightarrow> uint64" where
  "accept_features f = clear_bit 28 (clear_bit 29 (clear_bit 27 (clear_bit 12 (clear_bit 11 (clear_bit 7 (clear_bit 5 f))))))"

text \<open>The memory of the queue and the registers that announce it.\<close>

definition virtio_queue_init :: "uint32 \<Rightarrow> 'a kvd_scheme \<Rightarrow> 'a kvd_scheme outcome" where
  "virtio_queue_init status s =
     (let (desc, s) = kalloc s; (avail, s) = kalloc s; (used, s) = kalloc s in
      if desc = 0 \<or> avail = 0 \<or> used = 0 then Panic ''virtio disk kalloc''
      else let s = s\<lparr>mem := memset (memset (memset (mem s) desc 0 4096) avail 0 4096) used 0 4096\<rparr>;
               s = s\<lparr>vd_queues := (desc, avail, used), vd_desc := replicate NUM null_desc,
                     vd_avail_ring := replicate NUM 0, vd_avail_idx := 0, vd_used_ring := replicate NUM 0, vd_used_dev := 0\<rparr>;
               s = wr 0x038 (of_nat NUM) s;
               s = wr 0x080 (ucast desc) s; s = wr 0x084 (ucast (drop_bit 32 desc)) s;
               s = wr 0x090 (ucast avail) s; s = wr 0x094 (ucast (drop_bit 32 avail)) s;
               s = wr 0x0a0 (ucast used) s; s = wr 0x0a4 (ucast (drop_bit 32 used)) s;
               s = wr 0x044 1 s;
               s = s\<lparr>vd_free := replicate NUM 1\<rparr>
           in Ok (wr 0x070 (status OR 4) s))"

definition virtio_disk_init ::
  "((uint32 \<times> uint32) list \<Rightarrow> uint32 \<Rightarrow> uint32) \<Rightarrow> 'a kvd_scheme \<Rightarrow> 'a kvd_scheme outcome" where
  "virtio_disk_init rd s =
     (if rd (vd_regs s) 0x000 \<noteq> 0x74726976 \<or> rd (vd_regs s) 0x004 \<noteq> 2 \<or> rd (vd_regs s) 0x008 \<noteq> 2 \<or>
         rd (vd_regs s) 0x00c \<noteq> 0x554d4551 then Panic ''could not find virtio disk''
      else let s = wr 0x070 0 s; s = wr 0x070 1 s; s = wr 0x070 (1 OR 2) s;
               features = ucast (rd (vd_regs s) 0x010);
               s = wr 0x020 (ucast (accept_features features)) s;
               s = wr 0x070 (1 OR 2 OR 8) s;
               status = rd (vd_regs s) 0x070 in
      if status AND 8 = 0 then Panic ''virtio disk FEATURES_OK unset''
      else let s = wr 0x030 0 s in
      if rd (vd_regs s) 0x044 \<noteq> 0 then Panic ''virtio disk should not be ready''
      else if rd (vd_regs s) 0x034 = 0 then Panic ''virtio disk has no queue 0''
      else if rd (vd_regs s) 0x034 < of_nat NUM then Panic ''virtio disk max queue too short''
      else virtio_queue_init status s)"

end
