(* ===== verification/Mmap.thy ===== *)
theory Mmap
  imports File
begin

text \<open>
  Memory-mapped areas (\<open>src/kernel/mmap.c\<close>): the table \<open>mmap_areas\<close>, mapping with and without
  \<open>MAP_POPULATE\<close>, the lazy page-fault handler, unmapping, and the copy of a process's areas by
  \<open>fork\<close>, which shares the physical pages through the reference counts of the page allocator.
  The table \<open>mmap_areas\<close> is used under \<open>mmap_lock\<close>; each locked section is one step here.
\<close>

section \<open>Protection and lookup\<close>

definition PROT_READ :: int where "PROT_READ = 1"
definition PROT_WRITE :: int where "PROT_WRITE = 2"
definition MAP_ANONYMOUS :: int where "MAP_ANONYMOUS = 1"
definition MAP_POPULATE :: int where "MAP_POPULATE = 2"

definition mmap_perm :: "int \<Rightarrow> uint64" where
  "mmap_perm prot =
     (let perm = PTE_U;
          perm = (if prot AND PROT_READ \<noteq> 0 then perm OR PTE_R else perm)
      in if prot AND PROT_WRITE \<noteq> 0 then perm OR PTE_W else perm)"

definition ma_end :: "mmap_area \<Rightarrow> uint64" where
  "ma_end ma = ma_addr ma + of_int (ma_length ma)"

definition find_area_by_addr :: "nat \<Rightarrow> uint64 \<Rightarrow> 'a kfile_scheme \<Rightarrow> nat option" where
  "find_area_by_addr p addr s =
     find (\<lambda>i. ma_p (mmap_areas s ! i) = Some p \<and> ma_addr (mmap_areas s ! i) = addr) [0..<NMMAP]"

definition find_area_containing :: "nat \<Rightarrow> uint64 \<Rightarrow> 'a kfile_scheme \<Rightarrow> nat option" where
  "find_area_containing p va s =
     find (\<lambda>i. let ma = mmap_areas s ! i in ma_p ma = Some p \<and> ma_addr ma \<le> va \<and> va < ma_end ma) [0..<NMMAP]"

definition no_area :: mmap_area where
  "no_area = \<lparr>ma_f = None, ma_addr = 0, ma_length = 0, ma_offset = 0, ma_prot = 0, ma_flags = 0, ma_p = None\<rparr>"

definition set_area :: "nat \<Rightarrow> mmap_area \<Rightarrow> 'a kfile_scheme \<Rightarrow> 'a kfile_scheme" where
  "set_area i ma s = s\<lparr>mmap_areas := (mmap_areas s)[i := ma]\<rparr>"

section \<open>Pages of an area\<close>

definition mmap_read_file_page ::
  "nat \<Rightarrow> mmap_area \<Rightarrow> addr \<Rightarrow> uint64 \<Rightarrow> 'a kfile_scheme \<Rightarrow> (int \<times> 'a kfile_scheme) outcome" where
  "mmap_read_file_page me ma pg va s =
     (case ma_f ma of None \<Rightarrow> Ok (-1, s)
      | Some f \<Rightarrow>
          if f_type (ftable s ! f) \<noteq> FD_INODE then Ok (-1, s)
          else let file_offset = of_int (ma_offset ma) + (ucast (va - ma_addr ma) :: uint32);
                   ip = f_ip (ftable s ! f) in
          bindO (ilock me (Some ip) s) (\<lambda>s.
          bindO (readi to_kernel me ip pg file_offset 4096 () s) (\<lambda>(n, _, s).
          bindO (iunlock me (Some ip) s) (\<lambda>s.
          Ok (if n < 0 then -1 else 0, s)))))"

definition mmap_alloc_page ::
  "nat \<Rightarrow> mmap_area \<Rightarrow> uint64 \<Rightarrow> 'a kfile_scheme \<Rightarrow> (int \<times> 'a kfile_scheme) outcome" where
  "mmap_alloc_page me ma va s =
     (case ma_p ma of None \<Rightarrow> Undef
      | Some p \<Rightarrow>
          let pagetable = p_pagetable (procs s ! p); va = PGROUNDDOWN va in
          bindO (walk pagetable va False s) (\<lambda>(pte, s).
          if pte \<noteq> 0 \<and> load64 (mem s) pte AND PTE_V \<noteq> 0 then Ok (1, s)
          else let (pg, s) = kalloc s in
          if pg = 0 then Ok (-1, s)
          else let s = s\<lparr>mem := memset (mem s) pg 0 4096\<rparr> in
          bindO (if ma_flags ma AND MAP_ANONYMOUS = 0 then mmap_read_file_page me ma pg va s else Ok (0, s)) (\<lambda>(r, s).
          if r < 0 then bindO (kfree pg s) (\<lambda>s. Ok (-1, s))
          else bindO (mappages pagetable va PGSIZE pg (mmap_perm (ma_prot ma)) s) (\<lambda>(r, s).
          if r < 0 then bindO (kfree pg s) (\<lambda>s. Ok (-1, s))
          else Ok (1, s)))))"

lemma mmap_alloc_page_below: "mmap_alloc_page me ma va s = Ok r \<Longrightarrow> unat va < 274877910784"
proof -
  assume "mmap_alloc_page me ma va s = Ok r"
  then have "unat va div 4096 * 4096 < 274877906944"
    by (auto simp: mmap_alloc_page_def outcome_iff Let_def unat_PGROUNDDOWN split: option.splits
        dest!: walk_Ok_below)
  then have "unat va div 4096 < 67108864" by simp
  then show ?thesis using mod_less_divisor [of 4096 "unat va"] div_mult_mod_eq [of "unat va" 4096] by linarith
qed

section \<open>Unmapping\<close>

function munmap_loop :: "addr \<Rightarrow> uint64 \<Rightarrow> uint64 \<Rightarrow> 'a kmem_scheme \<Rightarrow> 'a kmem_scheme outcome" where
  "munmap_loop pagetable va end_va s =
     (if va < end_va then
        bindO (walk pagetable va False s) (\<lambda>(pte, s).
          if pte = 0 then munmap_loop pagetable (va + PGSIZE) end_va s
          else if load64 (mem s) pte AND PTE_V = 0 then munmap_loop pagetable (va + PGSIZE) end_va s
          else let pa = PTE2PA (load64 (mem s) pte) in
            bindO (kfree pa s) (\<lambda>s.
              munmap_loop pagetable (va + PGSIZE) end_va (s\<lparr>mem := store64 (mem s) pte 0\<rparr>)))
      else Ok s)"
  by pat_completeness auto
termination
  by (relation "measure (\<lambda>(pagetable, va, end_va, s). 274877906944 - unat va)")
    (auto simp: unat_add_64 dest!: walk_Ok_below)

declare munmap_loop.simps [simp del]

definition do_munmap :: "nat \<Rightarrow> nat \<Rightarrow> uint64 \<Rightarrow> 'a kfile_scheme \<Rightarrow> (int \<times> 'a kfile_scheme) outcome" where
  "do_munmap me p addr s =
     (if addr mod PGSIZE \<noteq> 0 then Ok (-1, s)
      else case find_area_by_addr p addr s of
        None \<Rightarrow> Ok (-1, s)
      | Some i \<Rightarrow>
          let local = mmap_areas s ! i; s = set_area i no_area s in
          bindO (munmap_loop (p_pagetable (procs s ! p)) (ma_addr local) (ma_end local) s) (\<lambda>s.
          bindO (case ma_f local of None \<Rightarrow> Ok s | Some f \<Rightarrow> fileclose me f s) (\<lambda>s.
          Ok (1, s))))"

definition kmunmap :: "nat \<Rightarrow> uint64 \<Rightarrow> 'a kfile_scheme \<Rightarrow> (int \<times> 'a kfile_scheme) outcome" where
  "kmunmap me addr s = do_munmap me me addr s"

text \<open>
  The endless loop of \<open>mmap_cleanup\<close>, with fuel. Each round clears one entry of the table when
  the areas are page-aligned, so \<open>Suc NMMAP\<close> rounds are enough; an unaligned area would make the
  code loop forever.
\<close>

fun mmap_cleanup_loop :: "nat \<Rightarrow> nat \<Rightarrow> nat \<Rightarrow> 'a kfile_scheme \<Rightarrow> 'a kfile_scheme outcome" where
  "mmap_cleanup_loop 0 me p s = NoFuel"
| "mmap_cleanup_loop (Suc fuel) me p s =
     (let addr = (case find (\<lambda>i. ma_p (mmap_areas s ! i) = Some p) [0..<NMMAP] of
                    None \<Rightarrow> 0 | Some i \<Rightarrow> ma_addr (mmap_areas s ! i))
      in if addr = 0 then Ok s
         else bindO (do_munmap me p addr s) (\<lambda>(_, s). mmap_cleanup_loop fuel me p s))"

definition mmap_cleanup :: "nat \<Rightarrow> nat \<Rightarrow> 'a kfile_scheme \<Rightarrow> 'a kfile_scheme outcome" where
  "mmap_cleanup me p s = mmap_cleanup_loop (Suc NMMAP) me p s"

section \<open>Mapping\<close>

text \<open>The loop for \<open>MAP_POPULATE\<close>: false when a page could not be allocated.\<close>

function mmap_populate :: "nat \<Rightarrow> nat \<Rightarrow> uint64 \<Rightarrow> uint64 \<Rightarrow> 'a kfile_scheme \<Rightarrow> (bool \<times> 'a kfile_scheme) outcome" where
  "mmap_populate me i va end_va s =
     (if va < end_va then
        bindO (mmap_alloc_page me (mmap_areas s ! i) va s) (\<lambda>(r, s).
          if r < 0 then Ok (False, s) else mmap_populate me i (va + PGSIZE) end_va s)
      else Ok (True, s))"
  by pat_completeness auto
termination
  by (relation "measure (\<lambda>(me, i, va, end_va, s). 274877910784 - unat va)")
    (auto simp: unat_add_64 dest!: mmap_alloc_page_below)

declare mmap_populate.simps [simp del]

text \<open>The checks of the arguments, with the file to map.\<close>

definition kmmap_file :: "nat \<Rightarrow> int \<Rightarrow> int \<Rightarrow> int \<Rightarrow> int \<Rightarrow> 'a kfile_scheme \<Rightarrow> nat option option" where
  "kmmap_file me prot flags fd offset s =
     (if flags AND MAP_ANONYMOUS \<noteq> 0 then
        if fd \<noteq> -1 \<or> offset \<noteq> 0 then None else Some None
      else if fd < 0 \<or> fd \<ge> int NOFILE then None
      else case p_ofile (procs s ! me) ! nat fd of
        None \<Rightarrow> None
      | Some f \<Rightarrow>
          if f_type (ftable s ! f) \<noteq> FD_INODE then None
          else if prot AND PROT_READ \<noteq> 0 \<and> f_readable (ftable s ! f) = 0 then None
          else if prot AND PROT_WRITE \<noteq> 0 \<and> f_writable (ftable s ! f) = 0 then None
          else Some (Some f))"

definition kmmap ::
  "nat \<Rightarrow> uint64 \<Rightarrow> int \<Rightarrow> int \<Rightarrow> int \<Rightarrow> int \<Rightarrow> int \<Rightarrow> 'a kfile_scheme \<Rightarrow> (uint64 \<times> 'a kfile_scheme) outcome" where
  "kmmap me addr len prot flags fd offset s =
     (if addr mod PGSIZE \<noteq> 0 then Ok (0, s)
      else if len \<le> 0 \<or> len mod 4096 \<noteq> 0 then Ok (0, s)
      else if prot \<noteq> PROT_READ \<and> prot \<noteq> (PROT_READ OR PROT_WRITE) then Ok (0, s)
      else if flags AND NOT (MAP_ANONYMOUS OR MAP_POPULATE) \<noteq> 0 then Ok (0, s)
      else let start = MMAPBASE + addr in
      case kmmap_file me prot flags fd offset s of
        None \<Rightarrow> Ok (0, s)
      | Some f \<Rightarrow>
          (case find (\<lambda>i. ma_p (mmap_areas s ! i) = None) [0..<NMMAP] of
             None \<Rightarrow> Ok (0, s)
           | Some i \<Rightarrow>
               bindO (case f of None \<Rightarrow> Ok s | Some f \<Rightarrow> filedup f s) (\<lambda>s.
               let s = set_area i \<lparr>ma_f = f, ma_addr = start, ma_length = len, ma_offset = offset,
                         ma_prot = prot, ma_flags = flags, ma_p = Some me\<rparr> s in
               if flags AND MAP_POPULATE \<noteq> 0 then
                 bindO (mmap_populate me i start (start + of_int len) s) (\<lambda>(ok, s).
                 if ok then Ok (start, s)
                 else bindO (do_munmap me me start s) (\<lambda>(_, s). Ok (0, s)))
               else Ok (start, s))))"

definition mmap_handle_pagefault :: "nat \<Rightarrow> uint64 \<Rightarrow> bool \<Rightarrow> 'a kfile_scheme \<Rightarrow> (int \<times> 'a kfile_scheme) outcome" where
  "mmap_handle_pagefault me faultva write_fault s =
     (let va = PGROUNDDOWN faultva in
      case find_area_containing me va s of
        None \<Rightarrow> Ok (-1, s)
      | Some i \<Rightarrow>
          let local = mmap_areas s ! i in
          if write_fault \<and> ma_prot local AND PROT_WRITE = 0 then Ok (-1, s)
          else mmap_alloc_page me local va s)"

section \<open>Copying the areas of a process\<close>

text \<open>
  The first loop of \<open>mmap_fork\<close>, with \<open>k\<close> entries left and the areas registered so far; \<open>None\<close>
  when the table is full.
\<close>

fun mmap_fork_register ::
  "nat \<Rightarrow> nat \<Rightarrow> nat \<Rightarrow> mmap_area list \<Rightarrow> 'a kfile_scheme \<Rightarrow> (mmap_area list option \<times> 'a kfile_scheme) outcome" where
  "mmap_fork_register 0 parent child lst s = Ok (Some lst, s)"
| "mmap_fork_register (Suc k) parent child lst s =
     (let ma = mmap_areas s ! (NMMAP - Suc k) in
      if ma_p ma = Some parent then
        if length lst \<ge> NMMAP then Ok (None, s)
        else case find (\<lambda>j. ma_p (mmap_areas s ! j) = None) [0..<NMMAP] of
          None \<Rightarrow> Ok (None, s)
        | Some j \<Rightarrow>
            let dst = ma\<lparr>ma_p := Some child\<rparr>; s = set_area j dst s in
            bindO (case ma_f dst of None \<Rightarrow> Ok s | Some f \<Rightarrow> filedup f s)
              (mmap_fork_register k parent child (lst @ [dst]))
      else mmap_fork_register k parent child lst s)"

text \<open>The pages of one area: false when a page of the table could not be allocated.\<close>

function mmap_fork_pages ::
  "addr \<Rightarrow> addr \<Rightarrow> uint64 \<Rightarrow> uint64 \<Rightarrow> 'a kmem_scheme \<Rightarrow> (bool \<times> 'a kmem_scheme) outcome" where
  "mmap_fork_pages parent child va end_va s =
     (if va < end_va then
        bindO (walk parent va False s) (\<lambda>(pte, s).
          if pte = 0 then mmap_fork_pages parent child (va + PGSIZE) end_va s
          else if load64 (mem s) pte AND PTE_V = 0 then mmap_fork_pages parent child (va + PGSIZE) end_va s
          else let pa = PTE2PA (load64 (mem s) pte); flags = PTE_FLAGS (load64 (mem s) pte) in
            bindO (kaddref pa s) (\<lambda>s.
            bindO (mappages child va PGSIZE pa flags s) (\<lambda>(r, s).
            if r < 0 then bindO (kfree pa s) (\<lambda>s. Ok (False, s))
            else mmap_fork_pages parent child (va + PGSIZE) end_va s)))
      else Ok (True, s))"
  by pat_completeness auto
termination
  by (relation "measure (\<lambda>(parent, child, va, end_va, s). 274877906944 - unat va)")
    (auto simp: unat_add_64 dest!: walk_Ok_below)

declare mmap_fork_pages.simps [simp del]

fun mmap_fork_areas ::
  "addr \<Rightarrow> addr \<Rightarrow> mmap_area list \<Rightarrow> 'a kmem_scheme \<Rightarrow> (bool \<times> 'a kmem_scheme) outcome" where
  "mmap_fork_areas parent child [] s = Ok (True, s)"
| "mmap_fork_areas parent child (ma # lst) s =
     bindO (mmap_fork_pages parent child (ma_addr ma) (ma_end ma) s) (\<lambda>(ok, s).
       if ok then mmap_fork_areas parent child lst s else Ok (False, s))"

definition mmap_fork :: "nat \<Rightarrow> nat \<Rightarrow> nat \<Rightarrow> 'a kfile_scheme \<Rightarrow> (int \<times> 'a kfile_scheme) outcome" where
  "mmap_fork me parent child s =
     bindO (mmap_fork_register NMMAP parent child [] s) (\<lambda>(lst, s).
       case lst of None \<Rightarrow> bindO (mmap_cleanup me child s) (\<lambda>s. Ok (-1, s))
       | Some lst \<Rightarrow>
           bindO (mmap_fork_areas (p_pagetable (procs s ! parent)) (p_pagetable (procs s ! child)) lst s) (\<lambda>(ok, s).
           if ok then Ok (0, s) else bindO (mmap_cleanup me child s) (\<lambda>s. Ok (-1, s))))"

end
