(* ===== verification/Copy.thy ===== *)
theory Copy
  imports Mmap
begin

text \<open>
  Copying between the kernel and user memory: \<open>vmfault\<close>, \<open>copyout\<close>, \<open>copyin\<close> and \<open>copyinstr\<close>
  of \<open>src/kernel/vm.c\<close>, \<open>either_copyout\<close> and \<open>either_copyin\<close> of \<open>src/kernel/proc.c\<close>, and the
  argument fetching of \<open>src/kernel/syscall.c\<close>. The kernel side of a copy is an object of the
  kernel outside the modelled pages, so it is a list of bytes: the bytes to write, or the bytes
  read so far. Every step may fault in a page, lazily grown or memory-mapped.
\<close>

section \<open>Page faults\<close>

definition vmfault :: "nat \<Rightarrow> addr \<Rightarrow> uint64 \<Rightarrow> 'a kproc_scheme \<Rightarrow> (uint64 \<times> 'a kproc_scheme) outcome" where
  "vmfault me pagetable va s =
     (let p = procs s ! me in
      if va \<ge> p_sz p then Ok (0, s)
      else let va = PGROUNDDOWN va in
      bindO (ismapped pagetable va s) (\<lambda>mapped.
      if mapped then Ok (0, s)
      else let (pg, s) = kalloc s in
      if pg = 0 then Ok (0, s)
      else let s = s\<lparr>mem := memset (mem s) pg 0 4096\<rparr> in
      bindO (mappages (p_pagetable p) va PGSIZE pg (PTE_W OR PTE_U OR PTE_R) s) (\<lambda>(r, s).
      if r \<noteq> 0 then bindO (kfree pg s) (\<lambda>s. Ok (0, s)) else Ok (pg, s))))"

text \<open>The lookup that \<open>copyout\<close>, \<open>copyin\<close> and \<open>copyinstr\<close> share: a mapped page, else a memory-mapped one.\<close>

definition mapped_or_mmap ::
  "nat \<Rightarrow> addr \<Rightarrow> uint64 \<Rightarrow> bool \<Rightarrow> 'a kfile_scheme \<Rightarrow> (uint64 \<times> 'a kfile_scheme) outcome" where
  "mapped_or_mmap me pagetable va0 write_fault s =
     bindO (walkaddr pagetable va0 s) (\<lambda>pa0.
     if pa0 \<noteq> 0 then Ok (pa0, s)
     else bindO (mmap_handle_pagefault me va0 write_fault s) (\<lambda>(r, s).
     if r = 1 then bindO (walkaddr pagetable va0 s) (\<lambda>pa0. Ok (pa0, s)) else Ok (0, s)))"

text \<open>The same followed by \<open>vmfault\<close>.\<close>

definition user_page ::
  "nat \<Rightarrow> addr \<Rightarrow> uint64 \<Rightarrow> bool \<Rightarrow> 'a kfile_scheme \<Rightarrow> (uint64 \<times> 'a kfile_scheme) outcome" where
  "user_page me pagetable va0 write_fault s =
     bindO (mapped_or_mmap me pagetable va0 write_fault s) (\<lambda>(pa0, s).
     if pa0 \<noteq> 0 then Ok (pa0, s) else vmfault me pagetable va0 s)"

section \<open>Copying\<close>

lemma unat_page_offset: "unat (a - PGROUNDDOWN a) = unat a mod 4096"
  using PGROUNDDOWN_le [of a] by (simp add: unat_sub unat_PGROUNDDOWN minus_div_mult_eq_mod)

lemma page_rest_pos: "unat (a - PGROUNDDOWN a) < 4096"
  by (simp add: unat_page_offset)

definition page_rest :: "uint64 \<Rightarrow> nat" where
  "page_rest va = 4096 - unat (va - PGROUNDDOWN va)"

lemma page_rest_gt0 [simp]: "0 < page_rest va"
  using page_rest_pos [of va] by (simp add: page_rest_def)

function copyout ::
  "nat \<Rightarrow> addr \<Rightarrow> uint64 \<Rightarrow> byte list \<Rightarrow> 'a kfile_scheme \<Rightarrow> (int \<times> 'a kfile_scheme) outcome" where
  "copyout me pagetable dstva src s =
     (if src \<noteq> [] then
        let va0 = PGROUNDDOWN dstva in
        if va0 \<ge> MAXVA then Ok (-1, s)
        else bindO (user_page me pagetable va0 True s) (\<lambda>(pa0, s).
        if pa0 = 0 then Ok (-1, s)
        else bindO (walk pagetable va0 False s) (\<lambda>(pte, s).
        if pte = 0 then Undef
        else if load64 (mem s) pte AND PTE_W = 0 then Ok (-1, s)
        else let n = min (page_rest dstva) (length src);
                 s = s\<lparr>mem := store_bytes (mem s) (pa0 + (dstva - va0)) (take n src)\<rparr>
             in copyout me pagetable (va0 + PGSIZE) (drop n src) s))
      else Ok (0, s))"
  by pat_completeness auto
termination
  by (relation "measure (\<lambda>(me, pagetable, dstva, src, s). length src)") auto

declare copyout.simps [simp del]

text \<open>\<open>copyin\<close> returns the bytes stored at \<open>dst\<close>, also when it fails half way.\<close>

function copyin ::
  "nat \<Rightarrow> addr \<Rightarrow> uint64 \<Rightarrow> nat \<Rightarrow> byte list \<Rightarrow> 'a kfile_scheme \<Rightarrow> (int \<times> byte list \<times> 'a kfile_scheme) outcome" where
  "copyin me pagetable srcva len dst s =
     (if len > 0 then
        let va0 = PGROUNDDOWN srcva in
        bindO (user_page me pagetable va0 False s) (\<lambda>(pa0, s).
        if pa0 = 0 then Ok (-1, dst, s)
        else let n = min (page_rest srcva) len in
          copyin me pagetable (va0 + PGSIZE) (len - n)
            (dst @ load_bytes (mem s) (pa0 + (srcva - va0)) n) s)
      else Ok (0, dst, s))"
  by pat_completeness auto
termination
  by (relation "measure (\<lambda>(me, pagetable, srcva, len, dst, s). len)") auto

declare copyin.simps [simp del]

text \<open>The inner loop of \<open>copyinstr\<close> over at most \<open>n\<close> bytes of a page, with \<open>got_null\<close>.\<close>

fun copyinstr_page :: "memory \<Rightarrow> addr \<Rightarrow> nat \<Rightarrow> byte list \<Rightarrow> bool \<times> byte list" where
  "copyinstr_page m p 0 dst = (False, dst)"
| "copyinstr_page m p (Suc n) dst =
     (if m p = 0 then (True, dst) else copyinstr_page m (p + 1) n (dst @ [m p]))"

text \<open>\<open>copyinstr\<close> with the bytes copied before the null.\<close>

function copyinstr ::
  "nat \<Rightarrow> addr \<Rightarrow> uint64 \<Rightarrow> nat \<Rightarrow> byte list \<Rightarrow> 'a kfile_scheme \<Rightarrow> (int \<times> byte list \<times> 'a kfile_scheme) outcome" where
  "copyinstr me pagetable srcva max_len dst s =
     (if max_len > 0 then
        let va0 = PGROUNDDOWN srcva in
        bindO (mapped_or_mmap me pagetable va0 False s) (\<lambda>(pa0, s).
        if pa0 = 0 then Ok (-1, dst, s)
        else let n = min (page_rest srcva) max_len;
                 (got_null, dst) = copyinstr_page (mem s) (pa0 + (srcva - va0)) n dst
             in if got_null then Ok (0, dst, s)
                else copyinstr me pagetable (va0 + PGSIZE) (max_len - n) dst s)
      else Ok (-1, dst, s))"
  by pat_completeness auto
termination
  by (relation "measure (\<lambda>(me, pagetable, srcva, max_len, dst, s). max_len)") auto

declare copyinstr.simps [simp del]

section \<open>User or kernel addresses\<close>

text \<open>\<open>memmove\<close> to a physical address for a kernel destination.\<close>

definition either_copyout ::
  "nat \<Rightarrow> bool \<Rightarrow> uint64 \<Rightarrow> byte list \<Rightarrow> 'a kfile_scheme \<Rightarrow> (int \<times> 'a kfile_scheme) outcome" where
  "either_copyout me user_dst dst src s =
     (if user_dst then copyout me (p_pagetable (procs s ! me)) dst src s
      else Ok (0, s\<lparr>mem := store_bytes (mem s) dst src\<rparr>))"

definition either_copyin ::
  "nat \<Rightarrow> bool \<Rightarrow> uint64 \<Rightarrow> nat \<Rightarrow> 'a kfile_scheme \<Rightarrow> (int \<times> byte list \<times> 'a kfile_scheme) outcome" where
  "either_copyin me user_src src len s =
     (if user_src then copyin me (p_pagetable (procs s ! me)) src len [] s
      else Ok (0, load_bytes (mem s) src len, s))"

text \<open>The forms that \<open>readi\<close> and \<open>writei\<close> take.\<close>

definition to_user :: "nat \<Rightarrow> uint64 \<Rightarrow> byte list \<Rightarrow> unit \<Rightarrow> 'a kfile_scheme \<Rightarrow> (int \<times> unit \<times> 'a kfile_scheme) outcome" where
  "to_user me dst bs acc s = bindO (either_copyout me True dst bs s) (\<lambda>(r, s). Ok (r, (), s))"

definition from_user :: "nat \<Rightarrow> uint64 \<Rightarrow> nat \<Rightarrow> 'a kfile_scheme \<Rightarrow> (int \<times> byte list \<times> 'a kfile_scheme) outcome" where
  "from_user me src m s = either_copyin me True src m s"

section \<open>System call arguments\<close>

text \<open>Offsets in \<open>struct trapframe\<close>.\<close>

definition TF_epc :: uint64 where "TF_epc = 24"
definition TF_sp :: uint64 where "TF_sp = 48"
definition TF_a :: "nat \<Rightarrow> uint64" where "TF_a n = 112 + 8 * of_nat n"

definition tf_get :: "nat \<Rightarrow> uint64 \<Rightarrow> 'a kproc_scheme \<Rightarrow> uint64" where
  "tf_get p off s = load64 (mem s) (p_trapframe (procs s ! p) + off)"

definition tf_set :: "nat \<Rightarrow> uint64 \<Rightarrow> uint64 \<Rightarrow> 'a kproc_scheme \<Rightarrow> 'a kproc_scheme" where
  "tf_set p off v s = s\<lparr>mem := store64 (mem s) (p_trapframe (procs s ! p) + off) v\<rparr>"

definition argraw :: "nat \<Rightarrow> nat \<Rightarrow> 'a kproc_scheme \<Rightarrow> uint64 outcome" where
  "argraw me n s = (if n \<le> 5 then Ok (tf_get me (TF_a n) s) else Panic ''argraw'')"

definition argint :: "nat \<Rightarrow> nat \<Rightarrow> 'a kproc_scheme \<Rightarrow> int outcome" where
  "argint me n s = bindO (argraw me n s) (\<lambda>a. Ok (sint (ucast a :: uint32)))"

definition argaddr :: "nat \<Rightarrow> nat \<Rightarrow> 'a kproc_scheme \<Rightarrow> uint64 outcome" where
  "argaddr me n s = argraw me n s"

definition fetchaddr :: "nat \<Rightarrow> uint64 \<Rightarrow> 'a kfile_scheme \<Rightarrow> (uint64 option \<times> 'a kfile_scheme) outcome" where
  "fetchaddr me addr s =
     (let p = procs s ! me in
      if addr \<ge> p_sz p \<or> addr + 8 > p_sz p then Ok (None, s)
      else bindO (copyin me (p_pagetable p) addr 8 [] s) (\<lambda>(r, bs, s).
        Ok (if r \<noteq> 0 then None else Some (le_word bs), s)))"

text \<open>\<open>fetchstr\<close> with the string itself in place of its length.\<close>

definition fetchstr :: "nat \<Rightarrow> uint64 \<Rightarrow> nat \<Rightarrow> 'a kfile_scheme \<Rightarrow> (byte list option \<times> 'a kfile_scheme) outcome" where
  "fetchstr me addr max_len s =
     bindO (copyinstr me (p_pagetable (procs s ! me)) addr max_len [] s) (\<lambda>(r, bs, s).
       Ok (if r < 0 then None else Some bs, s))"

definition argstr :: "nat \<Rightarrow> nat \<Rightarrow> nat \<Rightarrow> 'a kfile_scheme \<Rightarrow> (byte list option \<times> 'a kfile_scheme) outcome" where
  "argstr me n max_len s = bindO (argaddr me n s) (\<lambda>addr. fetchstr me addr max_len s)"

end
