(* ===== verification/FileIO.thy ===== *)
theory FileIO
  imports Copy
begin

text \<open>
  Reading, writing and inspecting open files (\<open>src/kernel/file.c\<close>), and the creation of a pipe
  (\<open>pipealloc\<close> of \<open>src/kernel/pipe.c\<close>). The table \<open>devsw\<close> of device functions is an argument: it
  gives the \<open>read\<close> or \<open>write\<close> function of a major number, if one is registered.
\<close>

type_synonym 's devfun = "nat \<Rightarrow> bool \<Rightarrow> uint64 \<Rightarrow> int \<Rightarrow> 's \<Rightarrow> 's progress outcome"

type_synonym 's devsw = "nat \<Rightarrow> 's devfun option"

text \<open>
  \<open>struct stat\<close> in memory. The compiler leaves four bytes before the 8-byte field \<open>size\<close>, which
  \<open>stati\<close> does not set: \<open>pad\<close> is what the stack held there.
\<close>

definition stat_bytes :: "byte list \<Rightarrow> stat \<Rightarrow> byte list" where
  "stat_bytes pad st = le_bytes 4 (of_int (st_dev st) :: uint32) @ le_bytes 4 (st_ino st) @ le_bytes 2 (st_type st) @
     le_bytes 2 (st_nlink st) @ take 4 pad @ le_bytes 8 (st_size st)"

definition filestat ::
  "byte list \<Rightarrow> nat \<Rightarrow> nat \<Rightarrow> uint64 \<Rightarrow> 'a kfile_scheme \<Rightarrow> (int \<times> 'a kfile_scheme) outcome" where
  "filestat pad me f addr s =
     (let p = procs s ! me; ip = f_ip (ftable s ! f) in
      if f_type (ftable s ! f) = FD_INODE \<or> f_type (ftable s ! f) = FD_DEVICE then
        bindO (ilock me (Some ip) s) (\<lambda>s.
        let st = stati (inodes s ! ip) in
        bindO (iunlock me (Some ip) s) (\<lambda>s.
        bindO (copyout me (p_pagetable p) addr (stat_bytes pad st) s) (\<lambda>(r, s).
        Ok (if r < 0 then -1 else 0, s))))
      else Ok (-1, s))"

text \<open>The copies of one byte that pipes make.\<close>

definition pipe_cin :: "nat \<Rightarrow> addr \<Rightarrow> uint64 \<Rightarrow> 'a kfile_scheme \<Rightarrow> (byte option \<times> 'a kfile_scheme) outcome" where
  "pipe_cin me pagetable va s =
     bindO (copyin me pagetable va 1 [] s) (\<lambda>(r, bs, s). Ok (if r = -1 then None else Some (hd bs), s))"

definition pipe_cout :: "nat \<Rightarrow> addr \<Rightarrow> uint64 \<Rightarrow> byte \<Rightarrow> 'a kfile_scheme \<Rightarrow> (bool \<times> 'a kfile_scheme) outcome" where
  "pipe_cout me pagetable va ch s =
     bindO (copyout me pagetable va [ch] s) (\<lambda>(r, s). Ok (r \<noteq> -1, s))"

definition dev_lookup :: "'s devsw \<Rightarrow> 16 word \<Rightarrow> 's devfun option" where
  "dev_lookup devsw major = (if sint major < 0 \<or> sint major \<ge> int NDEV then None else devsw (unat major))"

definition fileread ::
  "'a kfile_scheme devsw \<Rightarrow> nat \<Rightarrow> nat \<Rightarrow> uint64 \<Rightarrow> int \<Rightarrow> 'a kfile_scheme \<Rightarrow> 'a kfile_scheme progress outcome" where
  "fileread devsw me f addr n s =
     (let ff = ftable s ! f in
      if f_readable ff = 0 then Ok (Ret (-1) s)
      else case f_type ff of
        FD_PIPE \<Rightarrow> piperead (pipe_cout me) me (f_pipe ff) addr n s
      | FD_DEVICE \<Rightarrow>
          (case dev_lookup devsw (f_major ff) of None \<Rightarrow> Ok (Ret (-1) s) | Some rd \<Rightarrow> rd me True addr n s)
      | FD_INODE \<Rightarrow>
          bindO (ilock me (Some (f_ip ff)) s) (\<lambda>s.
          bindO (readi (to_user me) me (f_ip ff) addr (f_off (ftable s ! f)) (of_int n) () s) (\<lambda>(r, _, s).
          let s = (if r > 0 then upd_file f (\<lambda>f. f\<lparr>f_off := f_off f + of_int r\<rparr>) s else s) in
          bindO (iunlock me (Some (f_ip ff)) s) (\<lambda>s.
          Ok (Ret r s))))
      | FD_NONE \<Rightarrow> Panic ''fileread'')"

definition max_write :: int where
  "max_write = ((int MAXOPBLOCKS - 1 - 1 - 2) div 2) * int BSIZE"

text \<open>The loop of \<open>filewrite\<close> for an inode, with \<open>i\<close> bytes written.\<close>

function filewrite_loop ::
  "nat \<Rightarrow> nat \<Rightarrow> uint64 \<Rightarrow> int \<Rightarrow> int \<Rightarrow> 'a kfile_scheme \<Rightarrow> (int \<times> 'a kfile_scheme) outcome" where
  "filewrite_loop me f addr n i s =
     (if i < n then
        let n1 = min (n - i) max_write; ip = f_ip (ftable s ! f) in
        bindO (begin_op s) (\<lambda>s.
        bindO (ilock me (Some ip) s) (\<lambda>s.
        bindO (writei (from_user me) me ip (addr + of_int i) (f_off (ftable s ! f)) (of_int n1) s) (\<lambda>(r, s).
        let s = (if r > 0 then upd_file f (\<lambda>f. f\<lparr>f_off := f_off f + of_int r\<rparr>) s else s) in
        bindO (iunlock me (Some ip) s) (\<lambda>s.
        bindO (end_op me s) (\<lambda>s.
        if r \<noteq> n1 then Ok (i, s) else filewrite_loop me f addr n (i + r) s)))))
      else Ok (i, s))"
  by pat_completeness auto
termination
  by (relation "measure (\<lambda>(me, f, addr, n, i, s). nat (n - i))")
    (auto simp: max_write_def MAXOPBLOCKS_def BSIZE_def)

declare filewrite_loop.simps [simp del]

definition filewrite ::
  "'a kfile_scheme devsw \<Rightarrow> nat \<Rightarrow> nat \<Rightarrow> uint64 \<Rightarrow> int \<Rightarrow> 'a kfile_scheme \<Rightarrow> 'a kfile_scheme progress outcome" where
  "filewrite devsw me f addr n s =
     (let ff = ftable s ! f in
      if f_writable ff = 0 then Ok (Ret (-1) s)
      else case f_type ff of
        FD_PIPE \<Rightarrow> pipewrite (pipe_cin me) me (f_pipe ff) addr n s
      | FD_DEVICE \<Rightarrow>
          (case dev_lookup devsw (f_major ff) of None \<Rightarrow> Ok (Ret (-1) s) | Some wr \<Rightarrow> wr me True addr n s)
      | FD_INODE \<Rightarrow>
          bindO (filewrite_loop me f addr n 0 s) (\<lambda>(i, s). Ok (Ret (if i = n then n else -1) s))
      | FD_NONE \<Rightarrow> Panic ''filewrite'')"

section \<open>Creating a pipe\<close>

text \<open>The exit \<open>bad\<close>: the page of the pipe is freed where it had been allocated, which no path reaches.\<close>

definition pipealloc_bad ::
  "nat \<Rightarrow> nat option \<Rightarrow> nat option \<Rightarrow> 'a kfile_scheme \<Rightarrow> ((nat \<times> nat) option \<times> 'a kfile_scheme) outcome" where
  "pipealloc_bad me f0 f1 s =
     bindO (case f0 of None \<Rightarrow> Ok s | Some f \<Rightarrow> fileclose me f s) (\<lambda>s.
     bindO (case f1 of None \<Rightarrow> Ok s | Some f \<Rightarrow> fileclose me f s) (\<lambda>s.
     Ok (None, s)))"

definition pipealloc :: "nat \<Rightarrow> 'a kfile_scheme \<Rightarrow> ((nat \<times> nat) option \<times> 'a kfile_scheme) outcome" where
  "pipealloc me s =
     (case filealloc s of (None, s) \<Rightarrow> pipealloc_bad me None None s
      | (Some f0, s) \<Rightarrow>
     (case filealloc s of (None, s) \<Rightarrow> pipealloc_bad me (Some f0) None s
      | (Some f1, s) \<Rightarrow>
          let (pi, s) = kalloc s in
          if pi = 0 then pipealloc_bad me (Some f0) (Some f1) s
          else let s = upd_pipe pi (pipe_init (pipes s pi)) s;
                   s = upd_file f0 (\<lambda>f. f\<lparr>f_type := FD_PIPE, f_readable := 1, f_writable := 0, f_pipe := pi\<rparr>) s;
                   s = upd_file f1 (\<lambda>f. f\<lparr>f_type := FD_PIPE, f_readable := 0, f_writable := 1, f_pipe := pi\<rparr>) s
               in Ok (Some (f0, f1), s)))"

end
