(* ===== verification/Printf.thy ===== *)
theory Printf
  imports Prelude
begin

text \<open>
  Formatted output: the kernel's \<open>printint\<close>, \<open>printptr\<close> and \<open>printf\<close> (\<open>src/kernel/printf.c\<close>) and
  the user library's \<open>printint\<close>, \<open>printptr\<close> and \<open>vprintf\<close> (\<open>src/user/printf.c\<close>), as the text that
  they send to the console or to a file. The two are written differently, one by look-ahead and
  one as a state machine.
\<close>

section \<open>Numbers\<close>

definition digits :: string where "digits = ''0123456789abcdef''"

definition udigits :: string where "udigits = ''0123456789ABCDEF''"

text \<open>The loop \<open>do buf[i++] = digits[x % base]; while((x /= base) != 0)\<close>, for a base of at least 2.\<close>

function digit_buf :: "string \<Rightarrow> nat \<Rightarrow> nat \<Rightarrow> string" where
  "digit_buf dg base x =
     dg ! (x mod base) # (if base < 2 \<or> x div base = 0 then [] else digit_buf dg base (x div base))"
  by pat_completeness auto
termination
proof (relation "measure (\<lambda>(dg, base, x). x)", goal_cases)
  case (2 dg base x)
  then have "x div base < x" by (intro div_less_dividend) (auto intro: gr0I)
  then show ?case by simp
qed simp

declare digit_buf.simps [simp del]

text \<open>The contents of \<open>buf\<close>, printed from its end.\<close>

definition printint_buf :: "string \<Rightarrow> uint64 \<Rightarrow> nat \<Rightarrow> bool \<Rightarrow> string" where
  "printint_buf dg xx base sign =
     (let neg = sign \<and> sint xx < 0;
          x = (if neg then - xx else xx);
          buf = digit_buf dg base (unat x)
      in if neg then buf @ ''-'' else buf)"

definition printint :: "uint64 \<Rightarrow> nat \<Rightarrow> bool \<Rightarrow> string" where
  "printint xx base sign = rev (printint_buf digits xx base sign)"

definition u_printint :: "uint64 \<Rightarrow> nat \<Rightarrow> bool \<Rightarrow> string" where
  "u_printint xx base sgnd = rev (printint_buf udigits xx base sgnd)"

fun printptr_loop :: "string \<Rightarrow> nat \<Rightarrow> uint64 \<Rightarrow> string" where
  "printptr_loop dg 0 x = []"
| "printptr_loop dg (Suc k) x = dg ! unat (drop_bit (64 - 4) x) # printptr_loop dg k (push_bit 4 x)"

definition printptr :: "uint64 \<Rightarrow> string" where
  "printptr x = ''0x'' @ printptr_loop digits 16 x"

definition u_printptr :: "uint64 \<Rightarrow> string" where
  "u_printptr x = ''0x'' @ printptr_loop udigits 16 x"

section \<open>Formats\<close>

text \<open>An argument of a variadic call: a register or a string, which may be null.\<close>

datatype varg = ANum uint64 | AStr "string option"

datatype conv = CSigned32 | CSigned64 | CUnsigned nat | CUnsigned64 nat | CPtr | CChar | CStr | CPercent
  | CUnknown char

text \<open>
  The chain of tests on \<open>c0\<close>, \<open>c1\<close> and \<open>c2\<close>: the conversion and the number of characters it takes.
\<close>

definition nth_char :: "nat \<Rightarrow> string \<Rightarrow> char" where
  "nth_char k r = (if k < length r then r ! k else CHR 0x00)"

definition parse_conv :: "string \<Rightarrow> conv \<times> nat" where
  "parse_conv r =
     (let c0 = nth_char 0 r; c1 = nth_char 1 r; c2 = nth_char 2 r in
      if c0 = CHR ''d'' then (CSigned32, 1)
      else if c0 = CHR ''l'' \<and> c1 = CHR ''d'' then (CSigned64, 2)
      else if c0 = CHR ''l'' \<and> c1 = CHR ''l'' \<and> c2 = CHR ''d'' then (CSigned64, 3)
      else if c0 = CHR ''u'' then (CUnsigned 10, 1)
      else if c0 = CHR ''l'' \<and> c1 = CHR ''u'' then (CUnsigned64 10, 2)
      else if c0 = CHR ''l'' \<and> c1 = CHR ''l'' \<and> c2 = CHR ''u'' then (CUnsigned64 10, 3)
      else if c0 = CHR ''x'' then (CUnsigned 16, 1)
      else if c0 = CHR ''l'' \<and> c1 = CHR ''x'' then (CUnsigned64 16, 2)
      else if c0 = CHR ''l'' \<and> c1 = CHR ''l'' \<and> c2 = CHR ''x'' then (CUnsigned64 16, 3)
      else if c0 = CHR ''p'' then (CPtr, 1)
      else if c0 = CHR ''c'' then (CChar, 1)
      else if c0 = CHR ''s'' then (CStr, 1)
      else if c0 = CHR ''%'' then (CPercent, 1)
      else (CUnknown c0, 1))"

text \<open>
  The text of one conversion and the arguments left; \<open>None\<close> where \<open>va_arg\<close> has no argument of the
  right kind, which C leaves undefined.
\<close>

definition conv_out ::
  "(uint64 \<Rightarrow> nat \<Rightarrow> bool \<Rightarrow> string) \<Rightarrow> (uint64 \<Rightarrow> string) \<Rightarrow> conv \<Rightarrow> varg list \<Rightarrow> (string \<times> varg list) option" where
  "conv_out pint pptr cv args =
     (case cv of
        CPercent \<Rightarrow> Some (''%'', args)
      | CUnknown c \<Rightarrow> Some ([CHR ''%'', c], args)
      | CStr \<Rightarrow> (case args of AStr s # as \<Rightarrow> Some (case s of None \<Rightarrow> ''(null)'' | Some t \<Rightarrow> t, as) | _ \<Rightarrow> None)
      | _ \<Rightarrow> (case args of ANum x # as \<Rightarrow>
           Some (case cv of
               CSigned32 \<Rightarrow> pint (scast (ucast x :: uint32)) 10 True
             | CSigned64 \<Rightarrow> pint x 10 True
             | CUnsigned b \<Rightarrow> pint (ucast (ucast x :: uint32)) b False
             | CUnsigned64 b \<Rightarrow> pint x b False
             | CPtr \<Rightarrow> pptr x
             | _ \<Rightarrow> [char_of (unat x)], as)
         | _ \<Rightarrow> None))"

lemma parse_conv_pos: "0 < snd (parse_conv r)"
  by (simp add: parse_conv_def Let_def)

text \<open>The loop of the kernel's \<open>printf\<close>: a \<open>%\<close> at the end of the format ends the loop.\<close>

function printf_loop ::
  "(uint64 \<Rightarrow> nat \<Rightarrow> bool \<Rightarrow> string) \<Rightarrow> (uint64 \<Rightarrow> string) \<Rightarrow> string \<Rightarrow> varg list \<Rightarrow> string option" where
  "printf_loop pint pptr [] args = Some []"
| "printf_loop pint pptr (cx # r) args =
     (if cx \<noteq> CHR ''%'' then map_option (Cons cx) (printf_loop pint pptr r args)
      else if r = [] then Some []
      else case conv_out pint pptr (fst (parse_conv r)) args of
        None \<Rightarrow> None
      | Some (out, as) \<Rightarrow> map_option (append out) (printf_loop pint pptr (drop (snd (parse_conv r)) r) as))"
  by pat_completeness auto
termination
  by (relation "measure (\<lambda>(pint, pptr, r, args). length r)") (auto simp: parse_conv_pos)

definition printf_out :: "string \<Rightarrow> varg list \<Rightarrow> string option" where
  "printf_out fmt args = printf_loop printint printptr fmt args"

text \<open>
  The loop of the user library's \<open>vprintf\<close>: the flag is \<open>state == '%'\<close>; a conversion of several
  characters advances \<open>i\<close> past the extra ones before the increment of the loop.
\<close>

function vprintf_loop :: "bool \<Rightarrow> string \<Rightarrow> varg list \<Rightarrow> string option" where
  "vprintf_loop state [] args = Some []"
| "vprintf_loop state (c0 # r) args =
     (if \<not> state then
        if c0 = CHR ''%'' then vprintf_loop True r args
        else map_option (Cons c0) (vprintf_loop False r args)
      else case conv_out u_printint u_printptr (fst (parse_conv (c0 # r))) args of
        None \<Rightarrow> None
      | Some (out, as) \<Rightarrow> map_option (append out) (vprintf_loop False (drop (snd (parse_conv (c0 # r)) - 1) r) as))"
  by pat_completeness auto
termination
  by (relation "measure (\<lambda>(state, r, args). length r)") auto

definition vprintf_out :: "string \<Rightarrow> varg list \<Rightarrow> string option" where
  "vprintf_out fmt args = vprintf_loop False fmt args"

section \<open>Agreement of the two loops\<close>

lemma vprintf_loop_printf:
  "vprintf_loop False fmt args = printf_loop u_printint u_printptr fmt args"
proof (induction "length fmt" arbitrary: fmt args rule: less_induct)
  case less
  show ?case
  proof (cases fmt)
    case (Cons c r)
    show ?thesis
    proof (cases "c = CHR ''%'' \<and> r \<noteq> []")
      case True
      then obtain c0 r' where r: "r = c0 # r'" by (cases r) auto
      have n: "drop (snd (parse_conv r) - 1) r' = drop (snd (parse_conv r)) r"
        using parse_conv_pos [of r] r by (cases "snd (parse_conv r)") auto
      have "vprintf_loop False (drop (snd (parse_conv r)) r) as =
          printf_loop u_printint u_printptr (drop (snd (parse_conv r)) r) as" for as
        using less Cons by (simp add: less_Suc_eq_le)
      then show ?thesis using Cons True r n by (simp add: r split: option.split)
    qed (use less Cons in auto)
  qed simp
qed


section \<open>The buffer of \<open>printint\<close>\<close>

lemma digit_buf_length: "2 \<le> base \<Longrightarrow> x < base ^ k \<Longrightarrow> 0 < k \<Longrightarrow> length (digit_buf dg base x) \<le> k"
proof (induction k arbitrary: x)
  case (Suc k)
  have "x div base < base ^ k" using Suc.prems by (simp add: less_mult_imp_div_less mult.commute)
  moreover have "0 < k" if "x div base \<noteq> 0" using that Suc.prems by (cases k) auto
  ultimately show ?case using Suc by (subst digit_buf.simps) auto
qed simp

lemma unat_neg: "0 < unat (x :: 64 word) \<Longrightarrow> unat (- x) = 18446744073709551616 - unat x"
proof -
  assume p: "0 < unat x"
  have "unat (- x + x) = 0" by simp
  then show ?thesis using p unat_64_less [of x] unat_64_less [of "- x"] unfolding unat_add_64 by (simp split: if_splits)
qed
lemma sint_neg_unat: "sint (x :: 64 word) < 0 \<Longrightarrow> 9223372036854775808 \<le> unat x"
proof -
  assume "sint x < 0"
  then have "bit x 63" using bit_last_iff [of x] by simp
  then have "bit (unat x) 63" by (simp add: bit_unsigned_iff)
  then have "odd (unat x div 9223372036854775808)" by (simp add: bit_iff_odd)
  then show ?thesis by (cases "unat x < 9223372036854775808") auto
qed

lemma printint_buf_length:
  assumes b: "base = 10 \<or> base = 16"
  shows "length (printint_buf dg xx base sign) \<le> 20"
proof -
  have "unat x < base ^ 20" for x :: uint64
    using b unat_64_less [of x] by (elim disjE) simp_all
  then have plain: "length (digit_buf dg base (unat x)) \<le> 20" for x :: uint64
    using b by (intro digit_buf_length) auto
  have "unat (- xx) < base ^ 19" if "sint xx < 0"
    using sint_neg_unat [OF that] unat_neg [of xx] b by (elim disjE) simp_all
  then have "length (digit_buf dg base (unat (- xx))) \<le> 19" if "sint xx < 0"
    using b that by (intro digit_buf_length) auto
  then show ?thesis using plain by (auto simp: printint_buf_def Let_def)
qed

text \<open>
C32: \<open>printint\<close> never writes past its buffer of 20 characters: in base 10 or 16, with or without a
sign, for every 64-bit number the digits and the sign take at most 20 places, the most negative
number and the largest unsigned one included.
\<close>

theorem printint_fits_buffer:
  assumes "base = 10 \<or> base = 16"
  shows "length (printint xx base sign) \<le> 20 \<and> length (u_printint xx base sign) \<le> 20"
  using printint_buf_length [OF assms] by (simp add: printint_def u_printint_def)

theorem printint_fits_buffer_witness:
  "length (printint (-1) 10 False) \<le> 20 \<and> length (u_printint (-1) 10 False) \<le> 20"
  by (rule printint_fits_buffer) simp

end
