(* ===== verification/Ps.thy ===== *)
theory Ps
  imports Sched Printf
begin

text \<open>
  The listings \<open>ps\<close> and \<open>procdump\<close> of \<open>src/kernel/proc.c\<close>, as the calls of \<open>printf\<close> that they make:
  the format with its arguments. \<open>ps\<close> recomputes the scheduler's test of eligibility.
\<close>

definition cstring :: "byte list \<Rightarrow> string" where
  "cstring bs = map (\<lambda>b. char_of (unat b)) (takeWhile (\<lambda>c. c \<noteq> 0) bs)"

definition state_name :: "procstate \<Rightarrow> string" where
  "state_name st = (case st of UNUSED \<Rightarrow> ''UNUSED  '' | USED \<Rightarrow> ''USED    '' | SLEEPING \<Rightarrow> ''SLEEPING''
     | RUNNABLE \<Rightarrow> ''RUNNABLE'' | RUNNING \<Rightarrow> ''RUNNING '' | ZOMBIE \<Rightarrow> ''ZOMBIE  '')"

definition pad_to :: "nat \<Rightarrow> string \<Rightarrow> string" where
  "pad_to n t = t @ replicate (n - length t) CHR '' ''"

text \<open>\<open>safestrcpy\<close> into 16 bytes, then blanks up to 15.\<close>

definition padded_name :: "byte list \<Rightarrow> string" where
  "padded_name nm = pad_to 15 (cstring (take 15 nm))"

text \<open>The loop over the decimal digits of \<open>temp_rt\<close>, least significant first, at most 15.\<close>

fun runtime_digits :: "nat \<Rightarrow> int \<Rightarrow> string" where
  "runtime_digits 0 rt = []"
| "runtime_digits (Suc k) rt =
     (if rt > 0 then char_of (nat (rt mod 10) + 48) # runtime_digits k (rt div 10) else [])"

definition padded_runtime :: "uint64 \<Rightarrow> string" where
  "padded_runtime cur_runtime =
     (let temp_rt = sint (ucast cur_runtime :: uint32) in
      pad_to 9 (if temp_rt = 0 then ''0'' else rev (runtime_digits 15 temp_rt)))"

text \<open>The two scans before the listing; \<open>left_side\<close> stays 0 when no process runs.\<close>

definition ps_scan :: "proc list \<Rightarrow> proc list \<Rightarrow> uint64 \<times> uint64 \<times> uint64" where
  "ps_scan ps1 ps2 =
     (let (min_v, w_sum, _) = sched_scan ps1
      in (min_v, w_sum, if min_v \<noteq> -1 then sched_left min_v ps2 else 0))"

definition eligible_flag :: "uint64 \<times> uint64 \<times> uint64 \<Rightarrow> proc \<Rightarrow> bool" where
  "eligible_flag g p \<longleftrightarrow> (let (min_v, w_sum, left_side) = g in on_runq p \<and> is_eligible min_v w_sum left_side p)"

definition num_arg :: "int \<Rightarrow> varg" where
  "num_arg x = ANum (of_int x)"

definition ps_row :: "uint64 \<times> uint64 \<times> uint64 \<Rightarrow> proc \<Rightarrow> string \<times> varg list" where
  "ps_row g p =
     (''%s'' @ [CHR 0x09] @ ''%d'' @ [CHR 0x09] @ ''%s'' @ [CHR 0x09] @ ''%d'' @ [CHR 0x09, CHR 0x09] @ ''%d'' @
      [CHR 0x09, CHR 0x09] @ ''%s'' @ [CHR 0x09] @ ''%d'' @ [CHR 0x09, CHR 0x09] @ ''%d'' @ [CHR 0x09, CHR 0x09] @
      ''%s'' @ [CHR 0x0A],
      [AStr (Some (padded_name (p_name p))), num_arg (p_pid p), AStr (Some (state_name (p_state p))),
       num_arg (p_nice p), ANum (scast (ucast (p_runtime p div of_int (weight p)) :: uint32)),
       AStr (Some (padded_runtime (p_runtime p))),
       ANum (scast (ucast (p_vruntime p) :: uint32)), ANum (scast (ucast (p_vdeadline p) :: uint32)),
       AStr (Some (if eligible_flag g p then ''true '' else ''false''))])"

fun ps_rows :: "int \<Rightarrow> uint64 \<times> uint64 \<times> uint64 \<Rightarrow> proc list \<Rightarrow> (string \<times> varg list) list" where
  "ps_rows pid g [] = []"
| "ps_rows pid g (p # ps) =
     (if p_state p = UNUSED then ps_rows pid g ps
      else if pid \<noteq> 0 \<and> p_pid p \<noteq> pid then ps_rows pid g ps
      else ps_row g p # (if pid \<noteq> 0 then [] else ps_rows pid g ps))"

definition ps_header :: "uint32 \<Rightarrow> string \<times> varg list" where
  "ps_header tk =
     (''name           '' @ [CHR 0x09] @ ''pid'' @ [CHR 0x09] @ ''state   '' @ [CHR 0x09] @ ''priority'' @ [CHR 0x09] @
      ''runtime/weight'' @ [CHR 0x09] @ ''runtime '' @ [CHR 0x09] @ ''vruntime'' @ [CHR 0x09] @ ''vdeadline'' @ [CHR 0x09] @
      ''is_eligible'' @ [CHR 0x09] @ ''tick %d'' @ [CHR 0x0A],
      [ANum (ucast (tk * 1000))])"

definition ps_list :: "int \<Rightarrow> uint32 \<Rightarrow> proc list \<Rightarrow> proc list \<Rightarrow> proc list \<Rightarrow> (string \<times> varg list) list" where
  "ps_list pid tk ps1 ps2 ps3 = ps_header tk # ps_rows pid (ps_scan ps1 ps2) ps3"

definition dump_name :: "procstate \<Rightarrow> string" where
  "dump_name st = (case st of UNUSED \<Rightarrow> ''unused'' | USED \<Rightarrow> ''used'' | SLEEPING \<Rightarrow> ''sleep ''
     | RUNNABLE \<Rightarrow> ''runble'' | RUNNING \<Rightarrow> ''run   '' | ZOMBIE \<Rightarrow> ''zombie'')"

definition procdump :: "proc list \<Rightarrow> (string \<times> varg list) list" where
  "procdump ps = ([CHR 0x0A], []) # concat (map (\<lambda>p.
     if p_state p = UNUSED then []
     else [(''%d %s %s'', [num_arg (p_pid p), AStr (Some (dump_name (p_state p))), AStr (Some (cstring (p_name p)))]),
           ([CHR 0x0A], [])]) ps)"

end
