(* ===== verification/Console.thy ===== *)
theory Console
  imports Virtio FileIO Ps Ring
begin

text \<open>
  The console (\<open>src/kernel/console.c\<close>) and the serial port under it (\<open>src/kernel/uart.c\<close>): line
  editing of the input in a circular buffer with the indices \<open>r \<le> w \<le> e\<close>, and output. \<open>uart_out\<close>
  is the sequence of bytes written to the transmit register. A spin on the line status register
  ends when the device is ready, which the model does not time. After a panic the kernel prints no
  more; the outcome \<open>Panic\<close> ends a run.
\<close>

section \<open>State\<close>

definition INPUT_BUF_SIZE :: nat where "INPUT_BUF_SIZE = 128"

record kcons = kvd +
  cons_buf :: "byte list"
  cons_r :: uint32
  cons_w :: uint32
  cons_e :: uint32
  uart_out :: "byte list"
  tx_busy :: int

definition ctrl :: "char \<Rightarrow> int" where
  "ctrl x = of_char x - of_char (CHR ''@'')"

definition BACKSPACE :: int where "BACKSPACE = 0x100"

section \<open>The serial port\<close>

definition uartputc_sync :: "int \<Rightarrow> 'a kcons_scheme \<Rightarrow> 'a kcons_scheme" where
  "uartputc_sync c s = s\<lparr>uart_out := uart_out s @ [of_int c]\<rparr>"

text \<open>The loop of \<open>uartwrite\<close> from byte \<open>i\<close>: it sleeps while the port is busy.\<close>

fun uartwrite_loop :: "byte list \<Rightarrow> int \<Rightarrow> 'a kcons_scheme \<Rightarrow> 'a kcons_scheme progress" where
  "uartwrite_loop [] i s = Ret i s"
| "uartwrite_loop (b # bs) i s =
     (if tx_busy s \<noteq> 0 then Blk i s
      else uartwrite_loop bs (i + 1) (s\<lparr>uart_out := uart_out s @ [b], tx_busy := 1\<rparr>))"

definition uartwrite :: "byte list \<Rightarrow> 'a kcons_scheme \<Rightarrow> 'a kcons_scheme progress" where
  "uartwrite buf s = uartwrite_loop buf 0 s"

definition consputc :: "int \<Rightarrow> 'a kcons_scheme \<Rightarrow> 'a kcons_scheme" where
  "consputc c s =
     (if c = BACKSPACE then uartputc_sync 8 (uartputc_sync 32 (uartputc_sync 8 s)) else uartputc_sync c s)"

definition kprint :: "string \<times> varg list \<Rightarrow> 'a kcons_scheme \<Rightarrow> 'a kcons_scheme outcome" where
  "kprint c s = (case printf_out (fst c) (snd c) of None \<Rightarrow> Undef
     | Some out \<Rightarrow> Ok (foldl (\<lambda>s ch. consputc (of_char ch) s) s out))"

fun kprints :: "(string \<times> varg list) list \<Rightarrow> 'a kcons_scheme \<Rightarrow> 'a kcons_scheme outcome" where
  "kprints [] s = Ok s"
| "kprints (c # cs) s = bindO (kprint c s) (kprints cs)"

section \<open>Reading and writing\<close>

text \<open>
  \<open>consolewrite\<close> moves batches of 32 bytes; when the port is busy it blocks with the number of bytes
  already handed to the port.
\<close>

function consolewrite_loop ::
  "nat \<Rightarrow> bool \<Rightarrow> uint64 \<Rightarrow> int \<Rightarrow> int \<Rightarrow> 'a kcons_scheme \<Rightarrow> 'a kcons_scheme progress outcome" where
  "consolewrite_loop me user_src src n i s =
     (if i < n then
        let nn = min 32 (n - i) in
        bindO (either_copyin me user_src (src + of_int i) (nat nn) s) (\<lambda>(r, buf, s).
        if r = -1 then Ok (Ret i s)
        else case uartwrite buf s of
          Blk k s \<Rightarrow> Ok (Blk (i + k) s)
        | Ret _ s \<Rightarrow> consolewrite_loop me user_src src n (i + nn) s)
      else Ok (Ret i s))"
  by pat_completeness auto
termination
  by (relation "measure (\<lambda>(me, user_src, src, n, i, s). nat (n - i))") auto

declare consolewrite_loop.simps [simp del]

definition consolewrite :: "nat \<Rightarrow> bool \<Rightarrow> uint64 \<Rightarrow> int \<Rightarrow> 'a kcons_scheme \<Rightarrow> 'a kcons_scheme progress outcome" where
  "consolewrite me user_src src n s = consolewrite_loop me user_src src n 0 s"

text \<open>The loop of \<open>consoleread\<close> with \<open>n\<close> bytes left of \<open>target\<close>.\<close>

function consoleread_loop ::
  "nat \<Rightarrow> bool \<Rightarrow> uint64 \<Rightarrow> int \<Rightarrow> int \<Rightarrow> 'a kcons_scheme \<Rightarrow> 'a kcons_scheme progress outcome" where
  "consoleread_loop me user_dst dst target n s =
     (if n > 0 then
        if cons_r s = cons_w s then
          if killed me s \<noteq> 0 then Ok (Ret (-1) s) else Ok (Blk (target - n) s)
        else let c = cons_buf s ! (unat (cons_r s) mod INPUT_BUF_SIZE);
                 s = s\<lparr>cons_r := cons_r s + 1\<rparr> in
        if uint c = ctrl CHR ''D'' then
          Ok (Ret (target - n) (if n < target then s\<lparr>cons_r := cons_r s - 1\<rparr> else s))
        else bindO (either_copyout me user_dst dst [c] s) (\<lambda>(r, s).
        if r = -1 then Ok (Ret (target - n) s)
        else if c = 10 then Ok (Ret (target - (n - 1)) s)
        else consoleread_loop me user_dst (dst + 1) target (n - 1) s)
      else Ok (Ret (target - n) s))"
  by pat_completeness auto
termination
  by (relation "measure (\<lambda>(me, user_dst, dst, target, n, s). nat n)") auto

declare consoleread_loop.simps [simp del]

definition consoleread :: "nat \<Rightarrow> bool \<Rightarrow> uint64 \<Rightarrow> int \<Rightarrow> 'a kcons_scheme \<Rightarrow> 'a kcons_scheme progress outcome" where
  "consoleread me user_dst dst n s = consoleread_loop me user_dst dst n n s"

section \<open>Input\<close>

text \<open>Control-U: back to the last committed byte or newline.\<close>

function kill_line :: "'a kcons_scheme \<Rightarrow> 'a kcons_scheme" where
  "kill_line s =
     (if cons_e s \<noteq> cons_w s \<and> cons_buf s ! (unat (cons_e s - 1) mod INPUT_BUF_SIZE) \<noteq> 10
      then kill_line (consputc BACKSPACE (s\<lparr>cons_e := cons_e s - 1\<rparr>)) else s)"
  by pat_completeness auto
termination
proof (relation "measure (\<lambda>s. unat (cons_e s - cons_w s))", goal_cases)
  case (2 s)
  then have "cons_e s - cons_w s \<noteq> 0" by simp
  then have "unat (cons_e s - cons_w s - 1) < unat (cons_e s - cons_w s)" by (rule measure_unat)
  then show ?case by (simp add: consputc_def uartputc_sync_def diff_right_commute)
qed simp

declare kill_line.simps [simp del]

definition consoleintr :: "nat option \<Rightarrow> int \<Rightarrow> 'a kcons_scheme \<Rightarrow> 'a kcons_scheme outcome" where
  "consoleintr me c s =
     (if c = ctrl CHR ''P'' then kprints (procdump (procs s)) s
      else if c = ctrl CHR ''U'' then Ok (kill_line s)
      else if c = ctrl CHR ''H'' \<or> c = 0x7f then
        Ok (if cons_e s \<noteq> cons_w s then consputc BACKSPACE (s\<lparr>cons_e := cons_e s - 1\<rparr>) else s)
      else if c \<noteq> 0 \<and> unat (cons_e s - cons_r s) < INPUT_BUF_SIZE then
        let c = (if c = 13 then 10 else c);
            s = consputc c s;
            s = s\<lparr>cons_buf := (cons_buf s)[unat (cons_e s) mod INPUT_BUF_SIZE := of_int c], cons_e := cons_e s + 1\<rparr>
        in Ok (if c = 10 \<or> c = ctrl CHR ''D'' \<or> unat (cons_e s - cons_r s) = INPUT_BUF_SIZE
               then wakeup ConsChan me (s\<lparr>cons_w := cons_e s\<rparr>) else s)
      else Ok s)"

text \<open>
  The interrupt of the serial port: \<open>idle\<close> is the transmit bit of the line status register, and
  the list is the input that \<open>uartgetc\<close> returns until it has none.
\<close>

fun uartintr_input :: "nat option \<Rightarrow> byte list \<Rightarrow> 'a kcons_scheme \<Rightarrow> 'a kcons_scheme outcome" where
  "uartintr_input me [] s = Ok s"
| "uartintr_input me (c # cs) s = bindO (consoleintr me (uint c) s) (uartintr_input me cs)"

definition uartintr :: "nat option \<Rightarrow> bool \<Rightarrow> byte list \<Rightarrow> 'a kcons_scheme \<Rightarrow> 'a kcons_scheme outcome" where
  "uartintr me idle input s =
     uartintr_input me input (if idle then wakeup UartChan me (s\<lparr>tx_busy := 0\<rparr>) else s)"

section \<open>Initialisation\<close>

text \<open>The registers written by \<open>uartinit\<close>, and the device table after \<open>consoleinit\<close>.\<close>

definition uartinit :: "(nat \<times> byte) list" where
  "uartinit = [(1, 0x00), (3, push_bit 7 1), (0, 0x03), (1, 0x00), (3, 3), (2, 1 OR push_bit 1 3), (1, 2 OR 1)]"

definition devsw_read :: "'a kcons_scheme devsw" where
  "devsw_read major = (if major = unat CONSOLE then Some consoleread else None)"

definition devsw_write :: "'a kcons_scheme devsw" where
  "devsw_write major = (if major = unat CONSOLE then Some consolewrite else None)"

end
