(* ===== verification/ConsoleProof.thy ===== *)
theory ConsoleProof
  imports Console
begin

text \<open>
  The line discipline of \<open>src/kernel/console.c\<close>: the circular input buffer is a line being typed,
  which may still be edited, behind the input that a reader may take.
\<close>

section \<open>The input of the console\<close>

definition cons_queue :: "'a kcons_scheme \<Rightarrow> byte list" where
  "cons_queue s = ring_list INPUT_BUF_SIZE (cons_buf s) (cons_r s) (cons_e s)"

text \<open>The bytes a reader may take, and the line that is being typed.\<close>

definition cons_view :: "'a kcons_scheme \<Rightarrow> byte list \<times> byte list" where
  "cons_view s = (take (unat (cons_w s - cons_r s)) (cons_queue s), drop (unat (cons_w s - cons_r s)) (cons_queue s))"

definition cons_ok :: "'a kcons_scheme \<Rightarrow> bool" where
  "cons_ok s \<longleftrightarrow> length (cons_buf s) = INPUT_BUF_SIZE \<and> unat (cons_w s - cons_r s) \<le> unat (cons_e s - cons_r s) \<and>
     unat (cons_e s - cons_r s) \<le> INPUT_BUF_SIZE \<and> (\<forall>b\<in>set (snd (cons_view s)). b \<noteq> 10)"

text \<open>What a typed character does to such an input.\<close>

definition type_char :: "int \<Rightarrow> byte list \<times> byte list \<Rightarrow> byte list \<times> byte list" where
  "type_char c = (\<lambda>(q, l).
     if c = ctrl CHR ''P'' then (q, l)
     else if c = ctrl CHR ''U'' then (q, [])
     else if c = ctrl CHR ''H'' \<or> c = 0x7f then (q, butlast l)
     else if c \<noteq> 0 \<and> length q + length l < INPUT_BUF_SIZE then
       let c = (if c = 13 then 10 else c) in
       if c = 10 \<or> c = ctrl CHR ''D'' \<or> length q + length l + 1 = INPUT_BUF_SIZE then (q @ l @ [of_int c], [])
       else (q, l @ [of_int c])
     else (q, l))"

section \<open>Output leaves the input alone\<close>

definition cons_same :: "'a kcons_scheme \<Rightarrow> 'b kcons_scheme \<Rightarrow> bool" where
  "cons_same s t \<longleftrightarrow> cons_buf t = cons_buf s \<and> cons_r t = cons_r s \<and> cons_w t = cons_w s \<and> cons_e t = cons_e s"

lemma cons_sameD: "cons_same s t \<Longrightarrow> cons_view t = cons_view s \<and> cons_ok t = cons_ok s"
  by (simp add: cons_same_def cons_view_def cons_ok_def cons_queue_def)

lemma consputc_same [simp]:
  "cons_buf (consputc c s) = cons_buf s" "cons_r (consputc c s) = cons_r s" "cons_w (consputc c s) = cons_w s"
  "cons_e (consputc c s) = cons_e s"
  by (simp_all add: consputc_def uartputc_sync_def)

lemma wakeup_same [simp]:
  "cons_buf (wakeup ch me s) = cons_buf s" "cons_r (wakeup ch me s) = cons_r s" "cons_w (wakeup ch me s) = cons_w s"
  "cons_e (wakeup ch me s) = cons_e s"
  by (simp_all add: wakeup_def)

lemma foldl_consputc_same: "cons_same s (foldl (\<lambda>s ch. consputc (f ch) s) s out)"
  by (induction out arbitrary: s) (auto simp: cons_same_def)

text \<open>The formats of \<open>procdump\<close> are in order, so the listing is printed.\<close>

lemma kprints_ok:
  "(\<forall>c\<in>set cs. printf_out (fst c) (snd c) \<noteq> None) \<Longrightarrow> \<exists>t. kprints cs s = Ok t \<and> cons_same s t"
proof (induction cs arbitrary: s)
  case (Cons c cs)
  then obtain out where "printf_out (fst c) (snd c) = Some out" by auto
  then have "kprint c s = Ok (foldl (\<lambda>s ch. consputc (of_char ch) s) s out)" by (simp add: kprint_def)
  moreover obtain t where "kprints cs (foldl (\<lambda>s ch. consputc (of_char ch) s) s out) = Ok t"
    "cons_same (foldl (\<lambda>s ch. consputc (of_char ch) s) s out) t" using Cons by fastforce
  ultimately show ?case using foldl_consputc_same [of s of_char out] by (auto simp: cons_same_def)
qed (simp add: cons_same_def)

lemma procdump_prints: "\<exists>t. kprints (procdump ps) s = Ok t \<and> cons_same s t"
proof (rule kprints_ok)
  have "printf_out [CHR 0x0A] [] \<noteq> None" "printf_out ''%d %s %s'' [num_arg a, AStr (Some b), AStr (Some c)] \<noteq> None" for a b c
    by (simp_all add: printf_out_def printf_loop.simps num_arg_def parse_conv_def conv_out_def nth_char_def)
  then show "\<forall>c\<in>set (procdump ps). printf_out (fst c) (snd c) \<noteq> None" by (auto simp: procdump_def)
qed

section \<open>Editing\<close>

lemma ring_size_input [simp]: "ring_size INPUT_BUF_SIZE"
  by (simp add: ring_size_def INPUT_BUF_SIZE_def)

lemma cons_index: "unat k mod INPUT_BUF_SIZE = ring_index INPUT_BUF_SIZE k"
  by (simp add: ring_index_nat)

lemma ring_back:
  assumes "e \<noteq> r"
  shows "ring_list N buf r e = ring_list N buf r (e - 1) @ [buf ! ring_index N (e - 1)]"
proof -
  have n: "unat (e - r) = Suc (unat (e - 1 - r))"
    using assms ring_get_length [of r e] by (simp add: diff_diff_eq add.commute)
  have "r + of_nat (unat (e - 1 - r)) = e - 1" by simp
  then show ?thesis unfolding ring_list_def n by simp
qed

text \<open>With a line being typed, its last byte is the one before \<open>e\<close>.\<close>

lemma pending_last:
  assumes "cons_ok s" "cons_e s \<noteq> cons_w s"
  defines "q \<equiv> fst (cons_view s)" and "l \<equiv> snd (cons_view s)" and "t \<equiv> s\<lparr>cons_e := cons_e s - 1\<rparr>"
  shows "l \<noteq> []" "last l = cons_buf s ! ring_index INPUT_BUF_SIZE (cons_e s - 1)" "cons_view t = (q, butlast l)" "cons_ok t"
proof -
  let ?n = "unat (cons_w s - cons_r s)" and ?m = "unat (cons_e s - cons_r s)"
  have "?n \<noteq> ?m" using assms(2) by (metis diff_add_cancel word_unat_eq_iff)
  then have lt: "?n < ?m" using assms(1) by (simp add: cons_ok_def)
  then have ne: "cons_e s \<noteq> cons_r s" by auto
  note b = ring_back [OF ne, of INPUT_BUF_SIZE "cons_buf s"]
  have m: "?m = Suc (unat (cons_e s - 1 - cons_r s))"
    using ring_get_length [of "cons_r s" "cons_e s"] ne by (simp add: diff_diff_eq add.commute)
  have l: "l = drop ?n (ring_list INPUT_BUF_SIZE (cons_buf s) (cons_r s) (cons_e s - 1)) @ [cons_buf s ! ring_index INPUT_BUF_SIZE (cons_e s - 1)]"
    using lt m by (simp add: l_def cons_view_def cons_queue_def b)
  then show "l \<noteq> []" "last l = cons_buf s ! ring_index INPUT_BUF_SIZE (cons_e s - 1)" by simp_all
  show v: "cons_view t = (q, butlast l)" unfolding l using lt m by (simp add: t_def q_def cons_view_def cons_queue_def b)
  then show "cons_ok t" using assms(1) lt m by (auto simp: cons_ok_def t_def l_def dest: in_set_butlastD)
qed

lemma kill_line_view:
  "cons_ok s \<Longrightarrow> cons_ok (kill_line s) \<and> cons_view (kill_line s) = (fst (cons_view s), [])"
proof (induction s rule: kill_line.induct)
  case (1 s)
  show ?case
  proof (cases "cons_e s = cons_w s")
    case True
    then have "kill_line s = s" by (simp add: kill_line.simps)
    then show ?thesis using 1(2) True by (simp add: cons_view_def cons_queue_def)
  next
    case False
    note P = pending_last [OF 1(2) False]
    let ?t = "s\<lparr>cons_e := cons_e s - 1\<rparr>"
    have "cons_same ?t (consputc BACKSPACE ?t)" by (simp add: cons_same_def)
    note S = cons_sameD [OF this]
    have "last (snd (cons_view s)) \<noteq> 10" using 1(2) P(1) last_in_set by (auto simp: cons_ok_def)
    then have c: "cons_e s \<noteq> cons_w s \<and> cons_buf s ! (unat (cons_e s - 1) mod INPUT_BUF_SIZE) \<noteq> 10"
      using False P(2) by (simp add: cons_index)
    then have "kill_line s = kill_line (consputc BACKSPACE ?t)" by (subst kill_line.simps) simp
    then show ?thesis using 1(1) [OF c] S P(3,4) by simp
  qed
qed

lemma cons_store:
  fixes x :: byte
  assumes ok: "cons_ok s" and room: "unat (cons_e s - cons_r s) < INPUT_BUF_SIZE"
  defines "t \<equiv> s\<lparr>cons_buf := (cons_buf s)[unat (cons_e s) mod INPUT_BUF_SIZE := x], cons_e := cons_e s + 1\<rparr>"
  shows "cons_queue t = fst (cons_view s) @ snd (cons_view s) @ [x]" "unat (cons_e t - cons_r t) = Suc (unat (cons_e s - cons_r s))"
    "cons_view t = (fst (cons_view s), snd (cons_view s) @ [x])" "x \<noteq> 10 \<Longrightarrow> cons_ok t"
    "cons_ok (t\<lparr>cons_w := cons_e t\<rparr>)" "cons_view (t\<lparr>cons_w := cons_e t\<rparr>) = (fst (cons_view s) @ snd (cons_view s) @ [x], [])"
proof -
  have len: "length (cons_buf s) = INPUT_BUF_SIZE" and le: "unat (cons_w s - cons_r s) \<le> unat (cons_e s - cons_r s)"
    using ok by (simp_all add: cons_ok_def)
  have "cons_queue t = cons_queue s @ [x]"
    using ring_put [OF ring_size_input len room, of x] by (simp add: cons_queue_def t_def cons_index)
  then show q: "cons_queue t = fst (cons_view s) @ snd (cons_view s) @ [x]" by (simp add: cons_view_def)
  show n: "unat (cons_e t - cons_r t) = Suc (unat (cons_e s - cons_r s))"
    using ring_put_length [OF ring_size_input room] by (simp add: t_def)
  have f: "length (cons_buf t) = INPUT_BUF_SIZE" "cons_w t = cons_w s" "cons_r t = cons_r s" by (simp_all add: t_def len)
  have l: "length (fst (cons_view s)) = unat (cons_w s - cons_r s)" "length (cons_queue s) = unat (cons_e s - cons_r s)"
    using le by (simp_all add: cons_view_def cons_queue_def)
  show v: "cons_view t = (fst (cons_view s), snd (cons_view s) @ [x])" unfolding cons_view_def [of t] f q using l(1) by simp
  show "x \<noteq> 10 \<Longrightarrow> cons_ok t" using ok v n f room by (auto simp: cons_ok_def)
  have qt: "cons_queue (t\<lparr>cons_w := cons_e t\<rparr>) = cons_queue t" by (simp add: cons_queue_def)
  have "length (cons_queue t) = unat (cons_e t - cons_r t)" by (simp add: cons_queue_def)
  then show w: "cons_view (t\<lparr>cons_w := cons_e t\<rparr>) = (fst (cons_view s) @ snd (cons_view s) @ [x], [])"
    unfolding cons_view_def [of "t\<lparr>cons_w := cons_e t\<rparr>"] qt using q by simp
  show "cons_ok (t\<lparr>cons_w := cons_e t\<rparr>)" unfolding cons_ok_def w using n f room by simp
qed

lemma cons_view_length: "cons_ok s \<Longrightarrow> length (fst (cons_view s)) + length (snd (cons_view s)) = unat (cons_e s - cons_r s)"
  by (simp add: cons_ok_def cons_view_def cons_queue_def)

lemma consoleintr_default:
  assumes ok: "cons_ok s" and c: "c = uint (b :: byte)" "c \<notin> {ctrl CHR ''P'', ctrl CHR ''U'', ctrl CHR ''H'', 0x7f}"
  shows "\<exists>t. consoleintr me c s = Ok t \<and> cons_ok t \<and> cons_view t = type_char c (cons_view s)"
proof (cases "c \<noteq> 0 \<and> unat (cons_e s - cons_r s) < INPUT_BUF_SIZE")
  case False
  then show ?thesis using ok c(2) cons_view_length [OF ok] by (auto simp: consoleintr_def type_char_def split: prod.splits)
next
  case True
  define d where "d = (if c = 13 then 10 else c)"
  define u where "u = consputc d s"
  have u: "cons_ok u" "cons_view u = cons_view s" "cons_e u = cons_e s" "cons_r u = cons_r s" 
    using ok cons_sameD [of s u] by (simp_all add: u_def cons_same_def)
  have room: "unat (cons_e u - cons_r u) < INPUT_BUF_SIZE" using True u by simp
  have "\<exists>e :: byte. d = uint e" using c(1) by (cases "c = 13") (auto simp: d_def intro: exI [of _ 10])
  then have ne: "d \<noteq> 10 \<Longrightarrow> (of_int d :: byte) \<noteq> 10" by auto
  let ?t = "u\<lparr>cons_buf := (cons_buf u)[unat (cons_e u) mod INPUT_BUF_SIZE := of_int d], cons_e := cons_e u + 1\<rparr>"
  note S = cons_store [OF u(1) room, of "of_int d"]
  have i: "consoleintr me c s = Ok (if d = 10 \<or> d = ctrl CHR ''D'' \<or> unat (cons_e ?t - cons_r ?t) = INPUT_BUF_SIZE
      then wakeup ConsChan me (?t\<lparr>cons_w := cons_e ?t\<rparr>) else ?t)"
    using True c(2) by (simp add: consoleintr_def Let_def d_def u_def)
  have v: "type_char c (cons_view s) = (let (q, l) = cons_view s in
      if d = 10 \<or> d = ctrl CHR ''D'' \<or> unat (cons_e ?t - cons_r ?t) = INPUT_BUF_SIZE then (q @ l @ [of_int d], []) else (q, l @ [of_int d]))"
    using True c(2) cons_view_length [OF ok] S(2) u(3,4) by (auto simp: type_char_def d_def Let_def split: prod.splits)
  have w: "cons_same (?t\<lparr>cons_w := cons_e ?t\<rparr>) (wakeup ConsChan me (?t\<lparr>cons_w := cons_e ?t\<rparr>))" by (simp add: cons_same_def)
  show ?thesis
    unfolding i v using S(3-6) cons_sameD [OF w] ne u(2) by (auto split: prod.splits)
qed

lemma consoleintr_view:
  assumes ok: "cons_ok s"
  shows "\<exists>t. consoleintr me (uint (b :: byte)) s = Ok t \<and> cons_ok t \<and> cons_view t = type_char (uint b) (cons_view s)"
proof -
  let ?c = "uint b"
  consider "?c = ctrl CHR ''P''" | "?c = ctrl CHR ''U''" | "?c = ctrl CHR ''H'' \<or> ?c = 0x7f"
    | "?c \<notin> {ctrl CHR ''P'', ctrl CHR ''U'', ctrl CHR ''H'', 0x7f}" by blast
  then show ?thesis
  proof cases
    case 1
    obtain t where "kprints (procdump (procs s)) s = Ok t" "cons_same s t" using procdump_prints by blast
    then show ?thesis using 1 ok cons_sameD [of s t] by (simp add: consoleintr_def type_char_def split: prod.splits)
  next
    case 2
    then show ?thesis using kill_line_view [OF ok] by (simp add: consoleintr_def type_char_def ctrl_def split: prod.splits)
  next
    case 3
    let ?t = "s\<lparr>cons_e := cons_e s - 1\<rparr>"
    have S: "cons_view (consputc BACKSPACE ?t) = cons_view ?t" "cons_ok (consputc BACKSPACE ?t) = cons_ok ?t"
      using cons_sameD [of ?t "consputc BACKSPACE ?t"] by (simp_all add: cons_same_def)
    have i: "consoleintr me ?c s = Ok (if cons_e s \<noteq> cons_w s then consputc BACKSPACE ?t else s)"
      using 3 by (auto simp: consoleintr_def ctrl_def)
    have v: "type_char ?c (cons_view s) = (fst (cons_view s), butlast (snd (cons_view s)))"
      using 3 by (auto simp: type_char_def ctrl_def split: prod.splits)
    show ?thesis
    proof (cases "cons_e s = cons_w s")
      case True
      then have "snd (cons_view s) = []" by (simp add: cons_view_def cons_queue_def)
      then show ?thesis unfolding i v using ok True by (simp add: prod_eq_iff)
    next
      case False
      then show ?thesis unfolding i v using S pending_last(3,4) [OF ok False] by simp
    qed
  next
    case 4
    then show ?thesis by (rule consoleintr_default [OF ok refl])
  qed
qed

lemma uartintr_input_view:
  "cons_ok s \<Longrightarrow> \<exists>t. uartintr_input me cs s = Ok t \<and> cons_ok t \<and> cons_view t = fold (\<lambda>b. type_char (uint b)) cs (cons_view s)"
proof (induction cs arbitrary: s)
  case (Cons c cs)
  obtain t where "consoleintr me (uint c) s = Ok t" "cons_ok t" "cons_view t = type_char (uint c) (cons_view s)"
    using consoleintr_view [OF Cons.prems] by blast
  then show ?case using Cons.IH [of t] by simp
qed simp

text \<open>C15: Typing is a line editor: from any well-formed state of the console, an interrupt of the serial port with any
  input completes in a well-formed state (the indices in order, at most \<open>INPUT_BUF_SIZE\<close> bytes
  between them although they wrap around, no finished line among the bytes being edited), and each byte acts on the pair of
  finished input and current line the way an editor does: backspace removes the last byte of the current line
  only, control-U all of it, newline, control-D and a full buffer finish the line.\<close>

theorem console_is_line_editor:
  assumes "cons_ok s"
  shows "\<exists>t. uartintr me idle input s = Ok t \<and> cons_ok t \<and> cons_view t = fold (\<lambda>b. type_char (uint b)) input (cons_view s)"
proof -
  let ?s = "if idle then wakeup UartChan me (s\<lparr>tx_busy := 0\<rparr>) else s"
  have "cons_same s ?s" by (simp add: cons_same_def)
  then show ?thesis using uartintr_input_view [of ?s me input] cons_sameD [of s ?s] assms by (simp add: uartintr_def)
qed

text \<open>An empty console whose counters are about to wrap around.\<close>

definition fresh_console :: "kcons \<Rightarrow> kcons" where
  "fresh_console s = s\<lparr>cons_buf := replicate 128 0, cons_r := 0xFFFFFFFE, cons_w := 0xFFFFFFFE, cons_e := 0xFFFFFFFE\<rparr>"

theorem console_is_line_editor_witness:
  "\<forall>s. \<exists>t. uartintr None False [97, 98, 8, 99, 13, 100] (fresh_console s) = Ok t \<and> cons_view t = ([97, 99, 10], [100])"
proof
  fix s :: kcons
  have v: "cons_view (fresh_console s) = ([], [])" by (simp add: fresh_console_def cons_view_def cons_queue_def)
  have "cons_ok (fresh_console s)" unfolding cons_ok_def v by (simp add: fresh_console_def INPUT_BUF_SIZE_def)
  from console_is_line_editor [OF this, of None False "[97, 98, 8, 99, 13, 100]"]
  show "\<exists>t. uartintr None False [97, 98, 8, 99, 13, 100] (fresh_console s) = Ok t \<and> cons_view t = ([97, 99, 10], [100])"
    by (auto simp: v type_char_def ctrl_def INPUT_BUF_SIZE_def)
qed

end
