(* ===== verification/Asm.thy ===== *)
theory Asm
  imports Riscv
begin

text \<open>
  The assembly routines of the kernel (\<open>src/kernel/entry.S\<close>, \<open>swtch.S\<close>, \<open>trampoline.S\<close>,
  \<open>kernelvec.S\<close>) as programs of the few instructions they use, with the machine-mode start-up code of
  \<open>src/kernel/start.c\<close>. Address translation is an argument: it takes the value of \<open>satp\<close> and a virtual address
  and gives the physical address, or \<open>None\<close> where the access would fault. A run ends at the instruction that
  leaves the routine.
\<close>

section \<open>Registers and instructions\<close>

datatype reg = ZERO | RA | SP | GP | TP | T0 | T1 | T2 | S0 | S1 | A0 | A1 | A2 | A3 | A4 | A5 | A6 | A7
  | S2 | S3 | S4 | S5 | S6 | S7 | S8 | S9 | S10 | S11 | T3 | T4 | T5 | T6

datatype csrname = SSCRATCH | SATP | SEPC | SIE | STIMECMP | TIME | MHARTID | MSTATUS | MEPC | MEDELEG | MIDELEG | MIE
  | MENVCFG | MCOUNTEREN | PMPADDR0 | PMPCFG0

datatype insn = Sd reg nat reg | Ld reg nat reg | Addi reg reg int | Li reg uint64 | Mul reg reg reg | Add reg reg reg
  | Csrw csrname reg | Csrr reg csrname | Sfence | Jalr reg uint64 | Call uint64 uint64 | Ret | Sret

text \<open>Where a routine goes: to an address of the same mode, or by \<open>sret\<close> or \<open>mret\<close> to the saved program counter.\<close>

datatype leave = Jump uint64 | Sret_to uint64 | Mret_to uint64

record hart =
  regs :: "reg \<Rightarrow> uint64"
  csrs :: "csrname \<Rightarrow> uint64"
  hmem :: memory

type_synonym mmu = "uint64 \<Rightarrow> addr \<Rightarrow> addr option"

definition getr :: "reg \<Rightarrow> hart \<Rightarrow> uint64" where
  "getr r h = (if r = ZERO then 0 else regs h r)"

definition setr :: "reg \<Rightarrow> uint64 \<Rightarrow> hart \<Rightarrow> hart" where
  "setr r v h = h\<lparr>regs := (regs h)(r := v)\<rparr>"

text \<open>\<open>Jalr\<close> and \<open>Call\<close> carry the address behind them, which becomes the return address.\<close>

fun run :: "mmu \<Rightarrow> insn list \<Rightarrow> hart \<Rightarrow> (leave \<times> hart) option" where
  "run tr [] h = None"
| "run tr (i # is) h = (case i of
     Sd r off b \<Rightarrow> (case tr (csrs h SATP) (getr b h + of_nat off) of None \<Rightarrow> None
       | Some pa \<Rightarrow> run tr is (h\<lparr>hmem := store64 (hmem h) pa (getr r h)\<rparr>))
   | Ld r off b \<Rightarrow> (case tr (csrs h SATP) (getr b h + of_nat off) of None \<Rightarrow> None
       | Some pa \<Rightarrow> run tr is (setr r (load64 (hmem h) pa) h))
   | Addi d r c \<Rightarrow> run tr is (setr d (getr r h + of_int c) h)
   | Li d c \<Rightarrow> run tr is (setr d c h)
   | Mul d r q \<Rightarrow> run tr is (setr d (getr r h * getr q h) h)
   | Add d r q \<Rightarrow> run tr is (setr d (getr r h + getr q h) h)
   | Csrw c r \<Rightarrow> run tr is (h\<lparr>csrs := (csrs h)(c := getr r h)\<rparr>)
   | Csrr d c \<Rightarrow> run tr is (setr d (csrs h c) h)
   | Sfence \<Rightarrow> run tr is h
   | Jalr r link \<Rightarrow> Some (Jump (getr r h), setr RA link h)
   | Call pc link \<Rightarrow> Some (Jump pc, setr RA link h)
   | Ret \<Rightarrow> Some (Jump (regs h RA), h)
   | Sret \<Rightarrow> Some (Sret_to (csrs h SEPC), h))"

section \<open>The routines\<close>

definition entry :: "uint64 \<Rightarrow> uint64 \<Rightarrow> uint64 \<Rightarrow> insn list" where
  "entry stack0 start spin =
    [Li SP stack0, Li A0 (1024 * 4), Csrr A1 MHARTID, Addi A1 A1 1, Mul A0 A0 A1, Add SP SP A0, Call start spin]"

definition swtch :: "insn list" where
  "swtch =
    [Sd RA 0 A0, Sd SP 8 A0, Sd S0 16 A0, Sd S1 24 A0, Sd S2 32 A0, Sd S3 40 A0, Sd S4 48 A0, Sd S5 56 A0,
     Sd S6 64 A0, Sd S7 72 A0, Sd S8 80 A0, Sd S9 88 A0, Sd S10 96 A0, Sd S11 104 A0, Ld RA 0 A1, Ld SP 8 A1,
     Ld S0 16 A1, Ld S1 24 A1, Ld S2 32 A1, Ld S3 40 A1, Ld S4 48 A1, Ld S5 56 A1, Ld S6 64 A1, Ld S7 72 A1,
     Ld S8 80 A1, Ld S9 88 A1, Ld S10 96 A1, Ld S11 104 A1, Ret]"

definition uservec :: "uint64 \<Rightarrow> insn list" where
  "uservec userret_pc =
    [Csrw SSCRATCH A0, Li A0 TRAPFRAME, Sd RA 40 A0, Sd SP 48 A0, Sd GP 56 A0, Sd TP 64 A0,
     Sd T0 72 A0, Sd T1 80 A0, Sd T2 88 A0, Sd S0 96 A0, Sd S1 104 A0, Sd A1 120 A0, Sd A2 128 A0, Sd A3 136 A0,
     Sd A4 144 A0, Sd A5 152 A0, Sd A6 160 A0, Sd A7 168 A0, Sd S2 176 A0, Sd S3 184 A0, Sd S4 192 A0, Sd S5 200 A0,
     Sd S6 208 A0, Sd S7 216 A0, Sd S8 224 A0, Sd S9 232 A0, Sd S10 240 A0, Sd S11 248 A0, Sd T3 256 A0,
     Sd T4 264 A0, Sd T5 272 A0, Sd T6 280 A0, Csrr T0 SSCRATCH, Sd T0 112 A0, Ld SP 8 A0, Ld TP 32 A0,
     Ld T0 16 A0, Ld T1 0 A0, Sfence, Csrw SATP T1, Sfence, Jalr T0 userret_pc]"

definition userret :: "insn list" where
  "userret =
    [Sfence, Csrw SATP A0, Sfence,
     Li A0 TRAPFRAME, Ld RA 40 A0, Ld SP 48 A0, Ld GP 56 A0, Ld TP 64 A0, Ld T0 72 A0, Ld T1 80 A0, Ld T2 88 A0,
     Ld S0 96 A0, Ld S1 104 A0, Ld A1 120 A0, Ld A2 128 A0, Ld A3 136 A0, Ld A4 144 A0, Ld A5 152 A0, Ld A6 160 A0,
     Ld A7 168 A0, Ld S2 176 A0, Ld S3 184 A0, Ld S4 192 A0, Ld S5 200 A0, Ld S6 208 A0, Ld S7 216 A0, Ld S8 224 A0,
     Ld S9 232 A0, Ld S10 240 A0, Ld S11 248 A0, Ld T3 256 A0, Ld T4 264 A0, Ld T5 272 A0, Ld T6 280 A0,
     Ld A0 112 A0, Sret]"

text \<open>\<open>kernelvec\<close> up to the call of \<open>kerneltrap\<close>, and from there on.\<close>

definition kernelvec :: "uint64 \<Rightarrow> uint64 \<Rightarrow> insn list" where
  "kernelvec kerneltrap link =
    [Addi SP SP (-256), Sd RA 0 SP, Sd GP 16 SP, Sd TP 24 SP, Sd T0 32 SP, Sd T1 40 SP, Sd T2 48 SP, Sd A0 72 SP,
     Sd A1 80 SP, Sd A2 88 SP, Sd A3 96 SP, Sd A4 104 SP, Sd A5 112 SP, Sd A6 120 SP, Sd A7 128 SP, Sd T3 216 SP,
     Sd T4 224 SP, Sd T5 232 SP, Sd T6 240 SP, Call kerneltrap link]"

definition kernelvec_return :: "insn list" where
  "kernelvec_return =
    [Ld RA 0 SP, Ld GP 16 SP, Ld T0 32 SP, Ld T1 40 SP,
     Ld T2 48 SP, Ld A0 72 SP, Ld A1 80 SP, Ld A2 88 SP, Ld A3 96 SP, Ld A4 104 SP, Ld A5 112 SP, Ld A6 120 SP,
     Ld A7 128 SP, Ld T3 216 SP, Ld T4 224 SP, Ld T5 232 SP, Ld T6 240 SP, Addi SP SP 256, Sret]"

section \<open>Machine-mode start-up\<close>

definition w_csr :: "csrname \<Rightarrow> uint64 \<Rightarrow> hart \<Rightarrow> hart" where
  "w_csr c v h = h\<lparr>csrs := (csrs h)(c := v)\<rparr>"

definition timerinit :: "hart \<Rightarrow> hart" where
  "timerinit h =
     (let h = w_csr MIE (csrs h MIE OR push_bit 5 1) h;
          h = w_csr MENVCFG (csrs h MENVCFG OR push_bit 63 1) h;
          h = w_csr MCOUNTEREN (csrs h MCOUNTEREN OR 2) h
      in w_csr STIMECMP (csrs h TIME + 1000000) h)"

definition start :: "uint64 \<Rightarrow> hart \<Rightarrow> leave \<times> hart" where
  "start main h =
     (let x = (csrs h MSTATUS AND NOT (push_bit 11 3)) OR push_bit 11 1;
          h = w_csr MSTATUS x h;
          h = w_csr MEPC main h;
          h = w_csr SATP 0 h;
          h = w_csr MEDELEG 0xffff h;
          h = w_csr MIDELEG 0xffff h;
          h = w_csr SIE (csrs h SIE OR push_bit 9 1 OR push_bit 5 1) h;
          h = w_csr PMPADDR0 0x3fffffffffffff h;
          h = w_csr PMPCFG0 0xf h;
          h = timerinit h;
          h = setr TP (scast (ucast (csrs h MHARTID) :: uint32)) h
      in (Mret_to (csrs h MEPC), h))"

section \<open>Saving and restoring\<close>

text \<open>The effect of a sequence of stores, and of loads, of registers at offsets from \<open>p\<close>.\<close>

definition stores :: "addr \<Rightarrow> (reg \<times> nat) list \<Rightarrow> (reg \<Rightarrow> uint64) \<Rightarrow> memory \<Rightarrow> memory" where
  "stores p xs f m = fold (\<lambda>(r, off) m. store64 m (p + of_nat off) (f r)) xs m"

definition loads :: "addr \<Rightarrow> (reg \<times> nat) list \<Rightarrow> memory \<Rightarrow> (reg \<Rightarrow> uint64) \<Rightarrow> reg \<Rightarrow> uint64" where
  "loads p xs m f = fold (\<lambda>(r, off) f. f(r := load64 m (p + of_nat off))) xs f"

definition maps :: "mmu \<Rightarrow> uint64 \<Rightarrow> addr \<Rightarrow> addr \<Rightarrow> nat \<Rightarrow> bool" where
  "maps tr st va pa n \<longleftrightarrow> aligned8 pa \<and> (\<forall>off<n. tr st (va + of_nat off) = Some (pa + of_nat off))"

text \<open>A table of slots: different registers at different doublewords of a block of \<open>n\<close> bytes.\<close>

definition slots :: "nat \<Rightarrow> (reg \<times> nat) list \<Rightarrow> bool" where
  "slots n xs \<longleftrightarrow> distinct (map fst xs) \<and> distinct (map snd xs) \<and> n \<le> 4096 \<and>
     (\<forall>(r, off)\<in>set xs. r \<noteq> ZERO \<and> off < n \<and> off mod 8 = 0)"

lemma run_stores:
  assumes "\<forall>(r, off)\<in>set xs. r \<noteq> ZERO \<and> tr (csrs h SATP) (getr b h + of_nat off) = Some (p + of_nat off)"
  shows "run tr (map (\<lambda>(r, off). Sd r off b) xs @ is) h = run tr is (h\<lparr>hmem := stores p xs (regs h) (hmem h)\<rparr>)"
  using assms
proof (induction xs arbitrary: h)
  case (Cons x xs)
  obtain r off where x: "x = (r, off)" by (cases x)
  let ?h = "h\<lparr>hmem := store64 (hmem h) (p + of_nat off) (regs h r)\<rparr>"
  have "run tr (map (\<lambda>(r, off). Sd r off b) (x # xs) @ is) h = run tr (map (\<lambda>(r, off). Sd r off b) xs @ is) ?h"
    using Cons.prems by (simp add: x getr_def)
  also have "\<dots> = run tr is (?h\<lparr>hmem := stores p xs (regs ?h) (hmem ?h)\<rparr>)"
    using Cons.prems by (intro Cons.IH) (auto simp: getr_def)
  finally show ?case by (simp add: x stores_def)
qed (simp add: stores_def)

lemma run_loads:
  assumes "b \<notin> fst ` set xs" "\<forall>(r, off)\<in>set xs. tr (csrs h SATP) (getr b h + of_nat off) = Some (p + of_nat off)"
  shows "run tr (map (\<lambda>(r, off). Ld r off b) xs @ is) h = run tr is (h\<lparr>regs := loads p xs (hmem h) (regs h)\<rparr>)"
  using assms
proof (induction xs arbitrary: h)
  case (Cons x xs)
  obtain r off where x: "x = (r, off)" by (cases x)
  let ?h = "setr r (load64 (hmem h) (p + of_nat off)) h"
  have "run tr (map (\<lambda>(r, off). Ld r off b) (x # xs) @ is) h = run tr (map (\<lambda>(r, off). Ld r off b) xs @ is) ?h"
    using Cons.prems by (simp add: x)
  also have "\<dots> = run tr is (?h\<lparr>regs := loads p xs (hmem ?h) (regs ?h)\<rparr>)"
    using Cons.prems by (intro Cons.IH) (auto simp: getr_def setr_def x)
  finally show ?case by (simp add: x loads_def setr_def)
qed (simp add: loads_def)

lemma loads_other: "r \<notin> fst ` set xs \<Longrightarrow> loads p xs m f r = f r"
  by (induction xs arbitrary: f) (auto simp: loads_def)

lemma loads_slot: "distinct (map fst xs) \<Longrightarrow> (r, off) \<in> set xs \<Longrightarrow> loads p xs m f r = load64 m (p + of_nat off)"
proof (induction xs arbitrary: f)
  case (Cons x xs)
  then show ?case using loads_other [of r xs p m] by (cases x) (force simp: loads_def)
qed simp

lemma aligned8_off:
  assumes "aligned8 p" "off mod 8 = 0"
  shows "aligned8 (p + of_nat off)"
proof -
  have "unat (p + of_nat off) = (unat p + off) mod 2 ^ 64"
    by (simp add: unat_word_ariths unat_of_nat take_bit_eq_mod mod_add_right_eq)
  then have "unat (p + of_nat off) mod 8 = (unat p + off) mod 8" by (simp add: mod_mod_cancel)
  also have "\<dots> = 0" using assms by (simp add: aligned8_def mod_add_eq [symmetric])
  finally show ?thesis by (simp add: aligned8_def)
qed

lemma offset_inj: "i < 4096 \<Longrightarrow> j < 4096 \<Longrightarrow> (p :: addr) + of_nat i = p + of_nat j \<longleftrightarrow> i = j"
  by (auto dest: arg_cong [where f = unat] simp: unat_of_nat_64)

lemma stores_other:
  "aligned8 p \<Longrightarrow> \<forall>(r, off)\<in>set xs. off mod 8 = 0 \<and> a \<noteq> p + of_nat off \<Longrightarrow> aligned8 a \<Longrightarrow> load64 (stores p xs f m) a = load64 m a"
  by (induction xs arbitrary: m) (auto simp: stores_def aligned8_off)

lemma stores_slot:
  assumes "aligned8 p" "slots n xs" "(r, off) \<in> set xs"
  shows "load64 (stores p xs f m) (p + of_nat off) = f r"
  using assms(2,3)
proof (induction xs arbitrary: m)
  case (Cons x xs)
  obtain q o2 where x: "x = (q, o2)" by (cases x)
  have sl: "slots n xs" using Cons.prems(1) by (auto simp: slots_def)
  show ?case
  proof (cases "(r, off) \<in> set xs")
    case True
    then show ?thesis using Cons.IH [OF sl, of "store64 m (p + of_nat o2) (f q)"] by (simp add: x stores_def)
  next
    case False
    then have e: "q = r" "o2 = off" using Cons.prems(2) x by auto
    have "p + of_nat off \<noteq> p + of_nat o3" if "(r3, o3) \<in> set xs" for r3 o3
    proof -
      have "off \<noteq> o3" "off < 4096" "o3 < 4096"
        using that Cons.prems(1) x e image_eqI [of o3 snd "(r3, o3)" "set xs"] by (auto simp: slots_def)
      then show ?thesis using offset_inj by blast
    qed
    then have "load64 (stores p xs f (store64 m (p + of_nat off) (f r))) (p + of_nat off) = f r"
      using Cons.prems(1) x e assms(1) by (subst stores_other) (auto simp: slots_def aligned8_off)
    then show ?thesis using x e by (simp add: stores_def)
  qed
qed simp

lemma stores_append: "stores p (xs @ ys) f m = stores p ys f (stores p xs f m)"
  by (simp add: stores_def)

lemma stores_cong: "(\<And>r off. (r, off) \<in> set xs \<Longrightarrow> f r = g r) \<Longrightarrow> stores p xs f m = stores p xs g m"
  unfolding stores_def by (rule List.fold_cong) auto

lemma mapsD: "maps tr st va pa n \<Longrightarrow> slots n xs \<Longrightarrow>
    \<forall>(r, off)\<in>set xs. r \<noteq> ZERO \<and> tr st (va + of_nat off) = Some (pa + of_nat off)"
  by (auto simp: maps_def slots_def)

section \<open>Switching between kernel threads\<close>

text \<open>The fields of \<open>struct context\<close> in the order of its declaration.\<close>

definition context_slots :: "(reg \<times> nat) list" where
  "context_slots = [(RA, 0), (SP, 8), (S0, 16), (S1, 24), (S2, 32), (S3, 40), (S4, 48), (S5, 56), (S6, 64), (S7, 72),
     (S8, 80), (S9, 88), (S10, 96), (S11, 104)]"

lemma swtch_eq: "swtch = map (\<lambda>(r, off). Sd r off A0) context_slots @ map (\<lambda>(r, off). Ld r off A1) context_slots @ [Ret]"
  by (simp add: swtch_def context_slots_def)

lemma context_slots_ok: "slots 112 context_slots"
  by (simp add: slots_def context_slots_def)

definition ctx_apart :: "addr \<Rightarrow> addr \<Rightarrow> bool" where
  "ctx_apart c n \<longleftrightarrow> (\<forall>i<112. \<forall>j<112. c + of_nat i \<noteq> n + of_nat j)"

lemma swtch_effect:
  assumes old: "maps tr (csrs h SATP) (regs h A0) c 112" and new: "maps tr (csrs h SATP) (regs h A1) n 112" and ap: "ctx_apart c n"
  shows "run tr swtch h = Some (Jump (load64 (hmem h) n),
     h\<lparr>hmem := stores c context_slots (regs h) (hmem h), regs := loads n context_slots (hmem h) (regs h)\<rparr>)"
proof -
  let ?m = "stores c context_slots (regs h) (hmem h)" and ?xs = context_slots
  note D = mapsD [OF old context_slots_ok] and E = mapsD [OF new context_slots_ok]
  have ld: "load64 ?m (n + of_nat off) = load64 (hmem h) (n + of_nat off)" if "(r, off) \<in> set ?xs" for r off
  proof (rule stores_other)
    have o: "o2 < 112" "o2 mod 8 = 0" if "(r2, o2) \<in> set ?xs" for r2 o2 using that context_slots_ok by (auto simp: slots_def)
    show "aligned8 c" using old by (simp add: maps_def)
    show "aligned8 (n + of_nat off)" using new o [OF that] by (simp add: maps_def aligned8_off)
    have "n + of_nat off \<noteq> c + of_nat o2" if "o2 < 112" for o2 using ap that o(1) [OF \<open>(r, off) \<in> set ?xs\<close>] by (metis ctx_apart_def)
    then show "\<forall>(r2, o2)\<in>set ?xs. o2 mod 8 = 0 \<and> n + of_nat off \<noteq> c + of_nat o2" using o by blast
  qed
  then have l: "loads n ?xs ?m f = loads n ?xs (hmem h) f" for f
    unfolding loads_def by (intro List.fold_cong) auto
  have ra: "loads n ?xs (hmem h) f RA = load64 (hmem h) n" for f
    using loads_slot [of ?xs RA 0 n] by (simp add: context_slots_def)
  have b: "A1 \<notin> fst ` set ?xs" by (simp add: context_slots_def)
  have "run tr swtch h = run tr (map (\<lambda>(r, off). Ld r off A1) ?xs @ [Ret]) (h\<lparr>hmem := ?m\<rparr>)"
    unfolding swtch_eq using D by (intro run_stores) (simp add: getr_def)
  also have "\<dots> = run tr [Ret] (h\<lparr>hmem := ?m, regs := loads n ?xs ?m (regs h)\<rparr>)"
    using E b by (subst run_loads [where p = n]) (auto simp: getr_def)
  finally show ?thesis by (simp add: l ra)
qed

text \<open>C14: A thread that gives up the CPU with \<open>swtch\<close> continues exactly where it was: once another \<open>swtch\<close> is given
  the context it was saved in, with those 112 bytes untouched in between, the CPU returns to the address the thread's call was to
  return to, and the stack pointer and every register that a called function has to keep have their old values.\<close>

theorem swtch_resumes:
  assumes out: "maps tr (csrs h SATP) (regs h A0) c 112" "maps tr (csrs h SATP) (regs h A1) n 112" "ctx_apart c n"
    and again: "maps tr (csrs g SATP) (regs g A0) d 112" "maps tr (csrs g SATP) (regs g A1) c 112" "ctx_apart d c"
  shows "\<exists>k. run tr swtch h = Some (Jump (load64 (hmem h) n), k) \<and>
     ((\<forall>off<112. off mod 8 = 0 \<longrightarrow> load64 (hmem g) (c + of_nat off) = load64 (hmem k) (c + of_nat off)) \<longrightarrow>
      (\<exists>u. run tr swtch g = Some (Jump (regs h RA), u) \<and>
         (\<forall>r\<in>{RA, SP, S0, S1, S2, S3, S4, S5, S6, S7, S8, S9, S10, S11}. regs u r = regs h r)))"
proof (intro exI conjI impI)
  let ?k = "h\<lparr>hmem := stores c context_slots (regs h) (hmem h), regs := loads n context_slots (hmem h) (regs h)\<rparr>"
  let ?u = "g\<lparr>hmem := stores d context_slots (regs g) (hmem g), regs := loads c context_slots (hmem g) (regs g)\<rparr>"
  show "run tr swtch h = Some (Jump (load64 (hmem h) n), ?k)" by (rule swtch_effect [OF out])
  assume same: "\<forall>off<112. off mod 8 = 0 \<longrightarrow> load64 (hmem g) (c + of_nat off) = load64 (hmem ?k) (c + of_nat off)"
  have al: "aligned8 c" using again(2) by (simp add: maps_def)
  have r: "load64 (hmem g) (c + of_nat off) = regs h r" if "(r, off) \<in> set context_slots" for r off
    using that same stores_slot [OF al context_slots_ok that] context_slots_ok by (auto simp: slots_def)
  have "load64 (hmem g) c = regs h RA" using r [of RA 0] by (simp add: context_slots_def)
  then show "run tr swtch g = Some (Jump (regs h RA), ?u)" using swtch_effect [OF again] by simp
  have d: "distinct (map fst context_slots)" using context_slots_ok by (simp add: slots_def)
  have u: "regs ?u r = regs h r" if "(r, off) \<in> set context_slots" for r off
    using loads_slot [OF d that] r [OF that] by simp
  have "\<forall>r\<in>fst ` set context_slots. regs ?u r = regs h r" using u by force
  then show "\<forall>r\<in>{RA, SP, S0, S1, S2, S3, S4, S5, S6, S7, S8, S9, S10, S11}. regs ?u r = regs h r"
    by (simp add: context_slots_def)
qed

definition idle_hart :: hart where
  "idle_hart = \<lparr>regs = (\<lambda>r. if r = A0 then 4096 else if r = A1 then 8192 else if r = SP then 77 else 5), csrs = (\<lambda>_. 0), hmem = (\<lambda>_. 0)\<rparr>"

theorem swtch_resumes_witness:
  "\<exists>t k u. run (\<lambda>_. Some) swtch idle_hart = Some (t, k) \<and>
     run (\<lambda>_. Some) swtch (k\<lparr>regs := (regs k)(A0 := 8192, A1 := 4096)\<rparr>) = Some (Jump 5, u) \<and> regs u SP = 77"
proof -
  have ap: "ctx_apart 4096 8192" "ctx_apart 8192 4096"
    by (auto simp: ctx_apart_def dest!: arg_cong [where f = unat] simp: unat_word_ariths unat_of_nat)
  have m: "maps (\<lambda>_. Some) st a a 112" if "a = 4096 \<or> a = 8192" for st a
    using that by (auto simp: maps_def aligned8_def)
  let ?k = "idle_hart\<lparr>hmem := stores 4096 context_slots (regs idle_hart) (hmem idle_hart),
    regs := loads 8192 context_slots (hmem idle_hart) (regs idle_hart)\<rparr>"
  let ?g = "?k\<lparr>regs := (regs ?k)(A0 := 8192, A1 := 4096)\<rparr>"
  have r: "run (\<lambda>_. Some) swtch idle_hart = Some (Jump (load64 (hmem idle_hart) 8192), ?k)"
    using swtch_effect [of "\<lambda>_. Some" idle_hart 4096 8192] m ap by (simp add: idle_hart_def)
  have "\<exists>k. run (\<lambda>_. Some) swtch idle_hart = Some (Jump (load64 (hmem idle_hart) 8192), k) \<and>
     ((\<forall>off<112. off mod 8 = 0 \<longrightarrow> load64 (hmem ?g) (4096 + of_nat off) = load64 (hmem k) (4096 + of_nat off)) \<longrightarrow>
      (\<exists>u. run (\<lambda>_. Some) swtch ?g = Some (Jump (regs idle_hart RA), u) \<and>
         (\<forall>r\<in>{RA, SP, S0, S1, S2, S3, S4, S5, S6, S7, S8, S9, S10, S11}. regs u r = regs idle_hart r)))"
    by (rule swtch_resumes [where d = 8192]) (simp_all add: m ap, simp_all add: idle_hart_def m)
  then show ?thesis using r by (fastforce simp: idle_hart_def)
qed

section \<open>Traps from user space\<close>

text \<open>The user registers in \<open>struct trapframe\<close>; \<open>a0\<close> comes last, as the code saves and restores it.\<close>

definition trapframe_slots :: "(reg \<times> nat) list" where
  "trapframe_slots = [(RA, 40), (SP, 48), (GP, 56), (TP, 64), (T0, 72), (T1, 80), (T2, 88), (S0, 96), (S1, 104), (A1, 120), (A2, 128),
     (A3, 136), (A4, 144), (A5, 152), (A6, 160), (A7, 168), (S2, 176), (S3, 184), (S4, 192), (S5, 200), (S6, 208), (S7, 216), (S8, 224),
     (S9, 232), (S10, 240), (S11, 248), (T3, 256), (T4, 264), (T5, 272), (T6, 280)]"

abbreviation user_slots :: "(reg \<times> nat) list" where
  "user_slots \<equiv> trapframe_slots @ [(A0, 112)]"

lemma user_slots_ok: "slots 288 user_slots" "slots 288 trapframe_slots"
  by (simp_all add: slots_def trapframe_slots_def)

lemma user_slots_all: "fst ` set user_slots = - {ZERO}"
proof -
  have "r \<in> fst ` set user_slots \<longleftrightarrow> r \<noteq> ZERO" for r by (cases r) (simp_all add: trapframe_slots_def)
  then show ?thesis by blast
qed

lemma uservec_eq: "uservec pc = [Csrw SSCRATCH A0, Li A0 TRAPFRAME] @ map (\<lambda>(r, off). Sd r off A0) trapframe_slots @
   [Csrr T0 SSCRATCH, Sd T0 112 A0] @ map (\<lambda>(r, off). Ld r off A0) [(SP, 8), (TP, 32), (T0, 16), (T1, 0)] @
   [Sfence, Csrw SATP T1, Sfence, Jalr T0 pc]"
  by (simp add: uservec_def trapframe_slots_def)

lemma userret_eq: "userret = [Sfence, Csrw SATP A0, Sfence, Li A0 TRAPFRAME] @ map (\<lambda>(r, off). Ld r off A0) trapframe_slots @
   [Ld A0 112 A0, Sret]"
  by (simp add: userret_def trapframe_slots_def)

lemma uservec_effect:
  assumes tf: "maps tr (csrs h SATP) TRAPFRAME tf 288"
  defines "m \<equiv> stores tf user_slots (regs h) (hmem h)"
  shows "\<exists>k. run tr (uservec pc) h = Some (Jump (load64 (hmem h) (tf + 16)), k) \<and> hmem k = m \<and> regs k RA = pc \<and>
     regs k SP = load64 (hmem h) (tf + 8) \<and> regs k TP = load64 (hmem h) (tf + 32) \<and> csrs k SATP = load64 (hmem h) tf \<and> csrs k SEPC = csrs h SEPC"
proof -
  let ?g = "setr A0 TRAPFRAME (h\<lparr>csrs := (csrs h)(SSCRATCH := regs h A0)\<rparr>)"
  let ?m = "stores tf trapframe_slots (regs h) (hmem h)"
  have al: "aligned8 tf" and t: "tr (csrs h SATP) (TRAPFRAME + of_nat off) = Some (tf + of_nat off)" if "off < 288" for off
    using tf that by (simp_all add: maps_def)
  have f: "stores tf trapframe_slots (regs ?g) (hmem ?g) = ?m"
    by (simp add: setr_def, rule stores_cong) (auto simp: trapframe_slots_def)
  have m: "m = store64 ?m (tf + 112) (regs h A0)" by (simp add: m_def stores_def)
  have same: "load64 m (tf + of_nat off) = load64 (hmem h) (tf + of_nat off)" if "off < 40" "off mod 8 = 0" for off
  proof -
    have ne: "tf + of_nat off \<noteq> tf + of_nat o2 \<and> o2 mod 8 = 0" if "(r, o2) \<in> set user_slots" for r o2
      using that \<open>off < 40\<close> offset_inj [of off o2 tf] by (auto simp: trapframe_slots_def)
    show ?thesis unfolding m_def
    proof (rule stores_other)
      show "\<forall>(r, o2)\<in>set user_slots. o2 mod 8 = 0 \<and> tf + of_nat off \<noteq> tf + of_nat o2" using ne by blast
    qed (use al [of 0] that in \<open>simp_all add: aligned8_off\<close>)
  qed
  have "run tr (uservec pc) h = run tr (map (\<lambda>(r, off). Sd r off A0) trapframe_slots @ [Csrr T0 SSCRATCH, Sd T0 112 A0] @
      map (\<lambda>(r, off). Ld r off A0) [(SP, 8), (TP, 32), (T0, 16), (T1, 0)] @ [Sfence, Csrw SATP T1, Sfence, Jalr T0 pc]) ?g"
    unfolding uservec_eq by (simp add: getr_def)
  also have "\<dots> = run tr ([Csrr T0 SSCRATCH, Sd T0 112 A0] @
      map (\<lambda>(r, off). Ld r off A0) [(SP, 8), (TP, 32), (T0, 16), (T1, 0)] @ [Sfence, Csrw SATP T1, Sfence, Jalr T0 pc]) (?g\<lparr>hmem := ?m\<rparr>)"
    unfolding f [symmetric] using user_slots_ok(2) t by (intro run_stores) (auto simp: slots_def getr_def setr_def)
  finally show ?thesis
    using t [of 112] t [of 8] t [of 32] t [of 16] t [of 0] same [of 8] same [of 32] same [of 16] same [of 0]
    by (simp add: getr_def setr_def m [symmetric])
qed

lemma userret_effect:
  assumes tf: "maps tr (regs g A0) TRAPFRAME tf 288"
  shows "\<exists>u. run tr userret g = Some (Sret_to (csrs g SEPC), u) \<and> hmem u = hmem g \<and> csrs u SATP = regs g A0 \<and>
     (\<forall>(r, off)\<in>set user_slots. regs u r = load64 (hmem g) (tf + of_nat off))"
proof -
  let ?g = "setr A0 TRAPFRAME (g\<lparr>csrs := (csrs g)(SATP := regs g A0)\<rparr>)"
  let ?f = "loads tf trapframe_slots (hmem g) (regs ?g)"
  have t: "tr (regs g A0) (TRAPFRAME + of_nat off) = Some (tf + of_nat off)" if "off < 288" for off
    using tf that by (simp add: maps_def)
  have gm: "hmem ?g = hmem g" by (simp add: setr_def)
  have n: "A0 \<notin> fst ` set trapframe_slots" "distinct (map fst trapframe_slots)" by (simp_all add: trapframe_slots_def)
  have "run tr userret g = run tr (map (\<lambda>(r, off). Ld r off A0) trapframe_slots @ [Ld A0 112 A0, Sret]) ?g"
    unfolding userret_eq by (simp add: getr_def)
  also have "\<dots> = run tr [Ld A0 112 A0, Sret] (?g\<lparr>regs := ?f\<rparr>)"
    unfolding gm [symmetric] by (rule run_loads [OF n(1)])
      (use user_slots_ok(2) t in \<open>auto simp: slots_def getr_def setr_def\<close>)
  also have "\<dots> = Some (Sret_to (csrs g SEPC), ?g\<lparr>regs := ?f(A0 := load64 (hmem g) (tf + 112))\<rparr>)"
    using t [of 112] loads_other [OF n(1)] by (simp add: getr_def setr_def)
  finally show ?thesis
    using loads_slot [OF n(2)] n(1) by (auto simp: setr_def) (metis fst_conv image_eqI)
qed

text \<open>C13: No user register is lost in a trap: \<open>uservec\<close>, entered with any register contents, reaches the handler named in the trapframe
  on the kernel stack, with the kernel's page table and hart number, and has changed no memory but the
  trapframe's part for registers; whatever the kernel does then, \<open>userret\<close>, given the user page table, returns to the saved program counter with every
  register except the constant zero equal to its word of the trapframe, and so to its value at the trap unless
  the kernel has replaced that word (the result of a system call in \<open>a0\<close>).\<close>

theorem user_registers_survive_trap:
  assumes tf: "maps tr (csrs h SATP) TRAPFRAME tf 288" "maps tr (regs g A0) TRAPFRAME tf 288"
  shows "fst ` set user_slots = - {ZERO} \<and>
    (\<exists>k u. run tr (uservec pc) h = Some (Jump (load64 (hmem h) (tf + 16)), k) \<and> regs k RA = pc \<and>
       regs k SP = load64 (hmem h) (tf + 8) \<and> regs k TP = load64 (hmem h) (tf + 32) \<and> csrs k SATP = load64 (hmem h) tf \<and>
       (\<forall>a. aligned8 a \<longrightarrow> a \<notin> (\<lambda>off. tf + of_nat off) ` {40..<288} \<longrightarrow> load64 (hmem k) a = load64 (hmem h) a) \<and>
       run tr userret g = Some (Sret_to (csrs g SEPC), u) \<and> csrs u SATP = regs g A0 \<and> hmem u = hmem g \<and>
       (\<forall>(r, off)\<in>set user_slots. regs u r = load64 (hmem g) (tf + of_nat off) \<and>
          (load64 (hmem g) (tf + of_nat off) = load64 (hmem k) (tf + of_nat off) \<longrightarrow> regs u r = regs h r)))"
proof -
  have al: "aligned8 tf" using tf(1) by (simp add: maps_def)
  obtain k where k: "run tr (uservec pc) h = Some (Jump (load64 (hmem h) (tf + 16)), k)" "regs k RA = pc"
    "hmem k = stores tf user_slots (regs h) (hmem h)" "regs k SP = load64 (hmem h) (tf + 8)"
    "regs k TP = load64 (hmem h) (tf + 32)" "csrs k SATP = load64 (hmem h) tf"
    using uservec_effect [OF tf(1)] by blast
  obtain u where u: "run tr userret g = Some (Sret_to (csrs g SEPC), u)" "hmem u = hmem g" "csrs u SATP = regs g A0"
    "\<forall>(r, off)\<in>set user_slots. regs u r = load64 (hmem g) (tf + of_nat off)"
    using userret_effect [OF tf(2)] by blast
  have "load64 (hmem k) a = load64 (hmem h) a" if "aligned8 a" "a \<notin> (\<lambda>off. tf + of_nat off) ` {40..<288}" for a
  proof -
    have "off mod 8 = 0 \<and> a \<noteq> tf + of_nat off" if "(r, off) \<in> set user_slots" for r off
    proof -
      have "off \<in> {40..<288}" "off mod 8 = 0" using that by (auto simp: trapframe_slots_def)
      then show ?thesis using \<open>a \<notin> _\<close> by blast
    qed
    then show ?thesis unfolding k(3) using that(1) by (intro stores_other al) blast+
  qed
  moreover have "load64 (hmem k) (tf + of_nat off) = regs h r" if "(r, off) \<in> set user_slots" for r off
    unfolding k(3) by (rule stores_slot [OF al user_slots_ok(1) that])
  ultimately show ?thesis using user_slots_all k(1,2,4-6) u by (intro conjI exI) fastforce+
qed

theorem user_registers_survive_trap_witness:
  "\<exists>k u. run (\<lambda>_ a. Some (a - TRAPFRAME + 4096)) (uservec 99) idle_hart = Some (Jump 0, k) \<and>
     run (\<lambda>_ a. Some (a - TRAPFRAME + 4096)) userret (k\<lparr>regs := (regs k)(SP := 0)\<rparr>) = Some (Sret_to 0, u) \<and>
     regs u SP = 77 \<and> regs u A0 = 4096"
proof -
  let ?tr = "\<lambda>_ a. Some (a - TRAPFRAME + 4096)"
  have m: "maps ?tr st TRAPFRAME 4096 288" for st by (simp add: maps_def aligned8_def)
  have z: "load64 (hmem idle_hart) a = 0" for a by (simp add: idle_hart_def load64_def load_bytes_def upt_rec)
  obtain k where k: "run ?tr (uservec 99) idle_hart = Some (Jump 0, k)" "csrs k SEPC = csrs idle_hart SEPC"
    using uservec_effect [where h = idle_hart and pc = 99, OF m] by (auto simp: z)
  have s: "(SP, 48) \<in> set user_slots" "(A0, 112) \<in> set user_slots" by (simp_all add: trapframe_slots_def)
  let ?g = "k\<lparr>regs := (regs k)(SP := 0)\<rparr>"
  from user_registers_survive_trap [where h = idle_hart and pc = 99 and g = ?g and tf = 4096, OF m m]
  obtain k' u where u: "run ?tr (uservec 99) idle_hart = Some (Jump (load64 (hmem idle_hart) (4096 + 16)), k')"
      "run ?tr userret ?g = Some (Sret_to (csrs ?g SEPC), u)"
    and r: "\<forall>(r, off)\<in>set user_slots. regs u r = load64 (hmem ?g) (4096 + of_nat off) \<and>
      (load64 (hmem ?g) (4096 + of_nat off) = load64 (hmem k') (4096 + of_nat off) \<longrightarrow> regs u r = regs idle_hart r)" by blast
  have "k' = k" using u(1) k(1) by simp
  then have "regs u SP = regs idle_hart SP" "regs u A0 = regs idle_hart A0"
    using bspec [OF r s(1)] bspec [OF r s(2)] by auto
  then show ?thesis using k u(2) by (auto simp: idle_hart_def)
qed

section \<open>Traps in the kernel\<close>

definition kernelvec_slots :: "(reg \<times> nat) list" where
  "kernelvec_slots = [(RA, 0), (GP, 16), (T0, 32), (T1, 40), (T2, 48), (A0, 72), (A1, 80), (A2, 88), (A3, 96), (A4, 104),
     (A5, 112), (A6, 120), (A7, 128), (T3, 216), (T4, 224), (T5, 232), (T6, 240)]"

lemma kernelvec_slots_ok: "slots 256 kernelvec_slots" "distinct (map fst kernelvec_slots)"
  by (simp_all add: slots_def kernelvec_slots_def)

lemma kernelvec_stores:
  "kernelvec pc link = Addi SP SP (-256) # map (\<lambda>(r, off). Sd r off SP) (take 2 kernelvec_slots @ (TP, 24) # drop 2 kernelvec_slots) @ [Call pc link]"
  by (simp add: kernelvec_def kernelvec_slots_def)

lemma kernelvec_loads:
  "kernelvec_return = map (\<lambda>(r, off). Ld r off SP) kernelvec_slots @ [Addi SP SP 256, Sret]"
  by (simp add: kernelvec_return_def kernelvec_slots_def)

text \<open>
  An interrupt of kernel code is invisible to it: when the handler keeps what the calling convention
  makes it keep (the stack pointer, \<open>s0\<close> to \<open>s11\<close> and its caller's frame), every register is restored but
  \<open>tp\<close>, which holds the number of the CPU it resumes on.
\<close>

lemma kernelvec_transparent:
  assumes m: "maps tr (csrs h SATP) (regs h SP - 256) fr 256" "maps tr (csrs g SATP) (regs h SP - 256) fr 256"
    and keep: "\<forall>r\<in>{SP, S0, S1, S2, S3, S4, S5, S6, S7, S8, S9, S10, S11}. regs g r = (if r = SP then regs h SP - 256 else regs h r)"
  shows "\<exists>k. run tr (kernelvec pc link) h = Some (Jump pc, k) \<and> regs k SP = regs h SP - 256 \<and> regs k RA = link \<and>
     ((\<forall>off<256. off mod 8 = 0 \<longrightarrow> load64 (hmem g) (fr + of_nat off) = load64 (hmem k) (fr + of_nat off)) \<longrightarrow>
      (\<exists>u. run tr kernelvec_return g = Some (Sret_to (csrs g SEPC), u) \<and> regs u TP = regs g TP \<and>
         (\<forall>r. r \<notin> {ZERO, TP} \<longrightarrow> regs u r = regs h r)))"
proof -
  let ?xs = "take 2 kernelvec_slots @ (TP, 24) # drop 2 kernelvec_slots" and ?h = "setr SP (regs h SP - 256) h"
  let ?k = "setr RA link (?h\<lparr>hmem := stores fr ?xs (regs ?h) (hmem ?h)\<rparr>)"
  have sl: "slots 256 ?xs" by (simp add: slots_def kernelvec_slots_def)
  have al: "aligned8 fr" using m(1) by (simp add: maps_def)
  have "run tr (kernelvec pc link) h = run tr (map (\<lambda>(r, off). Sd r off SP) ?xs @ [Call pc link]) ?h"
    unfolding kernelvec_stores by (simp add: getr_def)
  also have "\<dots> = run tr [Call pc link] (?h\<lparr>hmem := stores fr ?xs (regs ?h) (hmem ?h)\<rparr>)"
    by (rule run_stores) (use mapsD [OF m(1) sl] in \<open>simp add: getr_def setr_def\<close>)
  finally have k: "run tr (kernelvec pc link) h = Some (Jump pc, ?k)" by simp
  have "\<exists>u. run tr kernelvec_return g = Some (Sret_to (csrs g SEPC), u) \<and> regs u TP = regs g TP \<and> (\<forall>r. r \<notin> {ZERO, TP} \<longrightarrow> regs u r = regs h r)"
    if same: "\<forall>off<256. off mod 8 = 0 \<longrightarrow> load64 (hmem g) (fr + of_nat off) = load64 (hmem ?k) (fr + of_nat off)"
  proof -
    let ?f = "loads fr kernelvec_slots (hmem g) (regs g)"
    have b: "SP \<notin> fst ` set kernelvec_slots" "TP \<notin> fst ` set kernelvec_slots" by (simp_all add: kernelvec_slots_def)
    have sp: "getr SP g = regs h SP - 256" using keep by (simp add: getr_def)
    have "run tr kernelvec_return g = run tr [Addi SP SP 256, Sret] (g\<lparr>regs := ?f\<rparr>)"
      unfolding kernelvec_loads by (rule run_loads [OF b(1)]) (use mapsD [OF m(2) kernelvec_slots_ok(1)] in \<open>auto simp: sp\<close>)
    also have "\<dots> = Some (Sret_to (csrs g SEPC), g\<lparr>regs := ?f(SP := regs h SP)\<rparr>)"
      using loads_other [OF b(1)] sp by (simp add: getr_def setr_def)
    finally have u: "run tr kernelvec_return g = Some (Sret_to (csrs g SEPC), g\<lparr>regs := ?f(SP := regs h SP)\<rparr>)" .
    have "?f r = regs h r" if "(r, off) \<in> set kernelvec_slots" for r off
    proof -
      have "(r, off) \<in> set ?xs" "off < 256" "off mod 8 = 0" "r \<noteq> SP" using that by (auto simp: kernelvec_slots_def)
      then show ?thesis
        using loads_slot [OF kernelvec_slots_ok(2) that] same stores_slot [OF al sl, of r off] by (simp add: setr_def)
    qed
    then have s: "\<forall>r\<in>fst ` set kernelvec_slots. ?f r = regs h r" by force
    have "(?f(SP := regs h SP)) r = regs h r" if "r \<notin> {ZERO, TP}" for r
    proof (cases "r \<in> fst ` set kernelvec_slots")
      case True
      then show ?thesis using s by auto
    next
      case False
      then show ?thesis using that keep loads_other [OF False] by (cases r) (simp_all add: kernelvec_slots_def)
    qed
    then show ?thesis using u loads_other [OF b(2)] by auto
  qed
  then show ?thesis using k by (intro exI [of _ ?k]) (simp add: setr_def)
qed

section \<open>Start-up\<close>

text \<open>Every CPU starts on a stack of its own inside \<open>stack0\<close>, and reaches \<open>main\<close> in supervisor mode.\<close>

lemma entry_stack:
  "run tr (entry stack0 pc spin) h = Some (Jump pc, k) \<Longrightarrow> regs k SP = stack0 + 4096 * (csrs h MHARTID + 1)"
  by (auto simp: entry_def setr_def getr_def algebra_simps)

lemma set_field: "(x AND NOT m OR v) AND m = v AND (m :: uint64)"
  by (auto simp: bit_eq_iff bit_simps)

lemma start_to_main:
  "start main h = (t, k) \<Longrightarrow> t = Mret_to main \<and> csrs k SATP = 0 \<and>
     regs k TP = scast (ucast (csrs h MHARTID) :: uint32) \<and> csrs k MSTATUS AND push_bit 11 3 = push_bit 11 1"
  using set_field [of "csrs h MSTATUS" "push_bit 11 3" "push_bit 11 1"]
  by (auto simp: start_def timerinit_def w_csr_def setr_def Let_def)

end
