(* ===== verification/Spinlock.thy ===== *)
theory Spinlock
  imports Prelude
begin

text \<open>
  \<open>kernel/spinlock.c\<close>: spin locks and the nesting counter that keeps interrupts off. The
  functions are cut at the points where another CPU can act, \<open>acquire\<close> into its entry, one
  round of the test-and-set loop and the final write of \<open>lk->cpu\<close>, \<open>release\<close> into the part
  before and the part after \<open>__sync_lock_release\<close>; the step relation interleaves them
  on any number of CPUs.
\<close>

section \<open>Locks and CPUs\<close>

record spinlock =
  lk_locked :: int
  lk_name :: string
  lk_cpu :: "nat option"

record cpu =
  noff :: int
  intena :: bool
  intr :: bool

text \<open>The lock table and the CPUs. Locks are named by numbers.\<close>

record lockst =
  locks :: "nat \<Rightarrow> spinlock"
  cpus :: "nat \<Rightarrow> cpu"

definition initlock :: "nat \<Rightarrow> string \<Rightarrow> lockst \<Rightarrow> lockst" where
  "initlock lk name s = s\<lparr>locks := (locks s)(lk := \<lparr>lk_locked = 0, lk_name = name, lk_cpu = None\<rparr>)\<rparr>"

definition holding :: "nat \<Rightarrow> nat \<Rightarrow> lockst \<Rightarrow> bool" where
  "holding c lk s \<longleftrightarrow> lk_locked (locks s lk) \<noteq> 0 \<and> lk_cpu (locks s lk) = Some c"

definition push_off :: "nat \<Rightarrow> lockst \<Rightarrow> lockst" where
  "push_off c s =
     (let old = intr (cpus s c);
          k = (cpus s c)\<lparr>intr := False\<rparr>;
          k = (if noff k = 0 then k\<lparr>intena := old\<rparr> else k)
      in s\<lparr>cpus := (cpus s)(c := k\<lparr>noff := noff k + 1\<rparr>)\<rparr>)"

definition pop_off :: "nat \<Rightarrow> lockst \<Rightarrow> lockst outcome" where
  "pop_off c s =
     (let k = cpus s c in
      if intr k then Panic ''pop_off - interruptible''
      else if noff k < 1 then Panic ''pop_off''
      else let k = k\<lparr>noff := noff k - 1\<rparr>;
               k = (if noff k = 0 \<and> intena k then k\<lparr>intr := True\<rparr> else k)
           in Ok (s\<lparr>cpus := (cpus s)(c := k)\<rparr>))"

definition acquire_enter :: "nat \<Rightarrow> nat \<Rightarrow> lockst \<Rightarrow> lockst outcome" where
  "acquire_enter c lk s =
     (let s = push_off c s in if holding c lk s then Panic ''acquire'' else Ok s)"

text \<open>\<open>__sync_lock_test_and_set(&lk->locked, 1)\<close>: the old value and the new state.\<close>

definition test_and_set :: "nat \<Rightarrow> lockst \<Rightarrow> int \<times> lockst" where
  "test_and_set lk s =
     (lk_locked (locks s lk), s\<lparr>locks := (locks s)(lk := (locks s lk)\<lparr>lk_locked := 1\<rparr>)\<rparr>)"

definition acquire_done :: "nat \<Rightarrow> nat \<Rightarrow> lockst \<Rightarrow> lockst" where
  "acquire_done c lk s = s\<lparr>locks := (locks s)(lk := (locks s lk)\<lparr>lk_cpu := Some c\<rparr>)\<rparr>"

definition release_enter :: "nat \<Rightarrow> nat \<Rightarrow> lockst \<Rightarrow> lockst outcome" where
  "release_enter c lk s =
     (if \<not> holding c lk s then Panic ''release''
      else Ok (s\<lparr>locks := (locks s)(lk := (locks s lk)\<lparr>lk_cpu := None\<rparr>)\<rparr>))"

definition release_done :: "nat \<Rightarrow> nat \<Rightarrow> lockst \<Rightarrow> lockst outcome" where
  "release_done c lk s = pop_off c (s\<lparr>locks := (locks s)(lk := (locks s lk)\<lparr>lk_locked := 0\<rparr>)\<rparr>)"

text \<open>
  The whole of \<open>acquire\<close> and \<open>release\<close> when no other CPU interferes; \<open>NoFuel\<close> stands
  for spinning forever.
\<close>

definition acquire :: "nat \<Rightarrow> nat \<Rightarrow> lockst \<Rightarrow> lockst outcome" where
  "acquire c lk s = bindO (acquire_enter c lk s) (\<lambda>s.
     let (old, s) = test_and_set lk s in if old \<noteq> 0 then NoFuel else Ok (acquire_done c lk s))"

definition release :: "nat \<Rightarrow> nat \<Rightarrow> lockst \<Rightarrow> lockst outcome" where
  "release c lk s = bindO (release_enter c lk s) (release_done c lk)"

section \<open>Interleaved steps\<close>

datatype pc = Run | Spin nat | Took nat | Rel nat

text \<open>
  Where each CPU is, with the locks it has taken and not given up and the number of its
  unmatched direct \<open>push_off\<close> calls (\<open>myproc\<close> makes such calls).
\<close>

record sys =
  ls :: lockst
  at :: "nat \<Rightarrow> pc"
  held :: "nat \<Rightarrow> nat set"
  pushes :: "nat \<Rightarrow> nat"

inductive lstep :: "sys \<Rightarrow> sys \<Rightarrow> bool" where
  enter: "at s c = Run \<Longrightarrow> acquire_enter c lk (ls s) = Ok l \<Longrightarrow>
     lstep s (s\<lparr>ls := l, at := (at s)(c := Spin lk)\<rparr>)"
| spin: "at s c = Spin lk \<Longrightarrow> test_and_set lk (ls s) = (old, l) \<Longrightarrow> old \<noteq> 0 \<Longrightarrow>
     lstep s (s\<lparr>ls := l\<rparr>)"
| take: "at s c = Spin lk \<Longrightarrow> test_and_set lk (ls s) = (0, l) \<Longrightarrow>
     lstep s (s\<lparr>ls := l, at := (at s)(c := Took lk), held := (held s)(c := insert lk (held s c))\<rparr>)"
| got: "at s c = Took lk \<Longrightarrow>
     lstep s (s\<lparr>ls := acquire_done c lk (ls s), at := (at s)(c := Run)\<rparr>)"
| rel: "at s c = Run \<Longrightarrow> release_enter c lk (ls s) = Ok l \<Longrightarrow>
     lstep s (s\<lparr>ls := l, at := (at s)(c := Rel lk)\<rparr>)"
| unlock: "at s c = Rel lk \<Longrightarrow> release_done c lk (ls s) = Ok l \<Longrightarrow>
     lstep s (s\<lparr>ls := l, at := (at s)(c := Run), held := (held s)(c := held s c - {lk})\<rparr>)"
| push: "at s c = Run \<Longrightarrow>
     lstep s (s\<lparr>ls := push_off c (ls s), pushes := (pushes s)(c := Suc (pushes s c))\<rparr>)"
| pop: "at s c = Run \<Longrightarrow> 0 < pushes s c \<Longrightarrow> pop_off c (ls s) = Ok l \<Longrightarrow>
     lstep s (s\<lparr>ls := l, pushes := (pushes s)(c := pushes s c - 1)\<rparr>)"
| interrupts: "at s c = Run \<Longrightarrow> noff (cpus (ls s) c) = 0 \<Longrightarrow>
     lstep s (s\<lparr>ls := (ls s)\<lparr>cpus := (cpus (ls s))(c := (cpus (ls s) c)\<lparr>intr := b\<rparr>)\<rparr>\<rparr>)"

definition boot :: "lockst \<Rightarrow> sys" where
  "boot l = \<lparr>ls = l, at = (\<lambda>_. Run), held = (\<lambda>_. {}), pushes = (\<lambda>_. 0)\<rparr>"

inductive lreach :: "lockst \<Rightarrow> sys \<Rightarrow> bool" for l0 where
  init: "lreach l0 (boot l0)"
| step: "lreach l0 s \<Longrightarrow> lstep s t \<Longrightarrow> lreach l0 t"

definition fresh :: "lockst \<Rightarrow> bool" where
  "fresh l \<longleftrightarrow> (\<forall>lk. lk_locked (locks l lk) = 0 \<and> lk_cpu (locks l lk) = None) \<and>
     (\<forall>c. noff (cpus l c) = 0)"

section \<open>Invariant\<close>

definition busy :: "pc \<Rightarrow> nat" where
  "busy p = (case p of Spin lk \<Rightarrow> 1 | _ \<Rightarrow> 0)"

text \<open>
  Who has a lock, and what the lock's own fields say about it: \<open>lk->cpu\<close> names the holder
  except in the short windows after the test-and-set and before the unlock.
\<close>

definition holders :: "sys \<Rightarrow> nat \<Rightarrow> nat set" where
  "holders s lk = {c. lk \<in> held s c}"

definition in_window :: "sys \<Rightarrow> nat \<Rightarrow> nat set" where
  "in_window s lk = {c. at s c = Took lk \<or> at s c = Rel lk}"

definition lock_ok :: "spinlock \<Rightarrow> nat set \<Rightarrow> nat set \<Rightarrow> bool" where
  "lock_ok l H W \<longleftrightarrow> W \<subseteq> H \<and>
     (if lk_locked l = 0 then H = {} \<and> lk_cpu l = None
      else \<exists>c. H = {c} \<and> lk_cpu l = (if c \<in> W then None else Some c))"

definition own_inv :: "sys \<Rightarrow> bool" where
  "own_inv s \<longleftrightarrow> (\<forall>lk. lock_ok (locks (ls s) lk) (holders s lk) (in_window s lk))"

text \<open>The nesting counter counts the locks, and interrupts are off while it is positive.\<close>

definition off_inv :: "sys \<Rightarrow> bool" where
  "off_inv s \<longleftrightarrow> (\<forall>c. finite (held s c) \<and>
     noff (cpus (ls s) c) = int (card (held s c) + pushes s c + busy (at s c)) \<and>
     (noff (cpus (ls s) c) \<noteq> 0 \<longrightarrow> \<not> intr (cpus (ls s) c)))"

lemma own_inv_boot: "fresh l \<Longrightarrow> own_inv (boot l)"
  by (simp add: own_inv_def boot_def fresh_def lock_ok_def holders_def in_window_def)

lemma off_inv_boot: "fresh l \<Longrightarrow> off_inv (boot l)"
  by (simp add: off_inv_def boot_def fresh_def busy_def)

lemma push_off_simps [simp]:
  "locks (push_off c s) = locks s"
  "noff (cpus (push_off c s) d) = noff (cpus s d) + (if d = c then 1 else 0)"
  "intr (cpus (push_off c s) d) = (if d = c then False else intr (cpus s d))"
  by (simp_all add: push_off_def Let_def)

lemma pop_off_Ok:
  assumes "pop_off c s = Ok t"
  shows "locks t = locks s" "noff (cpus t d) = noff (cpus s d) - (if d = c then 1 else 0)"
    "1 \<le> noff (cpus s c)" "d \<noteq> c \<Longrightarrow> cpus t d = cpus s d"
    "noff (cpus t c) \<noteq> 0 \<Longrightarrow> \<not> intr (cpus t c)"
  using assms by (auto simp: pop_off_def Let_def split: if_splits)

lemma acquire_enter_Ok: "acquire_enter c lk s = Ok t \<Longrightarrow> t = push_off c s \<and> \<not> holding c lk s"
  by (auto simp: acquire_enter_def Let_def holding_def split: if_splits)

text \<open>A step on one lock leaves the others alone.\<close>

lemma own_invI:
  assumes "own_inv s"
    and "\<And>x. x \<noteq> lk \<Longrightarrow> locks (ls t) x = locks (ls s) x \<and> holders t x = holders s x \<and> in_window t x = in_window s x"
    and "lock_ok (locks (ls t) lk) (holders t lk) (in_window t lk)"
  shows "own_inv t"
  using assms unfolding own_inv_def by metis

lemma own_inv_same:
  assumes "own_inv s" "locks l = locks (ls s)"
  shows "own_inv (s\<lparr>ls := l\<rparr>)"
  using assms by (simp add: own_inv_def holders_def in_window_def)

lemma own_inv_pushes: "own_inv (s\<lparr>pushes := f\<rparr>) = own_inv s"
  by (simp add: own_inv_def holders_def in_window_def)

lemma own_inv_enter:
  assumes inv: "own_inv s" and c: "at s c = Run" and l: "locks l = locks (ls s)"
  shows "own_inv (s\<lparr>ls := l, at := (at s)(c := Spin lk)\<rparr>)" (is "own_inv ?t")
proof -
  have "in_window ?t x = in_window s x" "holders ?t x = holders s x" for x
    using c by (auto simp: in_window_def holders_def)
  then show ?thesis using inv l by (simp add: own_inv_def)
qed

lemma window_owner:
  assumes "own_inv s" "c \<in> in_window s lk"
  shows "holders s lk = {c}" "in_window s lk = {c}" "lk_cpu (locks (ls s) lk) = None"
    "lk_locked (locks (ls s) lk) \<noteq> 0"
proof -
  have ok: "lock_ok (locks (ls s) lk) (holders s lk) (in_window s lk)"
    using assms(1) by (simp add: own_inv_def)
  then have sub: "in_window s lk \<subseteq> holders s lk" by (simp add: lock_ok_def)
  with ok assms(2) obtain d where d: "lk_locked (locks (ls s) lk) \<noteq> 0" "holders s lk = {d}"
    "lk_cpu (locks (ls s) lk) = (if d \<in> in_window s lk then None else Some d)"
    unfolding lock_ok_def by (metis empty_iff subsetD)
  with sub assms(2) have "d = c" by auto
  with d sub assms(2) show "holders s lk = {c}" "in_window s lk = {c}"
    "lk_cpu (locks (ls s) lk) = None" "lk_locked (locks (ls s) lk) \<noteq> 0" by auto
qed

lemma holding_owner:
  assumes "own_inv s" "holding c lk (ls s)"
  shows "holders s lk = {c}" "c \<notin> in_window s lk"
proof -
  have "lock_ok (locks (ls s) lk) (holders s lk) (in_window s lk)"
    using assms(1) by (simp add: own_inv_def)
  with assms(2) show "holders s lk = {c}" "c \<notin> in_window s lk"
    unfolding lock_ok_def holding_def by (auto split: if_splits)
qed

lemma own_inv_take:
  assumes inv: "own_inv s" and c: "at s c = Spin lk" "test_and_set lk (ls s) = (0, l)"
  shows "own_inv (s\<lparr>ls := l, at := (at s)(c := Took lk), held := (held s)(c := insert lk (held s c))\<rparr>)"
    (is "own_inv ?t")
proof -
  have l: "locks l = (locks (ls s))(lk := (locks (ls s) lk)\<lparr>lk_locked := 1\<rparr>)"
    "lk_locked (locks (ls s) lk) = 0" using c(2) by (auto simp: test_and_set_def)
  have ok: "lock_ok (locks (ls s) lk) (holders s lk) (in_window s lk)"
    using inv by (simp add: own_inv_def)
  then have free: "holders s lk = {}" "in_window s lk = {}" "lk_cpu (locks (ls s) lk) = None"
    using l(2) by (auto simp: lock_ok_def)
  have "holders ?t x = (if x = lk then insert c (holders s x) else holders s x)"
    "in_window ?t x = (if x = lk then insert c (in_window s x) else in_window s x)" for x
    using c(1) by (auto simp: holders_def in_window_def)
  then show ?thesis
    using l free by (intro own_invI [OF inv, of lk]) (simp_all add: lock_ok_def)
qed

lemma own_inv_got:
  assumes inv: "own_inv s" and c: "at s c = Took lk"
  shows "own_inv (s\<lparr>ls := acquire_done c lk (ls s), at := (at s)(c := Run)\<rparr>)" (is "own_inv ?t")
proof -
  have "c \<in> in_window s lk" using c by (simp add: in_window_def)
  note w = window_owner [OF inv this]
  have "holders ?t = holders s"
    "in_window ?t x = (if x = lk then in_window s x - {c} else in_window s x)" for x
    using c by (auto simp: holders_def in_window_def fun_eq_iff)
  then show ?thesis
    using w by (intro own_invI [OF inv, of lk]) (simp_all add: lock_ok_def acquire_done_def)
qed

lemma own_inv_rel:
  assumes inv: "own_inv s" and c: "at s c = Run" "release_enter c lk (ls s) = Ok l"
  shows "own_inv (s\<lparr>ls := l, at := (at s)(c := Rel lk)\<rparr>)" (is "own_inv ?t")
proof -
  have l: "locks l = (locks (ls s))(lk := (locks (ls s) lk)\<lparr>lk_cpu := None\<rparr>)" "holding c lk (ls s)"
    using c(2) by (auto simp: release_enter_def split: if_splits)
  have "in_window s lk \<subseteq> holders s lk" using inv by (simp add: own_inv_def lock_ok_def)
  moreover note holding_owner [OF inv l(2)]
  ultimately have "holders s lk = {c}" "in_window s lk = {}" "lk_locked (locks (ls s) lk) \<noteq> 0"
    using l(2) by (auto simp: holding_def)
  moreover have "holders ?t = holders s"
    "in_window ?t x = (if x = lk then insert c (in_window s x) else in_window s x)" for x
    using c(1) by (auto simp: holders_def in_window_def fun_eq_iff)
  ultimately show ?thesis
    using l(1) by (intro own_invI [OF inv, of lk]) (simp_all add: lock_ok_def)
qed

lemma own_inv_unlock:
  assumes inv: "own_inv s" and c: "at s c = Rel lk" "release_done c lk (ls s) = Ok l"
  shows "own_inv (s\<lparr>ls := l, at := (at s)(c := Run), held := (held s)(c := held s c - {lk})\<rparr>)" (is "own_inv ?t")
proof -
  have l: "locks l = (locks (ls s))(lk := (locks (ls s) lk)\<lparr>lk_locked := 0\<rparr>)"
    using pop_off_Ok(1) [OF c(2) [unfolded release_done_def]] by simp
  have "c \<in> in_window s lk" using c(1) by (simp add: in_window_def)
  note w = window_owner [OF inv this]
  have "holders ?t x = (if x = lk then holders s x - {c} else holders s x)"
    "in_window ?t x = (if x = lk then in_window s x - {c} else in_window s x)" for x
    using c(1) by (auto simp: holders_def in_window_def)
  then show ?thesis
    using w l by (intro own_invI [OF inv, of lk]) (simp_all add: lock_ok_def)
qed

lemma own_inv_spin:
  assumes inv: "own_inv s" and c: "test_and_set lk (ls s) = (old, l)" "old \<noteq> 0"
  shows "own_inv (s\<lparr>ls := l\<rparr>)"
proof -
  have "lock_ok (locks (ls s) lk) (holders s lk) (in_window s lk)" using inv by (simp add: own_inv_def)
  with c show ?thesis
    by (intro own_invI [OF inv, of lk])
      (auto simp: test_and_set_def lock_ok_def holders_def in_window_def)
qed

lemma own_inv_step:
  assumes "lstep s t" "own_inv s"
  shows "own_inv t"
  using assms
proof (induction rule: lstep.induct)
  case (enter s c lk l)
  then show ?case
    using acquire_enter_Ok [OF enter(2)] by (intro own_inv_enter) simp_all
next
  case (push s c)
  then show ?case using own_inv_same [of s "push_off c (ls s)"] by (simp add: own_inv_pushes)
next
  case (pop s c l)
  then show ?case using own_inv_same [of s l] pop_off_Ok(1) [OF pop(3)] by (simp add: own_inv_pushes)
next
  case (interrupts s c b)
  then show ?case by (intro own_inv_same) simp_all
qed (simp_all add: own_inv_spin own_inv_take own_inv_got own_inv_rel own_inv_unlock)

lemma off_inv_same:
  assumes "off_inv s" "held t = held s" "\<And>d. noff (cpus (ls t) d) - int (pushes t d + busy (at t d)) =
      noff (cpus (ls s) d) - int (pushes s d + busy (at s d))"
    and "\<And>d. noff (cpus (ls t) d) \<noteq> 0 \<Longrightarrow> \<not> intr (cpus (ls t) d)"
  shows "off_inv t"
  using assms by (simp add: off_inv_def algebra_simps)

lemma off_inv_step:
  assumes "lstep s t" "own_inv s" "off_inv s"
  shows "off_inv t"
  using assms(1)
proof (cases rule: lstep.cases)
  case (enter c lk l)
  then show ?thesis
    using assms(3) acquire_enter_Ok [OF enter(3)]
    by (intro off_inv_same [OF assms(3)]) (auto simp: busy_def off_inv_def)
next
  case (spin c lk old l)
  then show ?thesis using assms(3) by (auto simp: off_inv_def test_and_set_def)
next
  case (take c lk l)
  then have "lk \<notin> held s c"
    using assms(2) by (auto simp: own_inv_def lock_ok_def holders_def test_and_set_def dest!: spec [of _ lk])
  with take assms(3) show ?thesis by (auto simp: off_inv_def test_and_set_def busy_def)
next
  case (got c lk)
  then show ?thesis using assms(3) by (auto simp: off_inv_def acquire_done_def busy_def)
next
  case (rel c lk l)
  then show ?thesis
    using assms(3) by (auto simp: off_inv_def release_enter_def busy_def split: if_splits)
next
  case (unlock c lk l)
  have "c \<in> in_window s lk" using unlock(2) by (simp add: in_window_def)
  then have lk: "lk \<in> held s c" using window_owner(1) [OF assms(2)] by (auto simp: holders_def)
  have fin: "finite (held s c)" using assms(3) by (simp add: off_inv_def)
  then have card: "card (held s c) = Suc (card (held s c - {lk}))" using lk by (rule card.remove)
  note pop = pop_off_Ok [OF unlock(3) [unfolded release_done_def]]
  show ?thesis
    unfolding off_inv_def
  proof (intro allI)
    fix d
    show "finite (held t d) \<and> noff (cpus (ls t) d) = int (card (held t d) + pushes t d + busy (at t d)) \<and>
      (noff (cpus (ls t) d) \<noteq> 0 \<longrightarrow> \<not> intr (cpus (ls t) d))"
    proof (cases "d = c")
      case True
      with unlock(1,2) pop(2,5) card fin assms(3) show ?thesis by (simp add: off_inv_def busy_def)
    next
      case False
      with unlock(1,2) pop(2,4) assms(3) show ?thesis by (simp add: off_inv_def busy_def)
    qed
  qed
next
  case (push c)
  then show ?thesis
    using assms(3) by (intro off_inv_same [OF assms(3)]) (auto simp: off_inv_def)
next
  case (pop c l)
  have "\<not> intr (cpus l d)" if "noff (cpus l d) \<noteq> 0" for d
    using pop_off_Ok(2,4) [OF pop(4), of d] pop_off_Ok(5) [OF pop(4)] that assms(3) by (cases "d = c") (auto simp: off_inv_def)
  then show ?thesis
    using pop pop_off_Ok(2) [OF pop(4)] by (intro off_inv_same [OF assms(3)]) auto
next
  case (interrupts c b)
  then show ?thesis
    using assms(3) by (intro off_inv_same [OF assms(3)]) (auto simp: off_inv_def)
qed

lemma lreach_inv:
  assumes "lreach l0 s" "fresh l0"
  shows "own_inv s \<and> off_inv s"
  using assms
  by (induction rule: lreach.induct) (auto intro: own_inv_boot off_inv_boot own_inv_step off_inv_step)

section \<open>What the invariant gives\<close>

lemma holder_unique:
  assumes "own_inv s" "lk \<in> held s c"
  shows "holders s lk = {c}" "lk_locked (locks (ls s) lk) \<noteq> 0"
    "lk_cpu (locks (ls s) lk) = (if c \<in> in_window s lk then None else Some c)"
proof -
  have c: "c \<in> holders s lk" using assms(2) by (simp add: holders_def)
  have ok: "lock_ok (locks (ls s) lk) (holders s lk) (in_window s lk)"
    using assms(1) by (simp add: own_inv_def)
  with c obtain d where d: "lk_locked (locks (ls s) lk) \<noteq> 0" "holders s lk = {d}"
    "lk_cpu (locks (ls s) lk) = (if d \<in> in_window s lk then None else Some d)"
    unfolding lock_ok_def by (metis empty_iff)
  with c have "d = c" by simp
  with d show "holders s lk = {c}" "lk_locked (locks (ls s) lk) \<noteq> 0"
    "lk_cpu (locks (ls s) lk) = (if c \<in> in_window s lk then None else Some c)" by simp_all
qed

lemma mutual_exclusion:
  assumes "lreach l0 s" "fresh l0" "lk \<in> held s c" "lk \<in> held s d"
  shows "c = d"
proof -
  have "own_inv s" using lreach_inv [OF assms(1,2)] by simp
  then have "{c} = {d}" using holder_unique(1) assms(3,4) by metis
  then show ?thesis by simp
qed

lemma held_interrupts_off:
  assumes "lreach l0 s" "fresh l0" "lk \<in> held s c"
  shows "\<not> intr (cpus (ls s) c)"
proof -
  have o: "off_inv s" using lreach_inv [OF assms(1,2)] by simp
  then have "0 < card (held s c)" using assms(3) by (auto simp: off_inv_def card_gt_0_iff)
  with o show ?thesis by (simp add: off_inv_def)
qed

text \<open>A CPU that runs outside \<open>acquire\<close> and \<open>release\<close> sees exactly its own locks through \<open>holding\<close>.\<close>

lemma holding_iff:
  assumes "lreach l0 s" "fresh l0" "at s c = Run"
  shows "holding c lk (ls s) \<longleftrightarrow> lk \<in> held s c"
proof -
  have o: "own_inv s" using lreach_inv [OF assms(1,2)] by simp
  have "c \<notin> in_window s lk" using assms(3) by (simp add: in_window_def)
  moreover have "holding c lk (ls s) \<Longrightarrow> lk \<in> held s c"
    using holding_owner(1) [OF o] by (auto simp: holders_def)
  ultimately show ?thesis
    using holder_unique [OF o] by (auto simp: holding_def)
qed

section \<open>Properties\<close>

text \<open>CPU 0 has taken lock 7; CPU 1 is spinning on it.\<close>

definition fresh_locks :: lockst where
  "fresh_locks = \<lparr>locks = (\<lambda>_. \<lparr>lk_locked = 0, lk_name = ''lock'', lk_cpu = None\<rparr>),
     cpus = (\<lambda>_. \<lparr>noff = 0, intena = False, intr = True\<rparr>)\<rparr>"

definition taken :: sys where
  "taken = \<lparr>ls = push_off 1 (acquire_done 0 7 (snd (test_and_set 7 (push_off 0 fresh_locks)))),
     at = (\<lambda>_. Run)(1 := Spin 7), held = (\<lambda>_. {})(0 := {7}), pushes = (\<lambda>_. 0)\<rparr>"

lemmas lock_ops = acquire_enter_def holding_def push_off_def test_and_set_def acquire_done_def fresh_locks_def Let_def

lemma taken_reach: "lreach fresh_locks taken" "fresh fresh_locks"
proof -
  show "fresh fresh_locks" by (simp add: fresh_def fresh_locks_def)
  let ?a = "\<lparr>ls = push_off 0 fresh_locks, at = (\<lambda>_. Run)(0 := Spin 7), held = (\<lambda>_. {}), pushes = (\<lambda>_. 0)\<rparr>"
  let ?b = "\<lparr>ls = snd (test_and_set 7 (push_off 0 fresh_locks)), at = (\<lambda>_. Run)(0 := Took 7),
     held = (\<lambda>_. {})(0 := {7}), pushes = (\<lambda>_. 0)\<rparr>"
  let ?c = "\<lparr>ls = acquire_done 0 7 (snd (test_and_set 7 (push_off 0 fresh_locks))), at = (\<lambda>_. Run),
     held = (\<lambda>_. {})(0 := {7}), pushes = (\<lambda>_. 0)\<rparr>"
  have "lstep (boot fresh_locks) ?a"
    using lstep.enter [of "boot fresh_locks" 0 7 "push_off 0 fresh_locks"] by (simp add: boot_def lock_ops)
  with lreach.init have a: "lreach fresh_locks ?a" by (rule lreach.step)
  have "lstep ?a ?b"
    using lstep.take [of ?a 0 7 "snd (test_and_set 7 (push_off 0 fresh_locks))"] by (simp add: lock_ops)
  with a have b: "lreach fresh_locks ?b" by (rule lreach.step)
  have "lstep ?b ?c" using lstep.got [of ?b 0 7] by (simp add: fun_upd_idem)
  with b have c: "lreach fresh_locks ?c" by (rule lreach.step)
  have "acquire_enter 1 7 (ls ?c) = Ok (push_off 1 (ls ?c))" by (simp add: lock_ops)
  then have "lstep ?c taken" using lstep.enter [of ?c 1 7] by (simp add: taken_def)
  with c show "lreach fresh_locks taken" by (rule lreach.step)
qed

text \<open>C7: Spin locks exclude: in every state that any interleaving of \<open>acquire\<close>, \<open>release\<close>,
  \<open>push_off\<close> and \<open>pop_off\<close> on any number of CPUs can reach, at most one CPU has a given lock, and
  a CPU that has a lock has its interrupts off.\<close>

theorem spinlock_excludes:
  assumes "lreach l0 s" "fresh l0"
  shows "(\<forall>lk c d. lk \<in> held s c \<longrightarrow> lk \<in> held s d \<longrightarrow> c = d) \<and>
     (\<forall>lk c. lk \<in> held s c \<longrightarrow> \<not> intr (cpus (ls s) c))"
  using mutual_exclusion [OF assms] held_interrupts_off [OF assms] by blast

theorem spinlock_excludes_witness:
  "7 \<in> held taken 0 \<and> at taken 1 = Spin 7 \<and> 7 \<notin> held taken 1 \<and> \<not> intr (cpus (ls taken) 0)"
proof -
  have "7 \<in> held taken 0" "at taken 1 = Spin 7" by (simp_all add: taken_def)
  with spinlock_excludes [OF taken_reach] show ?thesis by (metis zero_neq_one)
qed

text \<open>C38: The lock's own bookkeeping is exact: outside the two short windows of \<open>acquire\<close> and
  \<open>release\<close>, \<open>acquire\<close> panics exactly when the CPU already has the lock, \<open>release\<close> panics
  exactly when it has not, and the \<open>pop_off\<close> that ends a \<open>release\<close> never panics.\<close>

theorem lock_panics_exact:
  assumes "lreach l0 s" "fresh l0"
  shows "(at s c = Run \<longrightarrow> (acquire_enter c lk (ls s) = Panic ''acquire'' \<longleftrightarrow> lk \<in> held s c) \<and>
       (release_enter c lk (ls s) = Panic ''release'' \<longleftrightarrow> lk \<notin> held s c)) \<and>
     (at s c = Rel lk \<longrightarrow> (\<exists>l. release_done c lk (ls s) = Ok l))"
proof (intro conjI impI)
  assume c: "at s c = Run"
  have h: "holding c lk (ls s) \<longleftrightarrow> lk \<in> held s c" by (rule holding_iff [OF assms c])
  have "holding c lk (push_off c (ls s)) = holding c lk (ls s)" by (simp add: holding_def)
  with h show "acquire_enter c lk (ls s) = Panic ''acquire'' \<longleftrightarrow> lk \<in> held s c"
    by (simp add: acquire_enter_def Let_def)
  from h show "release_enter c lk (ls s) = Panic ''release'' \<longleftrightarrow> lk \<notin> held s c"
    by (simp add: release_enter_def)
next
  assume c: "at s c = Rel lk"
  have inv: "own_inv s" "off_inv s" using lreach_inv [OF assms] by auto
  have "holders s lk = {c}" by (rule window_owner(1) [OF inv(1)]) (simp add: in_window_def c)
  then have lk: "lk \<in> held s c" by (auto simp: holders_def)
  then have "1 \<le> card (held s c)" using inv(2) by (auto simp: off_inv_def Suc_le_eq card_gt_0_iff)
  then have "1 \<le> noff (cpus (ls s) c)" using inv(2) by (simp add: off_inv_def)
  then show "\<exists>l. release_done c lk (ls s) = Ok l"
    using held_interrupts_off [OF assms lk] by (simp add: release_done_def pop_off_def Let_def)
qed

theorem lock_panics_exact_witness:
  "acquire_enter 0 7 (ls taken) = Panic ''acquire'' \<and> release_enter 2 7 (ls taken) = Panic ''release''"
  using lock_panics_exact [OF taken_reach, of 0 7] lock_panics_exact [OF taken_reach, of 2 7] by (simp add: taken_def)

end
