(* ===== verification/ProcMem.thy ===== *)
theory ProcMem
  imports Proc PageTable
begin

text \<open>
  The memory of a process and the slots of the process table: the kernel page table and stacks
  (\<open>kvmmake\<close> of \<open>src/kernel/vm.c\<close>, \<open>proc_mapstacks\<close> and \<open>procinit\<close> of \<open>src/kernel/proc.c\<close>), user
  page tables, \<open>allocproc\<close>, \<open>freeproc\<close> and \<open>growproc\<close>. The addresses of linker symbols
  (\<open>etext\<close>, \<open>trampoline\<close>, \<open>forkret\<close>) are arguments or fields of the state.
\<close>

section \<open>The kernel's page table\<close>

definition UART0 :: uint64 where "UART0 = 0x10000000"
definition VIRTIO0 :: uint64 where "VIRTIO0 = 0x10001000"
definition PLIC :: uint64 where "PLIC = 0x0c000000"

fun proc_mapstacks_loop :: "nat \<Rightarrow> addr \<Rightarrow> 'a kmem_scheme \<Rightarrow> 'a kmem_scheme outcome" where
  "proc_mapstacks_loop 0 kpgtbl s = Ok s"
| "proc_mapstacks_loop (Suc k) kpgtbl s =
     (let (pa, s) = kalloc s in
      if pa = 0 then Panic ''kalloc''
      else let va = KSTACK (NPROC - Suc k) in
        bindO (kvmmap kpgtbl va pa PGSIZE (PTE_R OR PTE_W) s) (proc_mapstacks_loop k kpgtbl))"

definition proc_mapstacks :: "addr \<Rightarrow> 'a kmem_scheme \<Rightarrow> 'a kmem_scheme outcome" where
  "proc_mapstacks kpgtbl s = proc_mapstacks_loop NPROC kpgtbl s"

text \<open>\<open>kvmmake\<close> clears the page without a check, so address 0 from \<open>kalloc\<close> is undefined.\<close>

definition kvmmake :: "addr \<Rightarrow> 'a kproc_scheme \<Rightarrow> (addr \<times> 'a kproc_scheme) outcome" where
  "kvmmake etext s =
     (let (kpgtbl, s) = kalloc s in
      if kpgtbl = 0 then Undef
      else let s = s\<lparr>mem := memset (mem s) kpgtbl 0 4096\<rparr> in
      bindO (kvmmap kpgtbl UART0 UART0 PGSIZE (PTE_R OR PTE_W) s) (\<lambda>s.
      bindO (kvmmap kpgtbl VIRTIO0 VIRTIO0 PGSIZE (PTE_R OR PTE_W) s) (\<lambda>s.
      bindO (kvmmap kpgtbl PLIC PLIC 0x4000000 (PTE_R OR PTE_W) s) (\<lambda>s.
      bindO (kvmmap kpgtbl KERNBASE KERNBASE (etext - KERNBASE) (PTE_R OR PTE_X) s) (\<lambda>s.
      bindO (kvmmap kpgtbl etext etext (PHYSTOP - etext) (PTE_R OR PTE_W) s) (\<lambda>s.
      bindO (kvmmap kpgtbl TRAMPOLINE (trampoline_pa s) PGSIZE (PTE_R OR PTE_X) s) (\<lambda>s.
      bindO (proc_mapstacks kpgtbl s) (\<lambda>s.
      Ok (kpgtbl, s)))))))))"

definition procinit :: "'a kproc_scheme \<Rightarrow> 'a kproc_scheme" where
  "procinit s = s\<lparr>procs := map (\<lambda>i. (procs s ! i)\<lparr>p_state := UNUSED, p_kstack := KSTACK i\<rparr>) [0..<NPROC]\<rparr>"

section \<open>User page tables\<close>

text \<open>A user table has three levels, the bound for the recursion of \<open>freewalk\<close>.\<close>

definition PT_DEPTH :: nat where "PT_DEPTH = 3"

definition proc_pagetable :: "nat \<Rightarrow> 'a kproc_scheme \<Rightarrow> (addr \<times> 'a kproc_scheme) outcome" where
  "proc_pagetable p s =
     (let (pagetable, s) = uvmcreate s in
      if pagetable = 0 then Ok (0, s)
      else bindO (mappages pagetable TRAMPOLINE PGSIZE (trampoline_pa s) (PTE_R OR PTE_X) s) (\<lambda>(r, s).
      if r < 0 then bindO (uvmfree PT_DEPTH pagetable 0 s) (\<lambda>s. Ok (0, s))
      else bindO (mappages pagetable TRAPFRAME PGSIZE (p_trapframe (procs s ! p)) (PTE_R OR PTE_W) s) (\<lambda>(r, s).
      if r < 0 then
        bindO (uvmunmap pagetable TRAMPOLINE 1 False s) (\<lambda>s.
        bindO (uvmfree PT_DEPTH pagetable 0 s) (\<lambda>s. Ok (0, s)))
      else Ok (pagetable, s))))"

definition proc_freepagetable :: "addr \<Rightarrow> uint64 \<Rightarrow> 'a kmem_scheme \<Rightarrow> 'a kmem_scheme outcome" where
  "proc_freepagetable pagetable sz s =
     bindO (uvmunmap pagetable TRAMPOLINE 1 False s) (\<lambda>s.
     bindO (uvmunmap pagetable TRAPFRAME 1 False s) (\<lambda>s.
     uvmfree PT_DEPTH pagetable sz s))"

section \<open>Slots of the process table\<close>

definition freeproc :: "nat \<Rightarrow> 'a kproc_scheme \<Rightarrow> 'a kproc_scheme outcome" where
  "freeproc p s =
     bindO (if p_trapframe (procs s ! p) \<noteq> 0 then kfree (p_trapframe (procs s ! p)) s else Ok s) (\<lambda>s.
     let s = upd_proc p (\<lambda>p. p\<lparr>p_trapframe := 0\<rparr>) s in
     bindO (if p_pagetable (procs s ! p) \<noteq> 0
            then proc_freepagetable (p_pagetable (procs s ! p)) (p_sz (procs s ! p)) s else Ok s) (\<lambda>s.
     Ok (upd_proc p (\<lambda>p. p\<lparr>p_pagetable := 0, p_sz := 0, p_pid := 0, p_parent := None,
       p_name := (p_name p)[0 := 0], p_chan := NullChan, p_killed := 0, p_xstate := 0,
       p_state := UNUSED\<rparr>) s)))"

definition init_context :: "uint64 \<Rightarrow> uint64 \<Rightarrow> swcontext" where
  "init_context ra sp = \<lparr>ctx_ra = ra, ctx_sp = sp, ctx_s = replicate 12 0\<rparr>"

definition allocproc :: "'a kproc_scheme \<Rightarrow> (nat option \<times> 'a kproc_scheme) outcome" where
  "allocproc s =
     (case find (\<lambda>i. p_state (procs s ! i) = UNUSED) [0..<NPROC] of
        None \<Rightarrow> Ok (None, s)
      | Some p \<Rightarrow>
          let (pid, s) = allocpid s;
              s = upd_proc p (\<lambda>p. p\<lparr>p_pid := pid, p_state := USED, p_nice := 20, p_runtime := 0, p_vruntime := 0,
                    p_time_slice := 5, p_total_tick := 0\<rparr>) s;
              s = upd_proc p (\<lambda>p. p\<lparr>p_vdeadline := of_int ((5000 * 1024) div weight p)\<rparr>) s;
              (tf, s) = kalloc s;
              s = upd_proc p (\<lambda>p. p\<lparr>p_trapframe := tf\<rparr>) s in
          if tf = 0 then bindO (freeproc p s) (\<lambda>s. Ok (None, s))
          else bindO (proc_pagetable p s) (\<lambda>(pagetable, s).
          let s = upd_proc p (\<lambda>p. p\<lparr>p_pagetable := pagetable\<rparr>) s in
          if pagetable = 0 then bindO (freeproc p s) (\<lambda>s. Ok (None, s))
          else Ok (Some p, upd_proc p (\<lambda>p. p\<lparr>p_context := init_context (forkret_pc s) (p_kstack p + PGSIZE)\<rparr>) s)))"

definition growproc :: "nat \<Rightarrow> int \<Rightarrow> 'a kproc_scheme \<Rightarrow> (int \<times> 'a kproc_scheme) outcome" where
  "growproc me n s =
     (let p = procs s ! me; sz = p_sz p in
      if n > 0 then
        if sz + of_int n > TRAPFRAME then Ok (-1, s)
        else bindO (uvmalloc (p_pagetable p) sz (sz + of_int n) PTE_W s) (\<lambda>(sz, s).
          if sz = 0 then Ok (-1, s) else Ok (0, upd_proc me (\<lambda>p. p\<lparr>p_sz := sz\<rparr>) s))
      else if n < 0 then
        bindO (uvmdealloc (p_pagetable p) sz (sz + of_int n) s) (\<lambda>(sz, s).
          Ok (0, upd_proc me (\<lambda>p. p\<lparr>p_sz := sz\<rparr>) s))
      else Ok (0, upd_proc me (\<lambda>p. p\<lparr>p_sz := sz\<rparr>) s))"

end
