(* ===== verification/Lifecycle.thy ===== *)
theory Lifecycle
  imports ProcMem FileIO
begin

text \<open>
  The life of a process (\<open>src/kernel/proc.c\<close>): the first process, \<open>fork\<close>, \<open>exit\<close>, \<open>wait\<close> and
  \<open>waitpid\<close>. A call that would sleep has the outcome \<open>Sleeps\<close>; \<open>kexit\<close> yields the state in
  which the scheduler takes over.
\<close>

section \<open>Creating processes\<close>

definition userinit :: "'a kfile_scheme \<Rightarrow> 'a kfile_scheme outcome" where
  "userinit s = bindO (allocproc s) (\<lambda>(po, s).
     case po of None \<Rightarrow> Undef
     | Some p \<Rightarrow>
         let s = s\<lparr>initproc := Some p\<rparr> in
         bindO (namei p [slash] s) (\<lambda>(ip, s).
         Ok (upd_proc p (\<lambda>p. p\<lparr>p_cwd := ip, p_state := RUNNABLE\<rparr>) s)))"

fun kfork_files :: "nat \<Rightarrow> nat \<Rightarrow> nat \<Rightarrow> 'a kfile_scheme \<Rightarrow> 'a kfile_scheme outcome" where
  "kfork_files 0 p np s = Ok s"
| "kfork_files (Suc k) p np s =
     (let i = NOFILE - Suc k in
      case p_ofile (procs s ! p) ! i of
        None \<Rightarrow> kfork_files k p np s
      | Some f \<Rightarrow> bindO (filedup f s) (\<lambda>s.
          kfork_files k p np (upd_proc np (\<lambda>p. p\<lparr>p_ofile := (p_ofile p)[i := Some f]\<rparr>) s)))"

text \<open>\<open>safestrcpy\<close> between buffers of \<open>n\<close> bytes.\<close>

definition buf_safestrcpy :: "nat \<Rightarrow> byte list \<Rightarrow> byte list \<Rightarrow> byte list" where
  "buf_safestrcpy n t dst = put_bs 0 (takeWhile (\<lambda>c. c \<noteq> 0) (take (n - 1) t) @ [0]) dst"

definition kfork :: "nat \<Rightarrow> 'a kfile_scheme \<Rightarrow> (int \<times> 'a kfile_scheme) outcome" where
  "kfork p s = bindO (allocproc s) (\<lambda>(npo, s).
     case npo of None \<Rightarrow> Ok (-1, s)
     | Some np \<Rightarrow>
         bindO (uvmcopy (p_pagetable (procs s ! p)) (p_pagetable (procs s ! np)) (p_sz (procs s ! p)) s) (\<lambda>(r, s).
         if r < 0 then bindO (freeproc np s) (\<lambda>s. Ok (-1, s))
         else
         let s = upd_proc np (\<lambda>q. q\<lparr>p_sz := p_sz (procs s ! p)\<rparr>) s;
             s = s\<lparr>mem := memmove (mem s) (p_trapframe (procs s ! np)) (p_trapframe (procs s ! p)) 288\<rparr>;
             s = tf_set np (TF_a 0) 0 s in
         bindO (mmap_fork p p np s) (\<lambda>(r, s).
         if r < 0 then bindO (freeproc np s) (\<lambda>s. Ok (-1, s))
         else bindO (kfork_files NOFILE p np s) (\<lambda>s.
         case p_cwd (procs s ! p) of None \<Rightarrow> Undef
         | Some cwd \<Rightarrow>
             let s = idup cwd s;
                 s = upd_proc np (\<lambda>q. q\<lparr>p_cwd := Some cwd,
                       p_name := buf_safestrcpy 16 (p_name (procs s ! p)) (p_name q),
                       p_nice := p_nice (procs s ! p), p_vruntime := p_vruntime (procs s ! p)\<rparr>) s;
                 s = upd_proc np (\<lambda>q. q\<lparr>p_vdeadline := slice_deadline q\<rparr>) s;
                 pid = p_pid (procs s ! np);
                 s = upd_proc np (\<lambda>q. q\<lparr>p_parent := Some p\<rparr>) s
             in Ok (pid, upd_proc np (\<lambda>q. q\<lparr>p_state := RUNNABLE\<rparr>) s)))))"

section \<open>Exit\<close>

definition proc_chan :: "nat option \<Rightarrow> wchan" where
  "proc_chan p = (case p of None \<Rightarrow> NullChan | Some i \<Rightarrow> ProcChan i)"

definition reparent :: "nat \<Rightarrow> 'a kproc_scheme \<Rightarrow> 'a kproc_scheme" where
  "reparent p s = foldl (\<lambda>s pp.
     if p_parent (procs s ! pp) = Some p
     then wakeup (proc_chan (initproc s)) (Some p) (upd_proc pp (\<lambda>q. q\<lparr>p_parent := initproc s\<rparr>) s)
     else s) s [0..<NPROC]"

fun kexit_files :: "nat \<Rightarrow> nat \<Rightarrow> 'a kfile_scheme \<Rightarrow> 'a kfile_scheme outcome" where
  "kexit_files 0 p s = Ok s"
| "kexit_files (Suc k) p s =
     (let fd = NOFILE - Suc k in
      case p_ofile (procs s ! p) ! fd of
        None \<Rightarrow> kexit_files k p s
      | Some f \<Rightarrow> bindO (fileclose p f s) (\<lambda>s.
          kexit_files k p (upd_proc p (\<lambda>p. p\<lparr>p_ofile := (p_ofile p)[fd := None]\<rparr>) s)))"

definition kexit :: "nat \<Rightarrow> nat \<Rightarrow> int \<Rightarrow> 'a kfile_scheme \<Rightarrow> 'a kfile_scheme outcome" where
  "kexit c p status s =
     (if initproc s = Some p then Panic ''init exiting''
      else bindO (mmap_cleanup p p s) (\<lambda>s.
      bindO (kexit_files NOFILE p s) (\<lambda>s.
      bindO (begin_op s) (\<lambda>s.
      bindO (case p_cwd (procs s ! p) of None \<Rightarrow> Undef | Some cwd \<Rightarrow> iput p cwd s) (\<lambda>s.
      bindO (end_op p s) (\<lambda>s.
      let s = upd_proc p (\<lambda>p. p\<lparr>p_cwd := None\<rparr>) s;
          s = reparent p s;
          s = wakeup (proc_chan (p_parent (procs s ! p))) (Some p) s;
          s = upd_proc p (\<lambda>p. p\<lparr>p_xstate := status, p_state := ZOMBIE\<rparr>) s
      in sched c p True 1 False s))))))"

section \<open>Waiting\<close>

text \<open>The scan of \<open>kwait\<close> with \<open>k\<close> slots left; at its end the caller returns or sleeps.\<close>

fun kwait_loop :: "nat \<Rightarrow> nat \<Rightarrow> uint64 \<Rightarrow> bool \<Rightarrow> 'a kfile_scheme \<Rightarrow> (int \<times> 'a kfile_scheme) outcome" where
  "kwait_loop 0 p addr havekids s = (if \<not> havekids \<or> killed p s \<noteq> 0 then Ok (-1, s) else Sleeps)"
| "kwait_loop (Suc k) p addr havekids s =
     (let pp = NPROC - Suc k in
      if p_parent (procs s ! pp) = Some p then
        if p_state (procs s ! pp) = ZOMBIE then
          let pid = p_pid (procs s ! pp) in
          bindO (if addr \<noteq> 0
                 then copyout p (p_pagetable (procs s ! p)) addr (le_bytes 4 (of_int (p_xstate (procs s ! pp)) :: uint32)) s
                 else Ok (0, s)) (\<lambda>(r, s).
          if r < 0 then Ok (-1, s)
          else bindO (freeproc pp s) (\<lambda>s. Ok (pid, s)))
        else kwait_loop k p addr True s
      else kwait_loop k p addr havekids s)"

definition kwait :: "nat \<Rightarrow> uint64 \<Rightarrow> 'a kfile_scheme \<Rightarrow> (int \<times> 'a kfile_scheme) outcome" where
  "kwait p addr s = kwait_loop NPROC p addr False s"

definition waitpid :: "nat \<Rightarrow> int \<Rightarrow> 'a kproc_scheme \<Rightarrow> (int \<times> 'a kproc_scheme) outcome" where
  "waitpid p pid s =
     (case find (\<lambda>pp. p_parent (procs s ! pp) = Some p \<and> p_pid (procs s ! pp) = pid) [0..<NPROC] of
        None \<Rightarrow> Ok (-1, s)
      | Some pp \<Rightarrow>
          if p_state (procs s ! pp) = ZOMBIE then bindO (freeproc pp s) (\<lambda>s. Ok (0, s))
          else if killed p s \<noteq> 0 then Ok (-1, s)
          else Sleeps)"

end
