(* ===== verification/Exec.thy ===== *)
theory Exec
  imports Lifecycle
begin

text \<open>
  \<open>exec\<close> (\<open>src/kernel/exec.c\<close>): loading an ELF file into a new page table, building the stack
  with the arguments and replacing the image of the process. Argument strings are lists of bytes
  without their null.
\<close>

definition MAXARG :: nat where "MAXARG = 32"

definition USERSTACK :: uint64 where "USERSTACK = 1"

definition ELF_MAGIC :: uint32 where "ELF_MAGIC = 0x464C457F"

definition ELF_PROG_LOAD :: uint32 where "ELF_PROG_LOAD = 1"

text \<open>The fields of \<open>struct elfhdr\<close> (64 bytes) and \<open>struct proghdr\<close> (56 bytes) that the code reads.\<close>

record elfhdr =
  e_magic :: uint32
  e_entry :: uint64
  e_phoff :: uint64
  e_phnum :: "16 word"

record proghdr =
  ph_type :: uint32
  ph_flags :: uint32
  ph_off :: uint64
  ph_vaddr :: uint64
  ph_filesz :: uint64
  ph_memsz :: uint64

definition read_elfhdr :: "byte list \<Rightarrow> elfhdr" where
  "read_elfhdr bs = \<lparr>e_magic = get_le 4 0 bs, e_entry = get_le 8 24 bs, e_phoff = get_le 8 32 bs, e_phnum = get_le 2 56 bs\<rparr>"

definition read_proghdr :: "byte list \<Rightarrow> proghdr" where
  "read_proghdr bs = \<lparr>ph_type = get_le 4 0 bs, ph_flags = get_le 4 4 bs, ph_off = get_le 8 8 bs,
     ph_vaddr = get_le 8 16 bs, ph_filesz = get_le 8 32 bs, ph_memsz = get_le 8 40 bs\<rparr>"

definition flags2perm :: "uint32 \<Rightarrow> uint64" where
  "flags2perm flags =
     (let perm = (if flags AND 1 \<noteq> 0 then PTE_X else 0)
      in if flags AND 2 \<noteq> 0 then perm OR PTE_W else perm)"

text \<open>
  The loop of \<open>loadseg\<close>. Its counter \<open>i\<close> is a \<open>uint\<close>: for a size above \<open>0xfffff000\<close> it wraps
  and the loop has no end, so the rounds are counted.
\<close>

fun loadseg_loop ::
  "nat \<Rightarrow> nat \<Rightarrow> addr \<Rightarrow> uint64 \<Rightarrow> nat \<Rightarrow> uint32 \<Rightarrow> uint32 \<Rightarrow> uint32 \<Rightarrow> 'a kfs_scheme \<Rightarrow> (int \<times> 'a kfs_scheme) outcome" where
  "loadseg_loop 0 me pagetable va ip offset sz i s = NoFuel"
| "loadseg_loop (Suc k) me pagetable va ip offset sz i s =
     (if i < sz then
        bindO (walkaddr pagetable (va + ucast i) s) (\<lambda>pa.
        if pa = 0 then Panic ''loadseg: address should exist''
        else let n = (if sz - i < 4096 then sz - i else 4096) in
        bindO (readi to_kernel me ip pa (offset + i) n () s) (\<lambda>(r, _, s).
        if r \<noteq> sint n then Ok (-1, s)
        else loadseg_loop k me pagetable va ip offset sz (i + 4096) s))
      else Ok (0, s))"

definition loadseg ::
  "nat \<Rightarrow> addr \<Rightarrow> uint64 \<Rightarrow> nat \<Rightarrow> uint32 \<Rightarrow> uint32 \<Rightarrow> 'a kfs_scheme \<Rightarrow> (int \<times> 'a kfs_scheme) outcome" where
  "loadseg me pagetable va ip offset sz s =
     loadseg_loop (unat sz div 4096 + 2) me pagetable va ip offset sz 0 s"

text \<open>The loop over the program headers, with \<open>k\<close> left: whether it succeeded, and the size so far.\<close>

fun kexec_load ::
  "nat \<Rightarrow> nat \<Rightarrow> nat \<Rightarrow> addr \<Rightarrow> uint32 \<Rightarrow> uint64 \<Rightarrow> 'a kfs_scheme \<Rightarrow> (bool \<times> uint64 \<times> 'a kfs_scheme) outcome" where
  "kexec_load 0 me ip pagetable off sz s = Ok (True, sz, s)"
| "kexec_load (Suc k) me ip pagetable off sz s =
     bindO (readi to_local me ip 0 off 56 (replicate 56 0) s) (\<lambda>(r, bs, s).
     let ph = read_proghdr bs in
     if r \<noteq> 56 then Ok (False, sz, s)
     else if ph_type ph \<noteq> ELF_PROG_LOAD then kexec_load k me ip pagetable (off + 56) sz s
     else if ph_memsz ph < ph_filesz ph then Ok (False, sz, s)
     else if ph_vaddr ph + ph_memsz ph < ph_vaddr ph then Ok (False, sz, s)
     else if ph_vaddr ph mod PGSIZE \<noteq> 0 then Ok (False, sz, s)
     else bindO (uvmalloc pagetable sz (ph_vaddr ph + ph_memsz ph) (flags2perm (ph_flags ph)) s) (\<lambda>(sz1, s).
     if sz1 = 0 then Ok (False, sz, s)
     else bindO (loadseg me pagetable (ph_vaddr ph) ip (ucast (ph_off ph)) (ucast (ph_filesz ph)) s) (\<lambda>(r, s).
     if r < 0 then Ok (False, sz1, s)
     else kexec_load k me ip pagetable (off + 56) sz1 s)))"

text \<open>The argument strings, pushed on the stack; \<open>None\<close> for the exit to \<open>bad\<close>.\<close>

fun kexec_args ::
  "nat \<Rightarrow> addr \<Rightarrow> uint64 \<Rightarrow> byte list list \<Rightarrow> uint64 \<Rightarrow> uint64 list \<Rightarrow> 'a kfile_scheme \<Rightarrow>
   ((uint64 \<times> uint64 list) option \<times> 'a kfile_scheme) outcome" where
  "kexec_args me pagetable stackbase [] sp ustack s = Ok (Some (sp, ustack), s)"
| "kexec_args me pagetable stackbase (arg # argv) sp ustack s =
     (if length ustack \<ge> MAXARG then Ok (None, s)
      else let sp = sp - (of_nat (length arg) + 1); sp = sp - sp mod 16 in
      if sp < stackbase then Ok (None, s)
      else bindO (copyout me pagetable sp (arg @ [0]) s) (\<lambda>(r, s).
      if r < 0 then Ok (None, s)
      else kexec_args me pagetable stackbase argv sp (ustack @ [sp]) s))"

definition kexec_bad ::
  "nat \<Rightarrow> addr \<Rightarrow> uint64 \<Rightarrow> nat option \<Rightarrow> 'a kfile_scheme \<Rightarrow> (int \<times> 'a kfile_scheme) outcome" where
  "kexec_bad me pagetable sz ipo s =
     bindO (if pagetable \<noteq> 0 then proc_freepagetable pagetable sz s else Ok s) (\<lambda>s.
     bindO (case ipo of None \<Rightarrow> Ok s | Some ip \<Rightarrow> bindO (iunlockput me ip s) (end_op me)) (\<lambda>s.
     Ok (-1, s)))"

text \<open>The part of the path after its last slash.\<close>

definition last_elem :: "byte list \<Rightarrow> byte list" where
  "last_elem path = rev (takeWhile (\<lambda>c. c \<noteq> slash) (rev path))"

text \<open>From the copy of the arguments on: the new image is built and replaces the old one.\<close>

definition kexec_commit ::
  "nat \<Rightarrow> byte list \<Rightarrow> byte list list \<Rightarrow> uint64 \<Rightarrow> addr \<Rightarrow> uint64 \<Rightarrow> 'a kfile_scheme \<Rightarrow> (int \<times> 'a kfile_scheme) outcome" where
  "kexec_commit me path argv entry pagetable sz s =
     (let oldsz = p_sz (procs s ! me); stackbase = sz - USERSTACK * PGSIZE in
      bindO (kexec_args me pagetable stackbase argv sz [] s) (\<lambda>(a, s).
      case a of None \<Rightarrow> kexec_bad me pagetable sz None s
      | Some (sp, ustack) \<Rightarrow>
          if length ustack \<ge> MAXARG then Undef
          else let ustack = ustack @ [0];
                   sp = sp - of_nat (length ustack) * 8; sp = sp - sp mod 16 in
          if sp < stackbase then kexec_bad me pagetable sz None s
          else bindO (copyout me pagetable sp (concat (map (le_bytes 8) ustack)) s) (\<lambda>(r, s).
          if r < 0 then kexec_bad me pagetable sz None s
          else let s = tf_set me (TF_a 1) sp s;
                   s = upd_proc me (\<lambda>p. p\<lparr>p_name := buf_safestrcpy 16 (last_elem path) (p_name p)\<rparr>) s;
                   oldpagetable = p_pagetable (procs s ! me);
                   s = upd_proc me (\<lambda>p. p\<lparr>p_pagetable := pagetable, p_sz := sz\<rparr>) s;
                   s = tf_set me TF_epc entry s;
                   s = tf_set me TF_sp sp s in
          bindO (proc_freepagetable oldpagetable oldsz s) (\<lambda>s.
          Ok (int (length ustack) - 1, s)))))"

definition kexec :: "nat \<Rightarrow> byte list \<Rightarrow> byte list list \<Rightarrow> 'a kfile_scheme \<Rightarrow> (int \<times> 'a kfile_scheme) outcome" where
  "kexec me path argv s =
     bindO (begin_op s) (\<lambda>s.
     bindO (namei me path s) (\<lambda>(ipo, s).
     case ipo of None \<Rightarrow> bindO (end_op me s) (\<lambda>s. Ok (-1, s))
     | Some ip \<Rightarrow>
         bindO (ilock me (Some ip) s) (\<lambda>s.
         bindO (readi to_local me ip 0 0 64 (replicate 64 0) s) (\<lambda>(r, bs, s).
         let elf = read_elfhdr bs in
         if r \<noteq> 64 then kexec_bad me 0 0 (Some ip) s
         else if e_magic elf \<noteq> ELF_MAGIC then kexec_bad me 0 0 (Some ip) s
         else bindO (proc_pagetable me s) (\<lambda>(pagetable, s).
         if pagetable = 0 then kexec_bad me 0 0 (Some ip) s
         else bindO (kexec_load (unat (e_phnum elf)) me ip pagetable (ucast (e_phoff elf)) 0 s) (\<lambda>(ok, sz, s).
         if \<not> ok then kexec_bad me pagetable sz (Some ip) s
         else bindO (iunlockput me ip s) (\<lambda>s.
         bindO (end_op me s) (\<lambda>s.
         let sz = PGROUNDUP sz in
         bindO (uvmalloc pagetable sz (sz + (USERSTACK + 1) * PGSIZE) PTE_W s) (\<lambda>(sz1, s).
         if sz1 = 0 then kexec_bad me pagetable sz None s
         else bindO (uvmclear pagetable (sz1 - (USERSTACK + 1) * PGSIZE) s) (\<lambda>s.
         kexec_commit me path argv (e_entry elf) pagetable sz1 s))))))))))"

end
