(* ===== verification/SysFile.thy ===== *)
theory SysFile
  imports Exec
begin

text \<open>
  The system calls on files (\<open>src/kernel/sysfile.c\<close>). A handler yields what the caller gets, or
  that the process blocks in it; the argument \<open>me\<close> is the calling process.
\<close>

section \<open>Results of a system call\<close>

datatype 's sysresult = SysRet uint64 's | SysBlock int 's | SysExit 's

definition sys_ret :: "(int \<times> 's) outcome \<Rightarrow> 's sysresult outcome" where
  "sys_ret m = bindO m (\<lambda>(r, s). Ok (SysRet (of_int r) s))"

definition sys_progress :: "'s progress outcome \<Rightarrow> 's sysresult outcome" where
  "sys_progress m = bindO m (\<lambda>p. Ok (case p of Ret r s \<Rightarrow> SysRet (of_int r) s | Blk i s \<Rightarrow> SysBlock i s))"

definition MAXPATH :: nat where "MAXPATH = 128"

definition O_RDONLY :: int where "O_RDONLY = 0"
definition O_WRONLY :: int where "O_WRONLY = 1"
definition O_RDWR :: int where "O_RDWR = 2"
definition O_CREATE :: int where "O_CREATE = 0x200"
definition O_TRUNC :: int where "O_TRUNC = 0x400"

section \<open>File descriptors\<close>

text \<open>\<open>argfd\<close>: the descriptor and its file, or \<open>None\<close> for -1.\<close>

definition argfd :: "nat \<Rightarrow> nat \<Rightarrow> 'a kproc_scheme \<Rightarrow> (nat \<times> nat) option outcome" where
  "argfd me n s = bindO (argint me n s) (\<lambda>fd.
     Ok (if fd < 0 \<or> fd \<ge> int NOFILE then None
         else map_option (\<lambda>f. (nat fd, f)) (p_ofile (procs s ! me) ! nat fd)))"

definition set_fd :: "nat \<Rightarrow> nat \<Rightarrow> nat option \<Rightarrow> 'a kproc_scheme \<Rightarrow> 'a kproc_scheme" where
  "set_fd me fd fo s = upd_proc me (\<lambda>p. p\<lparr>p_ofile := (p_ofile p)[fd := fo]\<rparr>) s"

definition fdalloc :: "nat \<Rightarrow> nat \<Rightarrow> 'a kproc_scheme \<Rightarrow> nat option \<times> 'a kproc_scheme" where
  "fdalloc me f s = (case find (\<lambda>fd. p_ofile (procs s ! me) ! fd = None) [0..<NOFILE] of
     None \<Rightarrow> (None, s) | Some fd \<Rightarrow> (Some fd, set_fd me fd (Some f) s))"

definition sys_dup :: "nat \<Rightarrow> 'a kfile_scheme \<Rightarrow> 'a kfile_scheme sysresult outcome" where
  "sys_dup me s = bindO (argfd me 0 s) (\<lambda>a.
     case a of None \<Rightarrow> Ok (SysRet (-1) s)
     | Some (_, f) \<Rightarrow>
         (case fdalloc me f s of (None, s) \<Rightarrow> Ok (SysRet (-1) s)
          | (Some fd, s) \<Rightarrow> bindO (filedup f s) (\<lambda>s. Ok (SysRet (of_nat fd) s))))"

definition sys_read :: "'a kfile_scheme devsw \<Rightarrow> nat \<Rightarrow> 'a kfile_scheme \<Rightarrow> 'a kfile_scheme sysresult outcome" where
  "sys_read devsw me s =
     bindO (argaddr me 1 s) (\<lambda>p. bindO (argint me 2 s) (\<lambda>n. bindO (argfd me 0 s) (\<lambda>a.
     case a of None \<Rightarrow> Ok (SysRet (-1) s)
     | Some (_, f) \<Rightarrow> sys_progress (fileread devsw me f p n s))))"

definition sys_write :: "'a kfile_scheme devsw \<Rightarrow> nat \<Rightarrow> 'a kfile_scheme \<Rightarrow> 'a kfile_scheme sysresult outcome" where
  "sys_write devsw me s =
     bindO (argaddr me 1 s) (\<lambda>p. bindO (argint me 2 s) (\<lambda>n. bindO (argfd me 0 s) (\<lambda>a.
     case a of None \<Rightarrow> Ok (SysRet (-1) s)
     | Some (_, f) \<Rightarrow> sys_progress (filewrite devsw me f p n s))))"

definition sys_close :: "nat \<Rightarrow> 'a kfile_scheme \<Rightarrow> 'a kfile_scheme sysresult outcome" where
  "sys_close me s = bindO (argfd me 0 s) (\<lambda>a.
     case a of None \<Rightarrow> Ok (SysRet (-1) s)
     | Some (fd, f) \<Rightarrow> bindO (fileclose me f (set_fd me fd None s)) (\<lambda>s. Ok (SysRet 0 s)))"

definition sys_fstat :: "byte list \<Rightarrow> nat \<Rightarrow> 'a kfile_scheme \<Rightarrow> 'a kfile_scheme sysresult outcome" where
  "sys_fstat pad me s = bindO (argaddr me 1 s) (\<lambda>st. bindO (argfd me 0 s) (\<lambda>a.
     case a of None \<Rightarrow> Ok (SysRet (-1) s)
     | Some (_, f) \<Rightarrow> sys_ret (filestat pad me f st s)))"

section \<open>Links\<close>

text \<open>Ends the transaction and returns.\<close>

definition end_ret :: "nat \<Rightarrow> uint64 \<Rightarrow> 'a klog_scheme \<Rightarrow> 'a klog_scheme sysresult outcome" where
  "end_ret me r s = bindO (end_op me s) (\<lambda>s. Ok (SysRet r s))"

definition put_end_ret :: "nat \<Rightarrow> nat \<Rightarrow> uint64 \<Rightarrow> 'a kfs_scheme \<Rightarrow> 'a kfs_scheme sysresult outcome" where
  "put_end_ret me ip r s = bindO (iunlockput me ip s) (end_ret me r)"

definition add_nlink :: "nat \<Rightarrow> 16 word \<Rightarrow> 'a kfs_scheme \<Rightarrow> 'a kfs_scheme" where
  "add_nlink ip d s = upd_inode ip (\<lambda>i. i\<lparr>i_nlink := i_nlink i + d\<rparr>) s"

definition sys_link_bad :: "nat \<Rightarrow> nat \<Rightarrow> 'a kfs_scheme \<Rightarrow> 'a kfs_scheme sysresult outcome" where
  "sys_link_bad me ip s =
     bindO (ilock me (Some ip) s) (\<lambda>s.
     bindO (iupdate me ip (add_nlink ip (-1) s)) (put_end_ret me ip (-1)))"

definition sys_link :: "nat \<Rightarrow> 'a kfile_scheme \<Rightarrow> 'a kfile_scheme sysresult outcome" where
  "sys_link me s =
     bindO (argstr me 0 MAXPATH s) (\<lambda>(old, s).
     case old of None \<Rightarrow> Ok (SysRet (-1) s)
     | Some old \<Rightarrow>
     bindO (argstr me 1 MAXPATH s) (\<lambda>(new, s).
     case new of None \<Rightarrow> Ok (SysRet (-1) s)
     | Some new \<Rightarrow>
     bindO (begin_op s) (\<lambda>s.
     bindO (namei me old s) (\<lambda>(ipo, s).
     case ipo of None \<Rightarrow> end_ret me (-1) s
     | Some ip \<Rightarrow>
     bindO (ilock me (Some ip) s) (\<lambda>s.
     if i_type (inodes s ! ip) = T_DIR then put_end_ret me ip (-1) s
     else
     bindO (iupdate me ip (add_nlink ip 1 s)) (\<lambda>s.
     bindO (iunlock me (Some ip) s) (\<lambda>s.
     bindO (nameiparent me new (replicate DIRSIZ 0) s) (\<lambda>(dpo, name, s).
     case dpo of None \<Rightarrow> sys_link_bad me ip s
     | Some dp \<Rightarrow>
     bindO (ilock me (Some dp) s) (\<lambda>s.
     bindO (if i_dev (inodes s ! dp) \<noteq> i_dev (inodes s ! ip) then Ok (-1, s)
            else dirlink me dp name (i_inum (inodes s ! ip)) s) (\<lambda>(r, s).
     bindO (iunlockput me dp s) (\<lambda>s.
     if r < 0 then sys_link_bad me ip s
     else bindO (iput me ip s) (end_ret me 0))))))))))))"

function isdirempty_loop :: "nat \<Rightarrow> nat \<Rightarrow> nat \<Rightarrow> nat \<Rightarrow> 'a kfs_scheme \<Rightarrow> (bool \<times> 'a kfs_scheme) outcome" where
  "isdirempty_loop me dp sz off s =
     (if off < sz then
        bindO (readi to_local me dp 0 (of_nat off) 16 (replicate 16 0) s) (\<lambda>(r, de, s).
        if r \<noteq> 16 then Panic ''isdirempty: readi''
        else if de_inum de \<noteq> 0 then Ok (False, s)
        else isdirempty_loop me dp sz (off + 16) s)
      else Ok (True, s))"
  by pat_completeness auto
termination
  by (relation "measure (\<lambda>(me, dp, sz, off, s). sz - off)") auto

declare isdirempty_loop.simps [simp del]

definition isdirempty :: "nat \<Rightarrow> nat \<Rightarrow> 'a kfs_scheme \<Rightarrow> (bool \<times> 'a kfs_scheme) outcome" where
  "isdirempty me dp s = isdirempty_loop me dp (unat (i_size (inodes s ! dp))) 32 s"

abbreviation dot :: byte where "dot \<equiv> 46"

definition sys_unlink :: "nat \<Rightarrow> 'a kfile_scheme \<Rightarrow> 'a kfile_scheme sysresult outcome" where
  "sys_unlink me s =
     bindO (argstr me 0 MAXPATH s) (\<lambda>(path, s).
     case path of None \<Rightarrow> Ok (SysRet (-1) s)
     | Some path \<Rightarrow>
     bindO (begin_op s) (\<lambda>s.
     bindO (nameiparent me path (replicate DIRSIZ 0) s) (\<lambda>(dpo, name, s).
     case dpo of None \<Rightarrow> end_ret me (-1) s
     | Some dp \<Rightarrow>
     bindO (ilock me (Some dp) s) (\<lambda>s.
     if namecmp name [dot] = 0 \<or> namecmp name [dot, dot] = 0 then put_end_ret me dp (-1) s
     else
     bindO (dirlookup me dp name s) (\<lambda>(r, s).
     case r of None \<Rightarrow> put_end_ret me dp (-1) s
     | Some (ip, off) \<Rightarrow>
     bindO (ilock me (Some ip) s) (\<lambda>s.
     if sint (i_nlink (inodes s ! ip)) < 1 then Panic ''unlink: nlink < 1''
     else
     bindO (if i_type (inodes s ! ip) = T_DIR then isdirempty me ip s else Ok (True, s)) (\<lambda>(removable, s).
     if \<not> removable then bindO (iunlockput me ip s) (put_end_ret me dp (-1))
     else
     bindO (writei (from_local (replicate 16 0)) me dp 0 (of_nat off) 16 s) (\<lambda>(r, s).
     if r \<noteq> 16 then Panic ''unlink: writei''
     else
     bindO (if i_type (inodes s ! ip) = T_DIR then iupdate me dp (add_nlink dp (-1) s) else Ok s) (\<lambda>s.
     bindO (iunlockput me dp s) (\<lambda>s.
     bindO (iupdate me ip (add_nlink ip (-1) s)) (put_end_ret me ip 0)))))))))))"

section \<open>Creating and opening\<close>

definition create_fail :: "nat \<Rightarrow> nat \<Rightarrow> nat \<Rightarrow> 'a kfs_scheme \<Rightarrow> (nat option \<times> 'a kfs_scheme) outcome" where
  "create_fail me ip dp s =
     bindO (iupdate me ip (upd_inode ip (\<lambda>i. i\<lparr>i_nlink := 0\<rparr>) s)) (\<lambda>s.
     bindO (iunlockput me ip s) (\<lambda>s.
     bindO (iunlockput me dp s) (\<lambda>s.
     Ok (None, s))))"

text \<open>The entries \<open>.\<close> and \<open>..\<close> of a new directory.\<close>

definition create_dots :: "nat \<Rightarrow> nat \<Rightarrow> nat \<Rightarrow> 'a kfs_scheme \<Rightarrow> (int \<times> 'a kfs_scheme) outcome" where
  "create_dots me ip dp s =
     bindO (dirlink me ip [dot] (i_inum (inodes s ! ip)) s) (\<lambda>(r, s).
     if r < 0 then Ok (-1, s) else dirlink me ip [dot, dot] (i_inum (inodes s ! dp)) s)"

definition create ::
  "nat \<Rightarrow> byte list \<Rightarrow> 16 word \<Rightarrow> 16 word \<Rightarrow> 16 word \<Rightarrow> 'a kfs_scheme \<Rightarrow> (nat option \<times> 'a kfs_scheme) outcome" where
  "create me path type major minor s =
     bindO (nameiparent me path (replicate DIRSIZ 0) s) (\<lambda>(dpo, name, s).
     case dpo of None \<Rightarrow> Ok (None, s)
     | Some dp \<Rightarrow>
     bindO (ilock me (Some dp) s) (\<lambda>s.
     bindO (dirlookup me dp name s) (\<lambda>(r, s).
     case r of Some (ip, _) \<Rightarrow>
         bindO (iunlockput me dp s) (\<lambda>s.
         bindO (ilock me (Some ip) s) (\<lambda>s.
         if type = T_FILE \<and> (i_type (inodes s ! ip) = T_FILE \<or> i_type (inodes s ! ip) = T_DEVICE) then Ok (Some ip, s)
         else bindO (iunlockput me ip s) (\<lambda>s. Ok (None, s))))
     | None \<Rightarrow>
     bindO (ialloc me (i_dev (inodes s ! dp)) type s) (\<lambda>(ipo, s).
     case ipo of None \<Rightarrow> bindO (iunlockput me dp s) (\<lambda>s. Ok (None, s))
     | Some ip \<Rightarrow>
     bindO (ilock me (Some ip) s) (\<lambda>s.
     bindO (iupdate me ip (upd_inode ip (\<lambda>i. i\<lparr>i_major := major, i_minor := minor, i_nlink := 1\<rparr>) s)) (\<lambda>s.
     bindO (if type = T_DIR then create_dots me ip dp s else Ok (0, s)) (\<lambda>(r, s).
     if r < 0 then create_fail me ip dp s
     else bindO (dirlink me dp name (i_inum (inodes s ! ip)) s) (\<lambda>(r, s).
     if r < 0 then create_fail me ip dp s
     else bindO (if type = T_DIR then iupdate me dp (add_nlink dp 1 s) else Ok s) (\<lambda>s.
     bindO (iunlockput me dp s) (\<lambda>s.
     Ok (Some ip, s)))))))))))"

definition bool_byte :: "bool \<Rightarrow> byte" where
  "bool_byte b = (if b then 1 else 0)"

text \<open>\<open>sys_open\<close> once the inode is found and locked.\<close>

definition open_inode :: "nat \<Rightarrow> int \<Rightarrow> nat \<Rightarrow> 'a kfile_scheme \<Rightarrow> 'a kfile_scheme sysresult outcome" where
  "open_inode me omode ip s =
     (let i = inodes s ! ip in
      if i_type i = T_DEVICE \<and> (sint (i_major i) < 0 \<or> sint (i_major i) \<ge> int NDEV) then put_end_ret me ip (-1) s
      else case filealloc s of (None, s) \<Rightarrow> put_end_ret me ip (-1) s
      | (Some f, s) \<Rightarrow>
          (case fdalloc me f s of
             (None, s) \<Rightarrow> bindO (fileclose me f s) (put_end_ret me ip (-1))
           | (Some fd, s) \<Rightarrow>
               let s = upd_file f (\<lambda>f. if i_type i = T_DEVICE then f\<lparr>f_type := FD_DEVICE, f_major := i_major i\<rparr>
                         else f\<lparr>f_type := FD_INODE, f_off := 0\<rparr>) s;
                   s = upd_file f (\<lambda>f. f\<lparr>f_ip := ip, f_readable := bool_byte (omode AND O_WRONLY = 0),
                         f_writable := bool_byte (omode AND O_WRONLY \<noteq> 0 \<or> omode AND O_RDWR \<noteq> 0)\<rparr>) s in
               bindO (if omode AND O_TRUNC \<noteq> 0 \<and> i_type i = T_FILE then itrunc me ip s else Ok s) (\<lambda>s.
               bindO (iunlock me (Some ip) s) (end_ret me (of_nat fd)))))"

definition sys_open :: "nat \<Rightarrow> 'a kfile_scheme \<Rightarrow> 'a kfile_scheme sysresult outcome" where
  "sys_open me s =
     bindO (argint me 1 s) (\<lambda>omode.
     bindO (argstr me 0 MAXPATH s) (\<lambda>(path, s).
     case path of None \<Rightarrow> Ok (SysRet (-1) s)
     | Some path \<Rightarrow>
     bindO (begin_op s) (\<lambda>s.
     if omode AND O_CREATE \<noteq> 0 then
       bindO (create me path T_FILE 0 0 s) (\<lambda>(ipo, s).
       case ipo of None \<Rightarrow> end_ret me (-1) s | Some ip \<Rightarrow> open_inode me omode ip s)
     else
       bindO (namei me path s) (\<lambda>(ipo, s).
       case ipo of None \<Rightarrow> end_ret me (-1) s
       | Some ip \<Rightarrow>
           bindO (ilock me (Some ip) s) (\<lambda>s.
           if i_type (inodes s ! ip) = T_DIR \<and> omode \<noteq> O_RDONLY then put_end_ret me ip (-1) s
           else open_inode me omode ip s)))))"

definition sys_mkdir :: "nat \<Rightarrow> 'a kfile_scheme \<Rightarrow> 'a kfile_scheme sysresult outcome" where
  "sys_mkdir me s =
     bindO (begin_op s) (\<lambda>s.
     bindO (argstr me 0 MAXPATH s) (\<lambda>(path, s).
     bindO (case path of None \<Rightarrow> Ok (None, s) | Some path \<Rightarrow> create me path T_DIR 0 0 s) (\<lambda>(ipo, s).
     case ipo of None \<Rightarrow> end_ret me (-1) s | Some ip \<Rightarrow> put_end_ret me ip 0 s)))"

definition sys_mknod :: "nat \<Rightarrow> 'a kfile_scheme \<Rightarrow> 'a kfile_scheme sysresult outcome" where
  "sys_mknod me s =
     bindO (begin_op s) (\<lambda>s.
     bindO (argint me 1 s) (\<lambda>major. bindO (argint me 2 s) (\<lambda>minor.
     bindO (argstr me 0 MAXPATH s) (\<lambda>(path, s).
     bindO (case path of None \<Rightarrow> Ok (None, s)
            | Some path \<Rightarrow> create me path T_DEVICE (of_int major) (of_int minor) s) (\<lambda>(ipo, s).
     case ipo of None \<Rightarrow> end_ret me (-1) s | Some ip \<Rightarrow> put_end_ret me ip 0 s)))))"

definition sys_chdir :: "nat \<Rightarrow> 'a kfile_scheme \<Rightarrow> 'a kfile_scheme sysresult outcome" where
  "sys_chdir me s =
     bindO (begin_op s) (\<lambda>s.
     bindO (argstr me 0 MAXPATH s) (\<lambda>(path, s).
     bindO (case path of None \<Rightarrow> Ok (None, s) | Some path \<Rightarrow> namei me path s) (\<lambda>(ipo, s).
     case ipo of None \<Rightarrow> end_ret me (-1) s
     | Some ip \<Rightarrow>
     bindO (ilock me (Some ip) s) (\<lambda>s.
     if i_type (inodes s ! ip) \<noteq> T_DIR then put_end_ret me ip (-1) s
     else
     bindO (iunlock me (Some ip) s) (\<lambda>s.
     bindO (case p_cwd (procs s ! me) of None \<Rightarrow> Undef | Some cwd \<Rightarrow> iput me cwd s) (\<lambda>s.
     bindO (end_op me s) (\<lambda>s.
     Ok (SysRet 0 (upd_proc me (\<lambda>p. p\<lparr>p_cwd := Some ip\<rparr>) s)))))))))"

section \<open>Exec and pipes\<close>

text \<open>
  The loop that fetches the arguments, with \<open>k\<close> entries of \<open>argv\<close> left: whether it reached the
  null pointer, and the pages with their strings.
\<close>

fun sys_exec_args ::
  "nat \<Rightarrow> nat \<Rightarrow> uint64 \<Rightarrow> (addr \<times> byte list) list \<Rightarrow> 'a kfile_scheme \<Rightarrow>
   (bool \<times> (addr \<times> byte list) list \<times> 'a kfile_scheme) outcome" where
  "sys_exec_args 0 me uargv argv s = Ok (False, argv, s)"
| "sys_exec_args (Suc k) me uargv argv s =
     bindO (fetchaddr me (uargv + 8 * of_nat (length argv)) s) (\<lambda>(uarg, s).
     case uarg of None \<Rightarrow> Ok (False, argv, s)
     | Some uarg \<Rightarrow>
         if uarg = 0 then Ok (True, argv, s)
         else let (pg, s) = kalloc s in
         if pg = 0 then Ok (False, argv, s)
         else bindO (fetchstr me uarg 4096 s) (\<lambda>(str, s).
         case str of None \<Rightarrow> Ok (False, argv @ [(pg, [])], s)
         | Some bs \<Rightarrow>
             sys_exec_args k me uargv (argv @ [(pg, bs)]) (s\<lparr>mem := store_bytes (mem s) pg (bs @ [0])\<rparr>)))"

fun kfree_all :: "addr list \<Rightarrow> 'a kmem_scheme \<Rightarrow> 'a kmem_scheme outcome" where
  "kfree_all [] s = Ok s"
| "kfree_all (pg # pgs) s = bindO (kfree pg s) (kfree_all pgs)"

definition sys_exec :: "nat \<Rightarrow> 'a kfile_scheme \<Rightarrow> 'a kfile_scheme sysresult outcome" where
  "sys_exec me s =
     bindO (argaddr me 1 s) (\<lambda>uargv.
     bindO (argstr me 0 MAXPATH s) (\<lambda>(path, s).
     case path of None \<Rightarrow> Ok (SysRet (-1) s)
     | Some path \<Rightarrow>
     bindO (sys_exec_args MAXARG me uargv [] s) (\<lambda>(ok, argv, s).
     bindO (if ok then kexec me path (map snd argv) s else Ok (-1, s)) (\<lambda>(ret, s).
     bindO (kfree_all (map fst argv) s) (\<lambda>s.
     Ok (SysRet (of_int ret) s))))))"

definition close_both :: "nat \<Rightarrow> nat \<Rightarrow> nat \<Rightarrow> 'a kfile_scheme \<Rightarrow> 'a kfile_scheme sysresult outcome" where
  "close_both me rfile wfile s = bindO (fileclose me rfile s) (\<lambda>s. bindO (fileclose me wfile s) (\<lambda>s. Ok (SysRet (-1) s)))"

definition sys_pipe :: "nat \<Rightarrow> 'a kfile_scheme \<Rightarrow> 'a kfile_scheme sysresult outcome" where
  "sys_pipe me s =
     bindO (argaddr me 0 s) (\<lambda>fdarray.
     bindO (pipealloc me s) (\<lambda>(r, s).
     case r of None \<Rightarrow> Ok (SysRet (-1) s)
     | Some (rfile, wfile) \<Rightarrow>
     (case fdalloc me rfile s of (None, s) \<Rightarrow> close_both me rfile wfile s
      | (Some fd0, s) \<Rightarrow>
     (case fdalloc me wfile s of (None, s) \<Rightarrow> close_both me rfile wfile (set_fd me fd0 None s)
      | (Some fd1, s) \<Rightarrow>
          let pagetable = p_pagetable (procs s ! me);
              undo = (\<lambda>s. close_both me rfile wfile (set_fd me fd1 None (set_fd me fd0 None s))) in
          bindO (copyout me pagetable fdarray (le_bytes 4 (of_nat fd0 :: uint32)) s) (\<lambda>(r, s).
          if r < 0 then undo s
          else bindO (copyout me pagetable (fdarray + 4) (le_bytes 4 (of_nat fd1 :: uint32)) s) (\<lambda>(r, s).
          if r < 0 then undo s else Ok (SysRet 0 s)))))))"

end
