(* ===== verification/Syscall.thy ===== *)
theory Syscall
  imports SysFile Console
begin

text \<open>
  The system calls on processes (\<open>src/kernel/sysproc.c\<close>) and the dispatch of a system call by its
  number (\<open>src/kernel/syscall.c\<close>). The argument \<open>c\<close> is the CPU.
\<close>

section \<open>Process calls\<close>

definition sys_exit :: "nat \<Rightarrow> nat \<Rightarrow> 'a kfile_scheme \<Rightarrow> 'a kfile_scheme sysresult outcome" where
  "sys_exit c me s = bindO (argint me 0 s) (\<lambda>n. bindO (kexit c me n s) (\<lambda>s. Ok (SysExit s)))"

definition sys_getpid :: "nat \<Rightarrow> 'a kproc_scheme \<Rightarrow> 'a kproc_scheme sysresult outcome" where
  "sys_getpid me s = Ok (SysRet (of_int (p_pid (procs s ! me))) s)"

definition sys_getnice :: "nat \<Rightarrow> 'a kproc_scheme \<Rightarrow> 'a kproc_scheme sysresult outcome" where
  "sys_getnice me s = bindO (argint me 0 s) (\<lambda>pid. Ok (SysRet (of_int (getnice pid s)) s))"

definition sys_setnice :: "nat \<Rightarrow> 'a kproc_scheme \<Rightarrow> 'a kproc_scheme sysresult outcome" where
  "sys_setnice me s = bindO (argint me 0 s) (\<lambda>pid. bindO (argint me 1 s) (\<lambda>value. sys_ret (Ok (setnice pid value s))))"

definition sys_ps :: "nat \<Rightarrow> 'a kcons_scheme \<Rightarrow> 'a kcons_scheme sysresult outcome" where
  "sys_ps me s = bindO (argint me 0 s) (\<lambda>pid.
     bindO (kprints (ps_list pid (ticks s) (procs s) (procs s) (procs s)) s) (\<lambda>s. Ok (SysRet 0 s)))"

definition sys_meminfo :: "nat \<Rightarrow> 'a kmem_scheme \<Rightarrow> 'a kmem_scheme sysresult outcome" where
  "sys_meminfo me s = (case meminfo s of None \<Rightarrow> NoFuel | Some n \<Rightarrow> Ok (SysRet n s))"

definition sys_fork :: "nat \<Rightarrow> 'a kfile_scheme \<Rightarrow> 'a kfile_scheme sysresult outcome" where
  "sys_fork me s = sys_ret (kfork me s)"

definition sys_wait :: "nat \<Rightarrow> 'a kfile_scheme \<Rightarrow> 'a kfile_scheme sysresult outcome" where
  "sys_wait me s = bindO (argaddr me 0 s) (\<lambda>p. sys_ret (kwait me p s))"

definition sys_waitpid :: "nat \<Rightarrow> 'a kproc_scheme \<Rightarrow> 'a kproc_scheme sysresult outcome" where
  "sys_waitpid me s = bindO (argint me 0 s) (\<lambda>pid. sys_ret (waitpid me pid s))"

definition SBRK_EAGER :: int where "SBRK_EAGER = 1"

definition sys_sbrk :: "nat \<Rightarrow> 'a kproc_scheme \<Rightarrow> 'a kproc_scheme sysresult outcome" where
  "sys_sbrk me s =
     bindO (argint me 0 s) (\<lambda>n. bindO (argint me 1 s) (\<lambda>t.
     let addr = p_sz (procs s ! me) in
     if t = SBRK_EAGER \<or> n < 0 then
       bindO (growproc me n s) (\<lambda>(r, s). Ok (SysRet (if r < 0 then -1 else addr) s))
     else if addr + of_int n < addr then Ok (SysRet (-1) s)
     else if addr + of_int n > TRAPFRAME then Ok (SysRet (-1) s)
     else Ok (SysRet addr (upd_proc me (\<lambda>p. p\<lparr>p_sz := p_sz p + of_int n\<rparr>) s))))"

text \<open>One test of the loop of \<open>sys_pause\<close>; the process sleeps on \<open>ticks\<close> between two tests.\<close>

definition pause_test :: "nat \<Rightarrow> int \<Rightarrow> uint32 \<Rightarrow> 'a kproc_scheme \<Rightarrow> 'a kproc_scheme progress" where
  "pause_test me n ticks0 s =
     (if ticks s - ticks0 < of_int n then if killed me s \<noteq> 0 then Ret (-1) s else Blk (uint ticks0) s
      else Ret 0 s)"

definition sys_pause :: "nat \<Rightarrow> 'a kproc_scheme \<Rightarrow> 'a kproc_scheme sysresult outcome" where
  "sys_pause me s = bindO (argint me 0 s) (\<lambda>n. sys_progress (Ok (pause_test me (if n < 0 then 0 else n) (ticks s) s)))"

definition sys_kill :: "nat \<Rightarrow> 'a kproc_scheme \<Rightarrow> 'a kproc_scheme sysresult outcome" where
  "sys_kill me s = bindO (argint me 0 s) (\<lambda>pid. sys_ret (Ok (kkill pid s)))"

definition sys_uptime :: "nat \<Rightarrow> 'a kproc_scheme \<Rightarrow> 'a kproc_scheme sysresult outcome" where
  "sys_uptime me s = Ok (SysRet (ucast (ticks s)) s)"

definition sys_mmap :: "nat \<Rightarrow> 'a kfile_scheme \<Rightarrow> 'a kfile_scheme sysresult outcome" where
  "sys_mmap me s =
     bindO (argaddr me 0 s) (\<lambda>addr. bindO (argint me 1 s) (\<lambda>len. bindO (argint me 2 s) (\<lambda>prot.
     bindO (argint me 3 s) (\<lambda>flags. bindO (argint me 4 s) (\<lambda>fd. bindO (argint me 5 s) (\<lambda>offset.
     bindO (kmmap me addr len prot flags fd offset s) (\<lambda>(r, s). Ok (SysRet r s))))))))"

definition sys_munmap :: "nat \<Rightarrow> 'a kfile_scheme \<Rightarrow> 'a kfile_scheme sysresult outcome" where
  "sys_munmap me s = bindO (argaddr me 0 s) (\<lambda>addr. sys_ret (kmunmap me addr s))"

definition sys_freemem :: "nat \<Rightarrow> 'a kmem_scheme \<Rightarrow> 'a kmem_scheme sysresult outcome" where
  "sys_freemem me s = Ok (SysRet (of_int (freemem s)) s)"

section \<open>Dispatch\<close>

text \<open>The table \<open>syscalls\<close>; \<open>pad\<close> is the indeterminate padding of \<open>struct stat\<close>.\<close>

definition syscalls ::
  "byte list \<Rightarrow> nat \<Rightarrow> int \<Rightarrow> (nat \<Rightarrow> 'a kcons_scheme \<Rightarrow> 'a kcons_scheme sysresult outcome) option" where
  "syscalls pad c num =
     (if num < 1 \<or> num > 29 then None
      else Some ([sys_fork, sys_exit c, sys_wait, sys_pipe, sys_read devsw_read, sys_kill, sys_exec, sys_fstat pad,
        sys_chdir, sys_dup, sys_getpid, sys_sbrk, sys_pause, sys_uptime, sys_open, sys_write devsw_write,
        sys_mknod, sys_unlink, sys_link, sys_mkdir, sys_close, sys_getnice, sys_setnice, sys_ps, sys_meminfo,
        sys_waitpid, sys_mmap, sys_munmap, sys_freemem] ! nat (num - 1)))"

definition syscall :: "byte list \<Rightarrow> nat \<Rightarrow> nat \<Rightarrow> 'a kcons_scheme \<Rightarrow> 'a kcons_scheme sysresult outcome" where
  "syscall pad c me s =
     (let num = sint (ucast (tf_get me (TF_a 7) s) :: uint32) in
      case syscalls pad c num of
        Some f \<Rightarrow> bindO (f me s) (\<lambda>r. Ok (case r of
            SysRet v s \<Rightarrow> SysRet v (tf_set me (TF_a 0) v s) | SysBlock i s \<Rightarrow> SysBlock i s | SysExit s \<Rightarrow> SysExit s))
      | None \<Rightarrow>
          bindO (kprint (''%d %s: unknown sys call %d'' @ [CHR 0x0A],
             [num_arg (p_pid (procs s ! me)), AStr (Some (cstring (p_name (procs s ! me)))), num_arg num]) s) (\<lambda>s.
          Ok (SysRet (-1) (tf_set me (TF_a 0) (-1) s))))"

end
