(* ===== verification/Trap.thy ===== *)
theory Trap
  imports Syscall
begin

text \<open>
  Traps (\<open>src/kernel/trap.c\<close>): traps from user space, the return to it, traps from the kernel and
  device interrupts, and the start of the first process (\<open>forkret\<close> of \<open>src/kernel/proc.c\<close>).
  The control registers of the hart are a record; what the devices present is an argument.
\<close>

section \<open>Registers and devices\<close>

record csr =
  sstatus :: uint64
  scause :: uint64
  stval :: uint64
  sepc :: uint64
  stvec :: uint64
  satp :: uint64

definition SSTATUS_SPP :: uint64 where "SSTATUS_SPP = push_bit 8 1"
definition SSTATUS_SPIE :: uint64 where "SSTATUS_SPIE = push_bit 5 1"
definition SSTATUS_SIE :: uint64 where "SSTATUS_SIE = push_bit 1 1"
definition MAKE_SATP :: "addr \<Rightarrow> uint64" where "MAKE_SATP pagetable = push_bit 60 8 OR drop_bit 12 pagetable"

definition UART0_IRQ :: int where "UART0_IRQ = 10"
definition VIRTIO0_IRQ :: int where "VIRTIO0_IRQ = 1"

text \<open>
  What the devices present at an interrupt: the number that the interrupt controller hands out,
  the input and readiness of the serial port, and the interrupt status of the disk.
\<close>

record devices =
  dv_irq :: int
  dv_input :: "byte list"
  dv_idle :: bool
  dv_disk :: "uint32 \<Rightarrow> uint32"

section \<open>Interrupts\<close>

definition plic_claim :: "devices \<Rightarrow> int" where
  "plic_claim dv = dv_irq dv"

definition devintr :: "devices \<Rightarrow> csr \<Rightarrow> nat \<Rightarrow> nat option \<Rightarrow> 'a kcons_scheme \<Rightarrow> (int \<times> 'a kcons_scheme) outcome" where
  "devintr dv r cpuid me s =
     (if scause r = 0x8000000000000009 then
        let irq = plic_claim dv in
        bindO (if irq = UART0_IRQ then uartintr me (dv_idle dv) (dv_input dv) s
               else if irq = VIRTIO0_IRQ then virtio_disk_intr (dv_disk dv) me s
               else if irq \<noteq> 0 then kprint (''unexpected interrupt irq=%d'' @ [CHR 0x0A], [num_arg irq]) s
               else Ok s) (\<lambda>s.
        Ok (1, s))
      else if scause r = 0x8000000000000005 then Ok (2, clockintr cpuid me s)
      else Ok (0, s))"

section \<open>Traps from user space\<close>

datatype 's trapres = Resume csr 's | Ended 's | Blocked int 's

text \<open>
  \<open>prepare_return\<close>: the trapframe words for the next trap and the registers for \<open>sret\<close>.
  \<open>uservec\<close> and \<open>usertrap_pc\<close> are the addresses of the trampoline's entry and of \<open>usertrap\<close>.
\<close>

definition prepare_return :: "uint64 \<Rightarrow> uint64 \<Rightarrow> nat \<Rightarrow> nat \<Rightarrow> csr \<Rightarrow> 'a kproc_scheme \<Rightarrow> csr \<times> 'a kproc_scheme" where
  "prepare_return uservec usertrap_pc hart me r s =
     (let s = tf_set me 0 (satp r) s;
          s = tf_set me 8 (p_kstack (procs s ! me) + PGSIZE) s;
          s = tf_set me 16 usertrap_pc s;
          s = tf_set me 32 (of_nat hart) s;
          x = (sstatus r AND NOT SSTATUS_SIE) AND NOT SSTATUS_SPP
      in (r\<lparr>stvec := TRAMPOLINE + (uservec - trampoline_pa s), sstatus := x OR SSTATUS_SPIE,
            sepc := tf_get me TF_epc s\<rparr>, s))"

definition user_return :: "uint64 \<Rightarrow> uint64 \<Rightarrow> nat \<Rightarrow> nat \<Rightarrow> csr \<Rightarrow> 'a kproc_scheme \<Rightarrow> 'a kproc_scheme trapres outcome" where
  "user_return uservec usertrap_pc hart me r s =
     (let (r, s) = prepare_return uservec usertrap_pc hart me r s
      in Ok (Resume (r\<lparr>satp := MAKE_SATP (p_pagetable (procs s ! me))\<rparr>) s))"

text \<open>After the cause is handled: exit if killed, account for a timer tick, return.\<close>

definition usertrap_tail ::
  "uint64 \<Rightarrow> uint64 \<Rightarrow> nat \<Rightarrow> nat \<Rightarrow> csr \<Rightarrow> int \<Rightarrow> 'a kcons_scheme \<Rightarrow> 'a kcons_scheme trapres outcome" where
  "usertrap_tail uservec usertrap_pc c me r which_dev s =
     (if killed me s \<noteq> 0 then bindO (kexit c me (-1) s) (\<lambda>s. Ok (Ended s))
      else bindO (if which_dev = 2 then timer_tick c me s else Ok s) (\<lambda>s.
        user_return uservec usertrap_pc c me r s))"

definition page_fault :: "nat \<Rightarrow> csr \<Rightarrow> 'a kfile_scheme \<Rightarrow> 'a kfile_scheme outcome" where
  "page_fault me r s =
     bindO (mmap_handle_pagefault me (stval r) (scause r = 15) s) (\<lambda>(h, s).
     if h = 1 then Ok s
     else bindO (vmfault me (p_pagetable (procs s ! me)) (stval r) s) (\<lambda>(pa, s).
     Ok (if pa \<noteq> 0 then s else setkilled me s)))"

definition usertrap ::
  "byte list \<Rightarrow> uint64 \<Rightarrow> uint64 \<Rightarrow> devices \<Rightarrow> nat \<Rightarrow> nat \<Rightarrow> csr \<Rightarrow> 'a kcons_scheme \<Rightarrow> 'a kcons_scheme trapres outcome" where
  "usertrap pad uservec usertrap_pc dv c me r s =
     (if sstatus r AND SSTATUS_SPP \<noteq> 0 then Panic ''usertrap: not from user mode''
      else let s = tf_set me TF_epc (sepc r) s in
      if scause r = 8 then
        if killed me s \<noteq> 0 then bindO (kexit c me (-1) s) (\<lambda>s. Ok (Ended s))
        else bindO (syscall pad c me (tf_set me TF_epc (tf_get me TF_epc s + 4) s)) (\<lambda>res.
          case res of SysRet v s \<Rightarrow> usertrap_tail uservec usertrap_pc c me r 0 s
          | SysBlock i s \<Rightarrow> Ok (Blocked i s) | SysExit s \<Rightarrow> Ok (Ended s))
      else bindO (devintr dv r c (Some me) s) (\<lambda>(which_dev, s).
        if which_dev \<noteq> 0 then usertrap_tail uservec usertrap_pc c me r which_dev s
        else if scause r = 13 \<or> scause r = 15 then
          bindO (page_fault me r s) (usertrap_tail uservec usertrap_pc c me r 0)
        else
          bindO (kprints [(''usertrap(): unexpected scause 0x%lx pid=%d'' @ [CHR 0x0A],
                            [ANum (scause r), num_arg (p_pid (procs s ! me))]),
                          ('' sepc=0x%lx stval=0x%lx'' @ [CHR 0x0A], [ANum (sepc r), ANum (stval r)])] s) (\<lambda>s.
          usertrap_tail uservec usertrap_pc c me r 0 (setkilled me s))))"

section \<open>Traps from the kernel\<close>

definition kerneltrap ::
  "devices \<Rightarrow> nat \<Rightarrow> nat option \<Rightarrow> csr \<Rightarrow> 'a kcons_scheme \<Rightarrow> 'a kcons_scheme outcome" where
  "kerneltrap dv c me r s =
     (if sstatus r AND SSTATUS_SPP = 0 then Panic ''kerneltrap: not from supervisor mode''
      else if sstatus r AND SSTATUS_SIE \<noteq> 0 then Panic ''kerneltrap: interrupts enabled''
      else bindO (devintr dv r c me s) (\<lambda>(which_dev, s).
        if which_dev = 0 then Panic ''kerneltrap''
        else case me of
          Some p \<Rightarrow> if which_dev = 2 then timer_tick c p s else Ok s
        | None \<Rightarrow> Ok s))"

section \<open>The first return to user space\<close>

text \<open>\<open>first\<close> is the static variable: the first process initialises the file system and loads \<open>/init\<close>.\<close>

definition init_path :: "byte list" where
  "init_path = map of_char ''/init''"

definition forkret ::
  "bool \<Rightarrow> uint64 \<Rightarrow> uint64 \<Rightarrow> nat \<Rightarrow> nat \<Rightarrow> csr \<Rightarrow> 'a kcons_scheme \<Rightarrow> 'a kcons_scheme trapres outcome" where
  "forkret first uservec usertrap_pc c me r s =
     bindO (if first then
              bindO (fsinit me ROOTDEV s) (\<lambda>s.
              bindO (kexec me init_path [init_path] s) (\<lambda>(n, s).
              let s = tf_set me (TF_a 0) (of_int n) s in
              if tf_get me (TF_a 0) s = -1 then Panic ''exec'' else Ok s))
            else Ok s) (\<lambda>s.
     user_return uservec usertrap_pc c me r s)"

end
