(* ===== verification/Ulib.thy ===== *)
theory Ulib
  imports CString Printf
begin

text \<open>
  The user library (\<open>src/user/ulib.c\<close>) on the memory of a process: strings, memory blocks, line
  input and number parsing. A loop that runs to a null byte has no bound in the code, so it is a
  partial function that yields \<open>None\<close> when it never ends. \<open>int\<close> arithmetic wraps at 32 bits, as
  the compiled code does.
\<close>

section \<open>Strings\<close>

partial_function (option) u_strcpy_loop :: "memory \<Rightarrow> addr \<Rightarrow> addr \<Rightarrow> memory option" where
  "u_strcpy_loop m s t =
     (let c = m t; m = m(s := c) in if c \<noteq> 0 then u_strcpy_loop m (s + 1) (t + 1) else Some m)"

definition u_strcpy :: "memory \<Rightarrow> addr \<Rightarrow> addr \<Rightarrow> memory option" where
  "u_strcpy m s t = u_strcpy_loop m s t"

partial_function (option) u_strcmp :: "memory \<Rightarrow> addr \<Rightarrow> addr \<Rightarrow> int option" where
  "u_strcmp m p q =
     (if m p \<noteq> 0 \<and> m p = m q then u_strcmp m (p + 1) (q + 1) else Some (uint (m p) - uint (m q)))"

partial_function (option) u_strlen_loop :: "memory \<Rightarrow> addr \<Rightarrow> nat \<Rightarrow> nat option" where
  "u_strlen_loop m s n = (if m (s + of_nat n) \<noteq> 0 then u_strlen_loop m s (Suc n) else Some n)"

definition u_strlen :: "memory \<Rightarrow> addr \<Rightarrow> nat option" where
  "u_strlen m s = u_strlen_loop m s 0"

text \<open>The address of the first occurrence, or 0.\<close>

partial_function (option) u_strchr :: "memory \<Rightarrow> addr \<Rightarrow> byte \<Rightarrow> addr option" where
  "u_strchr m s c = (if m s = 0 then Some 0 else if m s = c then Some s else u_strchr m (s + 1) c)"

text \<open>
  \<open>gets\<close> with the bytes that \<open>read(0, &c, 1)\<close> delivers until it returns less than 1: the contents
  stored in \<open>buf\<close> before the null, and the input left.
\<close>

function gets_loop :: "int \<Rightarrow> byte list \<Rightarrow> byte list \<Rightarrow> byte list \<times> byte list" where
  "gets_loop max_len buf input =
     (if int (length buf) + 1 < max_len then
        case input of [] \<Rightarrow> (buf, [])
        | c # rest \<Rightarrow>
            if c = 10 \<or> c = 13 then (buf @ [c], rest) else gets_loop max_len (buf @ [c]) rest
      else (buf, input))"
  by pat_completeness auto
termination
  by (relation "measure (\<lambda>(max_len, buf, input). length input)") auto

declare gets_loop.simps [simp del]

definition gets :: "int \<Rightarrow> byte list \<Rightarrow> byte list \<times> byte list" where
  "gets max_len input = gets_loop max_len [] input"

text \<open>\<open>atoi\<close> on the characters of a string; a null ends it as any other non-digit does.\<close>

fun atoi_loop :: "uint32 \<Rightarrow> string \<Rightarrow> uint32" where
  "atoi_loop n [] = n"
| "atoi_loop n (c # s) =
     (if 48 \<le> (of_char c :: nat) \<and> of_char c \<le> (57 :: nat) then atoi_loop (n * 10 + of_char c - 48) s else n)"

definition atoi :: "string \<Rightarrow> int" where
  "atoi s = sint (atoi_loop 0 s)"

section \<open>Memory blocks\<close>

function u_memset_loop :: "memory \<Rightarrow> addr \<Rightarrow> byte \<Rightarrow> nat \<Rightarrow> nat \<Rightarrow> memory" where
  "u_memset_loop m dst c n i = (if i < n then u_memset_loop (m(dst + of_nat i := c)) dst c n (Suc i) else m)"
  by pat_completeness auto
termination
  by (relation "measure (\<lambda>(m, dst, c, n, i). n - i)") auto

declare u_memset_loop.simps [simp del]

definition u_memset :: "memory \<Rightarrow> addr \<Rightarrow> uint32 \<Rightarrow> uint32 \<Rightarrow> memory" where
  "u_memset m dst c n = u_memset_loop m dst (ucast c) (unat n) 0"

fun u_memmove_up :: "memory \<Rightarrow> addr \<Rightarrow> addr \<Rightarrow> nat \<Rightarrow> memory" where
  "u_memmove_up m dst src 0 = m"
| "u_memmove_up m dst src (Suc n) = u_memmove_up (m(dst := m src)) (dst + 1) (src + 1) n"

fun u_memmove_down :: "memory \<Rightarrow> addr \<Rightarrow> addr \<Rightarrow> nat \<Rightarrow> memory" where
  "u_memmove_down m dst src 0 = m"
| "u_memmove_down m dst src (Suc n) = u_memmove_down (m(dst - 1 := m (src - 1))) (dst - 1) (src - 1) n"

definition u_memmove :: "memory \<Rightarrow> addr \<Rightarrow> addr \<Rightarrow> int \<Rightarrow> memory" where
  "u_memmove m vdst vsrc n =
     (if vsrc > vdst then u_memmove_up m vdst vsrc (nat n)
      else u_memmove_down m (vdst + of_int n) (vsrc + of_int n) (nat n))"

fun u_memcmp_loop :: "memory \<Rightarrow> addr \<Rightarrow> addr \<Rightarrow> nat \<Rightarrow> int" where
  "u_memcmp_loop m p1 p2 0 = 0"
| "u_memcmp_loop m p1 p2 (Suc n) =
     (if m p1 \<noteq> m p2 then uint (m p1) - uint (m p2) else u_memcmp_loop m (p1 + 1) (p2 + 1) n)"

definition u_memcmp :: "memory \<Rightarrow> addr \<Rightarrow> addr \<Rightarrow> uint32 \<Rightarrow> int" where
  "u_memcmp m s1 s2 n = u_memcmp_loop m s1 s2 (unat n)"

definition u_memcpy :: "memory \<Rightarrow> addr \<Rightarrow> addr \<Rightarrow> uint32 \<Rightarrow> memory" where
  "u_memcpy m dst src n = u_memmove m dst src (sint n)"

section \<open>Numbers in and out\<close>

lemma atoi_loop_snoc:
  "\<forall>c\<in>set s. 48 \<le> (of_char c :: nat) \<and> of_char c \<le> (57 :: nat) \<Longrightarrow> 48 \<le> (of_char d :: nat) \<Longrightarrow> of_char d \<le> (57 :: nat) \<Longrightarrow>
   atoi_loop n (s @ [d]) = atoi_loop n s * 10 + of_char d - 48"
  by (induction s arbitrary: n) auto

lemma atoi_loop_single:
  "48 \<le> (of_char d :: nat) \<Longrightarrow> of_char d \<le> (57 :: nat) \<Longrightarrow> atoi_loop 0 [d] = of_char d - 48"
  by simp

lemma digit_buf_single: "x div 10 = 0 \<Longrightarrow> digit_buf dg 10 x = [dg ! (x mod 10)]"
  by (subst digit_buf.simps) simp

lemma digit_buf_more: "x div 10 \<noteq> 0 \<Longrightarrow> digit_buf dg 10 x = dg ! (x mod 10) # digit_buf dg 10 (x div 10)"
  by (subst digit_buf.simps) simp

lemma digit_cases:
  "(d :: nat) < 10 \<Longrightarrow> d = 0 \<or> d = 1 \<or> d = 2 \<or> d = 3 \<or> d = 4 \<or> d = 5 \<or> d = 6 \<or> d = 7 \<or> d = 8 \<or> d = 9"
  by arith

lemma digit_char:
  assumes "d < 10"
  shows "48 \<le> (of_char (digits ! d) :: nat) \<and> of_char (digits ! d) \<le> (57 :: nat) \<and> of_char (digits ! d) - 48 = (of_nat d :: uint32)"
  using digit_cases [OF assms] by (elim disjE) (simp_all add: digits_def)

lemma digit_buf_digits:
  "\<forall>c\<in>set (digit_buf digits 10 x). 48 \<le> (of_char c :: nat) \<and> of_char c \<le> (57 :: nat)"
proof (induction x rule: less_induct)
  case (less x)
  have d: "48 \<le> (of_char (digits ! (x mod 10)) :: nat) \<and> of_char (digits ! (x mod 10)) \<le> (57 :: nat)"
    using digit_char [of "x mod 10"] by simp
  show ?case
  proof (cases "x div 10 = 0")
    case True
    then show ?thesis using d by (simp add: digit_buf_single [OF True])
  next
    case False
    then have "x div 10 < x" by (intro div_less_dividend) auto
    from less [OF this] show ?thesis using d unfolding digit_buf_more [OF False] by simp
  qed
qed

lemma atoi_digit_buf: "atoi_loop 0 (rev (digit_buf digits 10 x)) = of_nat x"
proof (induction x rule: less_induct)
  case (less x)
  let ?d = "digits ! (x mod 10)"
  have d: "48 \<le> (of_char ?d :: nat)" "of_char ?d \<le> (57 :: nat)" "of_char ?d - 48 = (of_nat (x mod 10) :: uint32)"
    using digit_char [of "x mod 10"] by auto
  have x: "(of_nat x :: uint32) = of_nat (x div 10) * 10 + of_nat (x mod 10)"
    by (metis div_mult_mod_eq of_nat_add of_nat_mult of_nat_numeral)
  show ?case
  proof (cases "x div 10 = 0")
    case True
    have "atoi_loop 0 (rev (digit_buf digits 10 x)) = of_char ?d - 48"
      unfolding digit_buf_single [OF True] rev.simps append.simps by (rule atoi_loop_single [OF d(1,2)])
    also have "\<dots> = of_nat x" unfolding d(3) x True by simp
    finally show ?thesis .
  next
    case False
    then have "x div 10 < x" by (intro div_less_dividend) auto
    then have ih: "atoi_loop 0 (rev (digit_buf digits 10 (x div 10))) = of_nat (x div 10)" by (rule less)
    have "atoi_loop 0 (rev (digit_buf digits 10 x)) = atoi_loop 0 (rev (digit_buf digits 10 (x div 10))) * 10 + of_char ?d - 48"
      unfolding digit_buf_more [OF False] rev.simps
      by (rule atoi_loop_snoc [OF _ d(1,2)]) (use digit_buf_digits in simp)
    also have "\<dots> = of_nat x" unfolding ih x d(3) [symmetric] by (rule add_diff_eq [symmetric])
    finally show ?thesis .
  qed
qed

lemma sint_of_nat_32: "k < 2147483648 \<Longrightarrow> sint (of_nat k :: uint32) = int k"
  by (simp add: signed_of_nat signed_take_bit_int_eq_self)

text \<open>
C33: \<open>atoi\<close> reads back what the kernel prints: for every number from 0 to the largest \<open>int\<close>, the
text of \<open>%d\<close> parses to that number, although the intermediate products wrap at 32 bits.
\<close>

theorem atoi_printint:
  assumes "0 \<le> x" "x < 2 ^ 31"
  shows "atoi (printint (of_int x) 10 True) = x"
proof -
  obtain k where x: "x = int k" and k: "k < 2147483648" using assms by (cases x) auto
  have u: "unat (of_nat k :: uint64) = k" using k by (simp add: unat_of_nat_64)
  then have "\<not> sint (of_nat k :: uint64) < 0" using sint_neg_unat [of "of_nat k"] k by linarith
  then have "printint (of_int x) 10 True = rev (digit_buf digits 10 k)"
    using u by (simp add: x printint_def printint_buf_def)
  then have "atoi (printint (of_int x) 10 True) = sint (of_nat k :: uint32)"
    by (simp only: atoi_def atoi_digit_buf)
  also have "\<dots> = int k" by (rule sint_of_nat_32) (use k in simp)
  finally show ?thesis using x by simp
qed

theorem atoi_printint_witness: "atoi (printint (of_int 2147483647) 10 True) = 2147483647"
  by (rule atoi_printint) simp_all

end
