(* ===== verification/UserProgs.thy ===== *)
theory UserProgs
  imports Printf Fs
begin

text \<open>
  Small programs under \<open>src/user\<close>: \<open>cat\<close>, \<open>wc\<close>, \<open>echo\<close>, the name formatting of \<open>ls\<close> and the random
  numbers of \<open>grind\<close>. What the successive calls of \<open>read\<close> on a descriptor return is an argument: the
  pieces with a positive length, and whether the last call fails. A piece has any length up to
  the buffer's, as with pipes and the console.
\<close>

section \<open>Programs\<close>

type_synonym reads = "string list \<times> bool"

text \<open>The calls a program makes: \<open>fprintf\<close> on a descriptor, or \<open>write\<close> of some bytes to the standard output.\<close>

datatype effect = Print nat string "varg list" | Write string

text \<open>What a function has put out, and the status if it has called \<open>exit\<close>.\<close>

type_synonym progress_out = "effect list \<times> int option"

abbreviation newline :: char where "newline \<equiv> CHR 0x0A"

text \<open>\<open>wr k\<close> is the value that the \<open>k\<close>-th call of \<open>write\<close> returns.\<close>

fun cat_loop :: "(nat \<Rightarrow> int) \<Rightarrow> nat \<Rightarrow> string list \<Rightarrow> progress_out" where
  "cat_loop wr k [] = ([], None)"
| "cat_loop wr k (buf # pieces) =
     (if wr k \<noteq> int (length buf) then ([Write buf, Print 2 (''cat: write error'' @ [newline]) []], Some 1)
      else let (out, st) = cat_loop wr (Suc k) pieces in (Write buf # out, st))"

definition cat :: "(nat \<Rightarrow> int) \<Rightarrow> reads \<Rightarrow> progress_out" where
  "cat wr fd = (case cat_loop wr 0 (fst fd) of
     (out, Some st) \<Rightarrow> (out, Some st)
   | (out, None) \<Rightarrow> if snd fd then (out @ [Print 2 (''cat: read error'' @ [newline]) []], Some 1) else (out, None))"

record wc_state =
  wc_l :: int
  wc_w :: int
  wc_c :: int
  wc_inword :: bool

definition is_sep :: "char \<Rightarrow> bool" where
  "is_sep c \<longleftrightarrow> c \<in> {CHR '' '', CHR 0x0D, CHR 0x09, CHR 0x0A, CHR 0x0B}"

definition wc_char :: "char \<Rightarrow> wc_state \<Rightarrow> wc_state" where
  "wc_char ch s =
     (let s = s\<lparr>wc_c := wc_c s + 1\<rparr>;
          s = (if ch = CHR 0x0A then s\<lparr>wc_l := wc_l s + 1\<rparr> else s)
      in if is_sep ch then s\<lparr>wc_inword := False\<rparr>
         else if \<not> wc_inword s then s\<lparr>wc_w := wc_w s + 1, wc_inword := True\<rparr>
         else s)"

fun wc_buf :: "string \<Rightarrow> wc_state \<Rightarrow> wc_state" where
  "wc_buf [] s = s"
| "wc_buf (ch # buf) s = wc_buf buf (wc_char ch s)"

fun wc_loop :: "string list \<Rightarrow> wc_state \<Rightarrow> wc_state" where
  "wc_loop [] s = s"
| "wc_loop (buf # pieces) s = wc_loop pieces (wc_buf buf s)"

definition int_arg :: "int \<Rightarrow> varg" where
  "int_arg n = ANum (of_int n)"

definition wc :: "reads \<Rightarrow> string \<Rightarrow> progress_out" where
  "wc fd name =
     (let s = wc_loop (fst fd) \<lparr>wc_l = 0, wc_w = 0, wc_c = 0, wc_inword = False\<rparr> in
      if snd fd then ([Print 1 (''wc: read error'' @ [newline]) []], Some 1)
      else ([Print 1 (''%d %d %d %s'' @ [newline]) [int_arg (wc_l s), int_arg (wc_w s), int_arg (wc_c s), AStr (Some name)]], None))"

text \<open>The loop over the arguments in both \<open>main\<close> functions: \<open>opened\<close> is what \<open>open\<close> gives for a name,
  and for \<open>cat\<close> the results of \<open>write\<close> depend on the file.\<close>

fun each_file :: "nat \<Rightarrow> string \<Rightarrow> (reads \<Rightarrow> string \<Rightarrow> progress_out) \<Rightarrow> (string \<Rightarrow> reads option) \<Rightarrow> string list \<Rightarrow> effect list \<times> int" where
  "each_file err fmt body opened [] = ([], 0)"
| "each_file err fmt body opened (a # args) = (case opened a of
     None \<Rightarrow> ([Print err fmt [AStr (Some a)]], 1)
   | Some fd \<Rightarrow> (case body fd a of
       (out, Some st) \<Rightarrow> (out, st)
     | (out, None) \<Rightarrow> (let (rest, st) = each_file err fmt body opened args in (out @ rest, st))))"

definition cat_main :: "(string \<Rightarrow> nat \<Rightarrow> int) \<Rightarrow> reads \<Rightarrow> (string \<Rightarrow> reads option) \<Rightarrow> string list \<Rightarrow> effect list \<times> int" where
  "cat_main wr stdin opened args =
     (if args = [] then (case cat (wr []) stdin of (out, st) \<Rightarrow> (out, case st of Some v \<Rightarrow> v | None \<Rightarrow> 0))
      else each_file 2 (''cat: cannot open %s'' @ [newline]) (\<lambda>fd a. cat (wr a) fd) opened args)"

definition wc_main :: "reads \<Rightarrow> (string \<Rightarrow> reads option) \<Rightarrow> string list \<Rightarrow> effect list \<times> int" where
  "wc_main stdin opened args =
     (if args = [] then (case wc stdin [] of (out, st) \<Rightarrow> (out, case st of Some v \<Rightarrow> v | None \<Rightarrow> 0))
      else each_file 1 (''wc: cannot open %s'' @ [newline]) wc opened args)"

fun echo_loop :: "string list \<Rightarrow> effect list" where
  "echo_loop [] = []"
| "echo_loop (a # args) = Write a # Write (if args \<noteq> [] then '' '' else [CHR 0x0A]) # echo_loop args"

definition echo_main :: "string list \<Rightarrow> effect list \<times> int" where
  "echo_main args = (echo_loop args, 0)"

section \<open>ls\<close>

text \<open>\<open>fmtname\<close>: the part of the path behind the last slash, padded with blanks to \<open>DIRSIZ\<close> characters.\<close>

fun after_slash :: "string \<Rightarrow> nat \<Rightarrow> nat" where
  "after_slash path 0 = 0"
| "after_slash path (Suc p) = (if path ! p = CHR ''/'' then Suc p else after_slash path p)"

definition fmtname :: "string \<Rightarrow> string" where
  "fmtname path =
     (let p = drop (after_slash path (length path)) path in
      if length p \<ge> DIRSIZ then p else p @ replicate (DIRSIZ - length p) CHR '' '')"

section \<open>Random numbers\<close>

definition do_rand :: "uint64 \<Rightarrow> int \<times> uint64" where
  "do_rand ctx =
     (let x = uint (ctx mod 0x7ffffffe) + 1;
          hi = x div 127773;
          lo = x mod 127773;
          x = 16807 * lo - 2836 * hi;
          x = (if x < 0 then x + 0x7fffffff else x);
          x = x - 1
      in (x, of_int x))"

section \<open>cat copies its input\<close>

lemma cat_copies:
  "(\<And>k. k < length pieces \<Longrightarrow> wr (j + k) = int (length (pieces ! k))) \<Longrightarrow> cat_loop wr j pieces = (map Write pieces, None)"
proof (induction pieces arbitrary: j)
  case (Cons b pieces)
  have "cat_loop wr (Suc j) pieces = (map Write pieces, None)"
    using Cons.prems [of "Suc k" for k] by (intro Cons.IH) simp
  moreover have "wr j = int (length b)" using Cons.prems [of 0] by simp
  ultimately show ?case by simp
qed simp

section \<open>wc counts\<close>

text \<open>A word starts at a character that is no separator and follows none but a separator.\<close>

definition word_starts :: "string \<Rightarrow> nat set" where
  "word_starts t = {i. i < length t \<and> \<not> is_sep (t ! i) \<and> (i = 0 \<or> is_sep (t ! (i - 1)))}"

lemma wc_buf_append: "wc_buf (xs @ ys) s = wc_buf ys (wc_buf xs s)"
  by (induction xs arbitrary: s) auto

lemma wc_loop_concat: "wc_loop pieces s = wc_buf (concat pieces) s"
  by (induction pieces arbitrary: s) (auto simp: wc_buf_append)

lemma word_starts_snoc:
  "word_starts (xs @ [c]) = word_starts xs \<union> (if \<not> is_sep c \<and> (xs = [] \<or> is_sep (last xs)) then {length xs} else {})"
  by (cases "xs = []") (auto simp: word_starts_def nth_append last_conv_nth less_Suc_eq split: if_splits)

lemma finite_word_starts [simp]: "finite (word_starts xs)" "length xs \<notin> word_starts xs"
  by (auto simp: word_starts_def)

lemma wc_buf_counts:
  "wc_buf xs \<lparr>wc_l = 0, wc_w = 0, wc_c = 0, wc_inword = False\<rparr> =
     \<lparr>wc_l = int (count_list xs newline), wc_w = int (card (word_starts xs)), wc_c = int (length xs),
       wc_inword = (xs \<noteq> [] \<and> \<not> is_sep (last xs))\<rparr>"
proof (induction xs rule: rev_induct)
  case Nil
  then show ?case by (simp add: word_starts_def)
next
  case (snoc c xs)
  then show ?case by (auto simp: wc_buf_append wc_char_def Let_def word_starts_snoc is_sep_def)
qed


section \<open>The generator of Park and Miller\<close>

text \<open>
  \<open>do_rand\<close> computes \<open>7 ^ 5 * x mod (2 ^ 31 - 1)\<close> without ever leaving 32 bits; zero never comes up,
  since 16807 is invertible modulo \<open>2 ^ 31 - 1\<close>.
\<close>

lemma park_miller_step:
  fixes x :: int
  defines "y \<equiv> 16807 * (x mod 127773) - 2836 * (x div 127773)"
  assumes x: "1 \<le> x" "x \<le> 0x7ffffffe"
  shows "(if y < 0 then y + 0x7fffffff else y) = 16807 * x mod 0x7fffffff" "1 \<le> 16807 * x mod 0x7fffffff"
    "- (2 ^ 31) < y" "y < 2 ^ 31"
proof -
  have e: "16807 * x = y + 0x7fffffff * (x div 127773)" using div_mult_mod_eq [of x 127773] unfolding y_def by linarith
  have b: "0 \<le> x div 127773" "x div 127773 \<le> 16807" "0 \<le> x mod 127773" "x mod 127773 < 127773" using x by auto
  then have y: "- 0x7fffffff < y" "y < 0x7fffffff" unfolding y_def by linarith+
  then show "- (2 ^ 31) < y" "y < 2 ^ 31" by simp_all
  have m: "16807 * x mod 0x7fffffff = y mod 0x7fffffff" unfolding e by simp
  show "(if y < 0 then y + 0x7fffffff else y) = 16807 * x mod 0x7fffffff"
  proof (cases "y < 0")
    case True
    then have "(y + 0x7fffffff) mod 0x7fffffff = y + 0x7fffffff" using y by (intro mod_pos_pos_trivial) auto
    then show ?thesis using True m by simp
  next
    case False
    then show ?thesis using y m by simp
  qed
  have "16807 * x mod 0x7fffffff \<noteq> 0"
  proof
    assume "16807 * x mod 0x7fffffff = 0"
    then have d: "0x7fffffff dvd 1407677000 * (16807 * x)" by (intro dvd_mult mod_0_imp_dvd)
    have "x = 1407677000 * (16807 * x) - 0x7fffffff * (11017 * x)" by simp
    then have "0x7fffffff dvd x" using dvd_diff [OF d dvd_triv_left] by metis
    from zdvd_imp_le [OF this] show False using x by linarith
  qed
  moreover have "0 \<le> 16807 * x mod 0x7fffffff" by simp
  ultimately show "1 \<le> 16807 * x mod 0x7fffffff" by linarith
qed

lemma do_rand_park_miller:
  "fst (do_rand ctx) + 1 = 16807 * (uint (ctx mod 0x7ffffffe) + 1) mod 0x7fffffff" "0 \<le> fst (do_rand ctx)" "fst (do_rand ctx) \<le> 0x7ffffffd"
proof -
  let ?x = "uint (ctx mod 0x7ffffffe) + 1"
  have "uint (ctx mod 0x7ffffffe) < 0x7ffffffe" by (simp add: uint_mod)
  then have x: "1 \<le> ?x" "?x \<le> 0x7ffffffe" by simp_all
  note P = park_miller_step [OF x]
  show e: "fst (do_rand ctx) + 1 = 16807 * ?x mod 0x7fffffff" using P(1) by (simp add: do_rand_def Let_def)
  then show "0 \<le> fst (do_rand ctx)" using P(2) by linarith
  have "16807 * ?x mod 0x7fffffff < 0x7fffffff" by simp
  then show "fst (do_rand ctx) \<le> 0x7ffffffd" using e by linarith
qed

end
