(* ===== verification/Grep.thy ===== *)
theory Grep
  imports Prelude
begin

text \<open>
  \<open>grep\<close> (\<open>src/user/grep.c\<close>): the matcher for the operators \<open>^ . * $\<close> and the loop that splits a
  file into lines through a buffer of 1024 bytes. A string is the list of its characters without
  the null. The file is read as a regular file: \<open>read\<close> returns as many bytes as fit and are left.
\<close>

section \<open>The matcher\<close>

function matchhere :: "string \<Rightarrow> string \<Rightarrow> bool" and matchstar :: "char \<Rightarrow> string \<Rightarrow> string \<Rightarrow> bool" where
  "matchhere re txt =
     (case re of [] \<Rightarrow> True
      | c # r \<Rightarrow>
          if r \<noteq> [] \<and> hd r = CHR ''*'' then matchstar c (tl r) txt
          else if c = CHR ''$'' \<and> r = [] then txt = []
          else if txt \<noteq> [] \<and> (c = CHR ''.'' \<or> c = hd txt) then matchhere r (tl txt)
          else False)"
| "matchstar c re txt =
     (if matchhere re txt then True
      else if txt \<noteq> [] \<and> (hd txt = c \<or> c = CHR ''.'') then matchstar c re (tl txt)
      else False)"
  by pat_completeness auto
termination
proof (relation "measure (\<lambda>x. case x of Inl (re, t) \<Rightarrow> 2 * (length re + length t)
    | Inr (c, re, t) \<Rightarrow> 2 * (length re + length t) + 1)", goal_cases)
  case (2 re t c r) then show ?case by (cases r) auto
next
  case (5 c re t) then show ?case by (cases t) auto
qed auto

declare matchhere.simps [simp del] matchstar.simps [simp del]

fun match_from :: "string \<Rightarrow> string \<Rightarrow> bool" where
  "match_from re txt =
     (if matchhere re txt then True else case txt of [] \<Rightarrow> False | _ # t \<Rightarrow> match_from re t)"

definition match :: "string \<Rightarrow> string \<Rightarrow> bool" where
  "match re txt = (if re \<noteq> [] \<and> hd re = CHR ''^'' then matchhere (tl re) txt else match_from re txt)"

section \<open>Lines\<close>

text \<open>
  The inner loop over the complete lines in the buffer: what is written and the rest after the
  last newline. \<open>strchr\<close> stops at a null byte of the file.
\<close>

abbreviation nl :: char where "nl \<equiv> CHR 0x0A"

function grep_lines :: "string \<Rightarrow> string \<Rightarrow> string \<times> string" where
  "grep_lines pattern p =
     (if nl \<in> set (takeWhile (\<lambda>c. c \<noteq> CHR 0x00) p) then
        let line = takeWhile (\<lambda>c. c \<noteq> nl) p;
            (out, rest) = grep_lines pattern (tl (dropWhile (\<lambda>c. c \<noteq> nl) p))
        in (if match pattern line then line @ nl # out else out, rest)
      else ([], p))"
  by pat_completeness auto
termination
proof (relation "measure (\<lambda>(pattern, p). length p)", goal_cases)
  case (2 pattern p line)
  then have "p \<noteq> []" by (auto dest: set_takeWhileD)
  then show ?case using length_dropWhile_le [of "\<lambda>c. c \<noteq> nl" p] by (cases p) auto
qed auto

declare grep_lines.simps [simp del]

definition GREP_BUF :: nat where "GREP_BUF = 1024"

function grep :: "string \<Rightarrow> string \<Rightarrow> string \<Rightarrow> string" where
  "grep pattern buf input =
     (let n = GREP_BUF - length buf - 1; chunk = take n input in
      if chunk = [] then []
      else let (out, rest) = grep_lines pattern (buf @ chunk)
           in out @ grep pattern rest (drop n input))"
  by pat_completeness auto
termination
  by (relation "measure (\<lambda>(pattern, buf, input). length input)") (auto simp flip: length_greater_0_conv)

declare grep.simps [simp del]

section \<open>What a pattern means\<close>

text \<open>
  A pattern without \<open>^\<close> is a list of items, each one character or any number of them, with a flag
  that says whether it ends in \<open>$\<close>. Its meaning does not mention how a match is found.
\<close>

datatype item = One char | Many char

fun items :: "string \<Rightarrow> item list \<times> bool" where
  "items [] = ([], False)"
| "items [c] = (if c = CHR ''$'' then ([], True) else ([One c], False))"
| "items (c # d # r) =
     (if d = CHR ''*'' then (case items r of (is, e) \<Rightarrow> (Many c # is, e))
      else (case items (d # r) of (is, e) \<Rightarrow> (One c # is, e)))"

definition fits :: "char \<Rightarrow> char \<Rightarrow> bool" where
  "fits c x \<longleftrightarrow> c = CHR ''.'' \<or> c = x"

primrec item_text :: "item \<Rightarrow> string \<Rightarrow> bool" where
  "item_text (One c) u \<longleftrightarrow> (\<exists>x. u = [x] \<and> fits c x)"
| "item_text (Many c) u \<longleftrightarrow> (\<forall>x\<in>set u. fits c x)"

definition here_spec :: "item list \<times> bool \<Rightarrow> string \<Rightarrow> bool" where
  "here_spec p t \<longleftrightarrow> (\<exists>us rest. list_all2 item_text (fst p) us \<and> t = concat us @ rest \<and> (snd p \<longrightarrow> rest = []))"

definition match_spec :: "string \<Rightarrow> string \<Rightarrow> bool" where
  "match_spec re t \<longleftrightarrow>
     (if re \<noteq> [] \<and> hd re = CHR ''^'' then here_spec (items (tl re)) t
      else \<exists>pre suf. t = pre @ suf \<and> here_spec (items re) suf)"

section \<open>The matcher decides the meaning\<close>

lemma here_spec_nil [simp]: "here_spec ([], e) t \<longleftrightarrow> (e \<longrightarrow> t = [])"
  by (auto simp: here_spec_def)

lemma here_spec_One: "here_spec (One c # is, e) t \<longleftrightarrow> (\<exists>x t'. t = x # t' \<and> fits c x \<and> here_spec (is, e) t')"
proof
  assume "here_spec (One c # is, e) t"
  then obtain x us rest where "fits c x" "list_all2 item_text is us" "t = x # concat us @ rest" "e \<longrightarrow> rest = []"
    by (auto simp: here_spec_def list_all2_Cons1)
  then show "\<exists>x t'. t = x # t' \<and> fits c x \<and> here_spec (is, e) t'" by (auto simp: here_spec_def)
next
  assume "\<exists>x t'. t = x # t' \<and> fits c x \<and> here_spec (is, e) t'"
  then obtain x us rest where f: "fits c x" "list_all2 item_text is us" "t = x # concat us @ rest" "e \<longrightarrow> rest = []"
    by (auto simp: here_spec_def)
  then have "list_all2 item_text (One c # is) ([x] # us)" "t = concat ([x] # us) @ rest" by auto
  then show "here_spec (One c # is, e) t" unfolding here_spec_def fst_conv snd_conv using f(4) by blast
qed

lemma here_spec_Many:
  "here_spec (Many c # is, e) t \<longleftrightarrow> (\<exists>u v. t = u @ v \<and> (\<forall>x\<in>set u. fits c x) \<and> here_spec (is, e) v)"
proof
  assume "here_spec (Many c # is, e) t"
  then obtain u us rest where "\<forall>x\<in>set u. fits c x" "list_all2 item_text is us" "t = u @ concat us @ rest" "e \<longrightarrow> rest = []"
    by (auto simp: here_spec_def list_all2_Cons1)
  then show "\<exists>u v. t = u @ v \<and> (\<forall>x\<in>set u. fits c x) \<and> here_spec (is, e) v"
    by (intro exI [of _ u] exI [of _ "concat us @ rest"]) (auto simp: here_spec_def)
next
  assume "\<exists>u v. t = u @ v \<and> (\<forall>x\<in>set u. fits c x) \<and> here_spec (is, e) v"
  then obtain u us rest where f: "\<forall>x\<in>set u. fits c x" "list_all2 item_text is us" "t = u @ concat us @ rest" "e \<longrightarrow> rest = []"
    by (auto simp: here_spec_def)
  then have "list_all2 item_text (Many c # is) (u # us)" "t = concat (u # us) @ rest" by auto
  then show "here_spec (Many c # is, e) t" unfolding here_spec_def fst_conv snd_conv using f(4) by blast
qed

lemma some_prefix_Cons:
  "(\<exists>u v. x # t = u @ v \<and> (\<forall>y\<in>set u. P y) \<and> Q v) \<longleftrightarrow> Q (x # t) \<or> P x \<and> (\<exists>u v. t = u @ v \<and> (\<forall>y\<in>set u. P y) \<and> Q v)"
proof
  assume "\<exists>u v. x # t = u @ v \<and> (\<forall>y\<in>set u. P y) \<and> Q v"
  then obtain u v where "x # t = u @ v" "\<forall>y\<in>set u. P y" "Q v" by blast
  then show "Q (x # t) \<or> P x \<and> (\<exists>u v. t = u @ v \<and> (\<forall>y\<in>set u. P y) \<and> Q v)" by (cases u) auto
next
  assume "Q (x # t) \<or> P x \<and> (\<exists>u v. t = u @ v \<and> (\<forall>y\<in>set u. P y) \<and> Q v)"
  then show "\<exists>u v. x # t = u @ v \<and> (\<forall>y\<in>set u. P y) \<and> Q v"
  proof (elim disjE conjE exE)
    assume "Q (x # t)" then show ?thesis by (intro exI [of _ "[]"] exI [of _ "x # t"]) simp
  next
    fix u v assume "P x" "t = u @ v" "\<forall>y\<in>set u. P y" "Q v"
    then show ?thesis by (intro exI [of _ "x # u"] exI [of _ v]) simp
  qed
qed

lemma matchhere_spec: "matchhere re t \<longleftrightarrow> here_spec (items re) t"
  and matchstar_spec: "matchstar c re t \<longleftrightarrow> here_spec (Many c # fst (items re), snd (items re)) t"
proof (induction re t and c re t rule: matchhere_matchstar.induct)
  case (1 re t)
  show ?case
  proof (cases re rule: items.cases)
    case 1 then show ?thesis by (simp add: matchhere.simps [of "[]"])
  next
    case (2 d)
    then show ?thesis using "1.IH" by (cases t) (auto simp: matchhere.simps [of "[d]"] matchhere.simps [of "[]"] here_spec_One fits_def)
  next
    case (3 d e r)
    show ?thesis
    proof (cases "e = CHR ''*''")
      case True
      then show ?thesis using "1.IH"(1) [of d "e # r"] 3
        by (simp add: matchhere.simps [of "d # CHR ''*'' # r"] split: prod.split)
    next
      case False
      then show ?thesis using "1.IH"(2) [of d "e # r"] 3
        by (cases t) (auto simp: matchhere.simps [of "d # e # r"] here_spec_One fits_def split: prod.split)
    qed
  qed
next
  case (2 c re t)
  obtain "is" e where i: "items re = (is, e)" by (cases "items re")
  show ?case
  proof (cases t)
    case Nil
    then show ?thesis using 2(1) i by (simp add: matchstar.simps [of c re] here_spec_Many)
  next
    case (Cons x t')
    have "matchstar c re t \<longleftrightarrow> here_spec (is, e) t \<or> fits c x \<and> matchstar c re t'"
      using 2(1) i unfolding matchstar.simps [of c re t] unfolding Cons by (auto simp: fits_def)
    also have "\<dots> \<longleftrightarrow> here_spec (is, e) t \<or> fits c x \<and> here_spec (Many c # is, e) t'"
      using 2 i Cons by (auto simp: fits_def)
    also have "\<dots> \<longleftrightarrow> here_spec (Many c # is, e) t"
      unfolding here_spec_Many Cons by (rule some_prefix_Cons [symmetric])
    finally show ?thesis using i by simp
  qed
qed

lemma match_from_spec: "match_from re t \<longleftrightarrow> (\<exists>pre suf. t = pre @ suf \<and> here_spec (items re) suf)"
proof (induction t)
  case Nil then show ?case by (simp add: matchhere_spec)
next
  case (Cons x t)
  have "(\<exists>pre suf. x # t = pre @ suf \<and> Q suf) \<longleftrightarrow> Q (x # t) \<or> (\<exists>pre suf. t = pre @ suf \<and> Q suf)" for Q
    using some_prefix_Cons [of x t "\<lambda>_. True" Q] by simp
  then show ?case using Cons by (simp add: matchhere_spec)
qed

lemma match_meaning: "match re t \<longleftrightarrow> match_spec re t"
  unfolding match_def match_spec_def matchhere_spec match_from_spec by (rule refl)

text \<open>
C25: The matcher of grep is correct: for every pattern and every text, it answers yes exactly when
the text contains a piece that the pattern describes, at its start if the pattern begins with \<open>^\<close>
and at its end if it ends with \<open>$\<close>, where a star stands for any number of repetitions.
\<close>

theorem match_correct: "match re t \<longleftrightarrow> match_spec re t"
  by (rule match_meaning)
section \<open>The lines of a file\<close>

function complete_lines :: "string \<Rightarrow> string list" where
  "complete_lines p =
     (if nl \<in> set p then takeWhile (\<lambda>c. c \<noteq> nl) p # complete_lines (tl (dropWhile (\<lambda>c. c \<noteq> nl) p)) else [])"
  by pat_completeness auto
termination
proof (relation "measure length", goal_cases)
  case (2 p)
  then have "p \<noteq> []" by auto
  then show ?case using length_dropWhile_le [of "\<lambda>c. c \<noteq> nl" p] by (cases p) auto
qed auto

declare complete_lines.simps [simp del]

fun last_part :: "string \<Rightarrow> string" where
  "last_part [] = []"
| "last_part (c # p) = (if nl \<in> set (c # p) then last_part p else c # p)"

definition selected :: "string \<Rightarrow> string list \<Rightarrow> string" where
  "selected pattern ls = concat (map (\<lambda>l. l @ [nl]) (filter (match pattern) ls))"

lemma selected_append [simp]: "selected pattern (ls @ ls') = selected pattern ls @ selected pattern ls'"
  by (simp add: selected_def)

lemma complete_lines_line: "nl \<notin> set l \<Longrightarrow> complete_lines (l @ nl # p) = l # complete_lines p"
  by (subst complete_lines.simps) (simp add: takeWhile_append dropWhile_append)

lemma complete_lines_none: "nl \<notin> set p \<Longrightarrow> complete_lines p = []"
  by (simp add: complete_lines.simps)

lemma last_part_none: "nl \<notin> set p \<Longrightarrow> last_part p = p"
  by (cases p) auto

lemma last_part_line: "last_part (l @ nl # p) = last_part p"
  by (induction l) auto

lemma first_line: "nl \<in> set p \<Longrightarrow> \<exists>l p'. p = l @ nl # p' \<and> nl \<notin> set l"
  by (metis split_list_first)

lemma last_part_no_nl: "nl \<notin> set (last_part p)"
  by (induction p rule: last_part.induct) auto

lemma complete_lines_append:
  "complete_lines (p @ q) = complete_lines p @ complete_lines (last_part p @ q)"
proof (induction p rule: length_induct)
  case (1 p)
  show ?case
  proof (cases "nl \<in> set p")
    case True
    then obtain l p' where p: "p = l @ nl # p'" "nl \<notin> set l" using first_line by blast
    then show ?thesis using 1 by (simp add: complete_lines_line last_part_line)
  qed (simp add: complete_lines_none last_part_none)
qed

lemma grep_lines_correct:
  "CHR 0x00 \<notin> set p \<Longrightarrow> grep_lines pattern p = (selected pattern (complete_lines p), last_part p)"
proof (induction p rule: length_induct)
  case (1 p)
  have tw: "takeWhile (\<lambda>c. c \<noteq> CHR 0x00) p = p" using 1(2) by (simp add: takeWhile_eq_all_conv) metis
  show ?case
  proof (cases "nl \<in> set p")
    case True
    then obtain l p' where p: "p = l @ nl # p'" "nl \<notin> set l" using first_line by blast
    have "grep_lines pattern p' = (selected pattern (complete_lines p'), last_part p')" using 1 p by simp
    moreover have "takeWhile (\<lambda>c. c \<noteq> CHR 0x00) (l @ nl # p') = l @ nl # p'" using tw p(1) by simp
    ultimately show ?thesis using p(2) unfolding p(1)
      by (simp add: grep_lines.simps [of pattern "l @ nl # p'"] complete_lines_line last_part_line selected_def
          takeWhile_append dropWhile_append)
  next
    case False
    then have "nl \<notin> set (takeWhile (\<lambda>c. c \<noteq> CHR 0x00) p)" by (auto dest: set_takeWhileD)
    then show ?thesis using False
      by (simp add: grep_lines.simps [of pattern p] complete_lines_none last_part_none selected_def)
  qed
qed

lemma last_part_suffix: "\<exists>q. p = q @ last_part p"
proof (induction p rule: last_part.induct)
  case (2 c p)
  show ?case
  proof (cases "nl \<in> set (c # p)")
    case True
    then obtain q where "p = q @ last_part p" using 2 by blast
    then have "c # p = (c # q) @ last_part (c # p)" using True by simp
    then show ?thesis by blast
  qed simp
qed simp

lemma stuck_no_lines:
  "nl \<notin> set buf \<Longrightarrow> length buf \<ge> 1023 \<Longrightarrow> \<forall>l\<in>set (complete_lines (buf @ input)). length l \<le> 1022 \<Longrightarrow>
   complete_lines (buf @ input) = []"
proof (rule ccontr)
  assume a: "nl \<notin> set buf" "length buf \<ge> 1023" "\<forall>l\<in>set (complete_lines (buf @ input)). length l \<le> 1022"
    and ne: "complete_lines (buf @ input) \<noteq> []"
  then have "nl \<in> set input" using complete_lines_none [of "buf @ input"] by auto
  then obtain l q where "input = l @ nl # q" "nl \<notin> set l" using first_line by blast
  then have "complete_lines (buf @ input) = (buf @ l) # complete_lines q"
    using complete_lines_line [of "buf @ l" q] a(1) by simp
  then show False using a by simp
qed

lemma grep_selects:
  assumes "CHR 0x00 \<notin> set (buf @ input)" "nl \<notin> set buf"
    "\<forall>l\<in>set (complete_lines (buf @ input)). length l \<le> 1022"
  shows "grep pattern buf input = selected pattern (complete_lines (buf @ input))"
  using assms
proof (induction "length input" arbitrary: buf input rule: less_induct)
  case less
  let ?n = "GREP_BUF - length buf - 1"
  let ?chunk = "take ?n input"
  have lines: "complete_lines (buf @ input) = complete_lines (buf @ ?chunk) @ complete_lines (last_part (buf @ ?chunk) @ drop ?n input)"
    using complete_lines_append [of "buf @ ?chunk" "drop ?n input"] by simp
  show ?case
  proof (cases "?chunk = []")
    case True
    then have "input = [] \<or> length buf \<ge> 1023" by (auto simp: GREP_BUF_def)
    then have "complete_lines (buf @ input) = []"
      using less.prems stuck_no_lines [of buf input] by (auto simp: complete_lines_none)
    then show ?thesis using True by (simp add: grep.simps [of pattern buf] selected_def)
  next
    case False
    then have short: "length (drop ?n input) < length input" by (auto simp flip: length_greater_0_conv)
    have nn: "CHR 0x00 \<notin> set (buf @ ?chunk)" using less.prems(1) by (auto dest: in_set_takeD)
    obtain q where q: "buf @ ?chunk = q @ last_part (buf @ ?chunk)" using last_part_suffix by blast
    have "set (last_part (buf @ ?chunk)) \<subseteq> set (buf @ ?chunk)" by (subst (2) q) auto
    then have "CHR 0x00 \<notin> set (last_part (buf @ ?chunk) @ drop ?n input)"
      using nn less.prems(1) by (auto dest: in_set_dropD)
    then have "grep pattern (last_part (buf @ ?chunk)) (drop ?n input)
        = selected pattern (complete_lines (last_part (buf @ ?chunk) @ drop ?n input))"
      using less.hyps [OF short] less.prems(3) lines last_part_no_nl by auto
    then show ?thesis using False nn lines
      by (simp add: grep.simps [of pattern buf] grep_lines_correct Let_def)
  qed
qed

text \<open>
C26: grep prints exactly the lines of a file that match, in order, each with its newline: for a file
without null bytes whose complete lines have at most 1022 characters, the output is the
concatenation of the complete lines that the pattern matches, no matter how the lines fall on the
boundaries of the 1024-byte buffer. A last line without a newline is never printed.
\<close>

theorem grep_prints_matching_lines:
  assumes "CHR 0x00 \<notin> set input" "\<forall>l\<in>set (complete_lines input). length l \<le> 1022"
  shows "grep pattern [] input = concat (map (\<lambda>l. l @ [nl]) (filter (match_spec pattern) (complete_lines input)))"
proof -
  have "match pattern = match_spec pattern" by (intro ext) (rule match_meaning)
  then show ?thesis using grep_selects [of "[]" input pattern] assms by (simp add: selected_def)
qed

theorem grep_prints_matching_lines_witness:
  "grep ''a*b$'' [] (''aab'' @ nl # ''abc'' @ nl # ''b'') =
   concat (map (\<lambda>l. l @ [nl]) (filter (match_spec ''a*b$'') (complete_lines (''aab'' @ nl # ''abc'' @ nl # ''b''))))"
proof (rule grep_prints_matching_lines)
  have "complete_lines (''aab'' @ nl # ''abc'' @ nl # ''b'') = [''aab'', ''abc'']"
    by (simp add: complete_lines.simps)
  then show "\<forall>l\<in>set (complete_lines (''aab'' @ nl # ''abc'' @ nl # ''b'')). length l \<le> 1022" by simp
qed simp

end
