(* ===== verification/Umalloc.thy ===== *)
theory Umalloc
  imports Prelude
begin

text \<open>
  The user allocator (\<open>src/user/umalloc.c\<close>), a circular list of free blocks in address order. A
  block is a header of 16 bytes followed by the units that it counts; the state holds the two
  fields of every header, the static \<open>freep\<close> and the address of the static \<open>base\<close>. Headers are
  changed by the allocator only. \<open>sbrk\<close> is an argument. The searches run round the list and have
  no bound in the code, so they take fuel.
\<close>

record uheap =
  hptr :: "addr \<Rightarrow> addr"
  hsize :: "addr \<Rightarrow> uint32"
  freep :: addr
  base :: addr

definition hdr_add :: "addr \<Rightarrow> uint32 \<Rightarrow> addr" where
  "hdr_add p n = p + 16 * ucast n"

definition set_hptr :: "addr \<Rightarrow> addr \<Rightarrow> uheap \<Rightarrow> uheap" where
  "set_hptr p q h = h\<lparr>hptr := (hptr h)(p := q)\<rparr>"

definition set_hsize :: "addr \<Rightarrow> uint32 \<Rightarrow> uheap \<Rightarrow> uheap" where
  "set_hsize p n h = h\<lparr>hsize := (hsize h)(p := n)\<rparr>"

section \<open>Free\<close>

fun free_find :: "nat \<Rightarrow> addr \<Rightarrow> addr \<Rightarrow> uheap \<Rightarrow> addr outcome" where
  "free_find 0 bp p h = NoFuel"
| "free_find (Suc k) bp p h =
     (if bp > p \<and> bp < hptr h p then Ok p
      else if p \<ge> hptr h p \<and> (bp > p \<or> bp < hptr h p) then Ok p
      else free_find k bp (hptr h p) h)"

text \<open>The block \<open>bp\<close> joins the list after \<open>p\<close> and melts with its neighbours.\<close>

definition free_link :: "addr \<Rightarrow> addr \<Rightarrow> uheap \<Rightarrow> uheap" where
  "free_link bp p h =
     (let h = (if hdr_add bp (hsize h bp) = hptr h p
               then set_hptr bp (hptr h (hptr h p)) (set_hsize bp (hsize h bp + hsize h (hptr h p)) h)
               else set_hptr bp (hptr h p) h);
          h = (if hdr_add p (hsize h p) = bp
               then set_hptr p (hptr h bp) (set_hsize p (hsize h p + hsize h bp) h)
               else set_hptr p bp h)
      in h\<lparr>freep := p\<rparr>)"

definition ufree :: "nat \<Rightarrow> addr \<Rightarrow> uheap \<Rightarrow> uheap outcome" where
  "ufree fuel ap h = (let bp = ap - 16 in bindO (free_find fuel bp (freep h) h) (\<lambda>p. Ok (free_link bp p h)))"

section \<open>Allocate\<close>

text \<open>\<open>sbrk\<close> takes and returns the state of the process outside the heap.\<close>

definition morecore ::
  "nat \<Rightarrow> (uint32 \<Rightarrow> 's \<Rightarrow> addr \<times> 's) \<Rightarrow> uint32 \<Rightarrow> uheap \<times> 's \<Rightarrow> (addr \<times> uheap \<times> 's) outcome" where
  "morecore fuel sbrk nu hs =
     (let (h, s) = hs; nu = (if nu < 4096 then 4096 else nu); (p, s) = sbrk (nu * 16) s in
      if p = -1 then Ok (0, h, s)
      else bindO (ufree fuel (p + 16) (set_hsize p nu h)) (\<lambda>h. Ok (freep h, h, s)))"

definition nunits :: "uint32 \<Rightarrow> uint32" where
  "nunits nbytes = of_nat (unat (ucast nbytes + 16 - 1 :: uint64) div 16) + 1"

text \<open>The block at \<open>p\<close>, after \<open>prevp\<close>, is large enough: unlink it or cut its tail.\<close>

definition malloc_take :: "uint32 \<Rightarrow> addr \<Rightarrow> addr \<Rightarrow> uheap \<Rightarrow> addr \<times> uheap" where
  "malloc_take nu prevp p h =
     (if hsize h p = nu then (p + 16, (set_hptr prevp (hptr h p) h)\<lparr>freep := prevp\<rparr>)
      else let h = set_hsize p (hsize h p - nu) h;
               q = hdr_add p (hsize h p)
           in (q + 16, (set_hsize q nu h)\<lparr>freep := prevp\<rparr>))"

fun malloc_loop ::
  "nat \<Rightarrow> (uint32 \<Rightarrow> 's \<Rightarrow> addr \<times> 's) \<Rightarrow> uint32 \<Rightarrow> addr \<Rightarrow> addr \<Rightarrow> uheap \<times> 's \<Rightarrow> (addr \<times> uheap \<times> 's) outcome" where
  "malloc_loop 0 sbrk nu prevp p hs = NoFuel"
| "malloc_loop (Suc k) sbrk nu prevp p hs =
     (if hsize (fst hs) p \<ge> nu then let (r, h) = malloc_take nu prevp p (fst hs) in Ok (r, h, snd hs)
      else if p = freep (fst hs) then
        bindO (morecore k sbrk nu hs) (\<lambda>(q, h, s).
          if q = 0 then Ok (0, h, s) else malloc_loop k sbrk nu q (hptr h q) (h, s))
      else malloc_loop k sbrk nu p (hptr (fst hs) p) hs)"

definition malloc ::
  "nat \<Rightarrow> (uint32 \<Rightarrow> 's \<Rightarrow> addr \<times> 's) \<Rightarrow> uint32 \<Rightarrow> uheap \<times> 's \<Rightarrow> (addr \<times> uheap \<times> 's) outcome" where
  "malloc fuel sbrk nbytes hs =
     (let nu = nunits nbytes; (h, s) = hs;
          h = (if freep h = 0 then set_hsize (base h) 0 ((set_hptr (base h) (base h) h)\<lparr>freep := base h\<rparr>) else h)
      in malloc_loop fuel sbrk nu (freep h) (hptr h (freep h)) (h, s))"

end
