(* ===== verification/Shell.thy ===== *)
theory Shell
  imports Prelude
begin

text \<open>
  The command parser of the shell (\<open>src/user/sh.c\<close>). The line is a list of characters without its
  null; pointers into it are indices, and \<open>es\<close> is its length. The recursive descent has no bound
  in the code other than the line, so it takes fuel. Commands do not share nodes, so a command
  under construction is a value; \<open>parseexec\<close> fills the arguments of its \<open>EXEC\<close> node while redirections
  are wrapped around it, which the model does at the end.
\<close>

section \<open>Commands\<close>

datatype cmd = EXEC "(nat \<times> nat) list" | REDIR cmd "nat \<times> nat" int int | PIPE cmd cmd | LIST cmd cmd | BACK cmd

type_synonym redir = "(nat \<times> nat) \<times> int \<times> int"

definition redircmd :: "cmd \<Rightarrow> redir \<Rightarrow> cmd" where
  "redircmd c r = (case r of (f, mode, fd) \<Rightarrow> REDIR c f mode fd)"

definition MAXARGS :: nat where "MAXARGS = 10"

section \<open>Tokens\<close>

definition sh_whitespace :: string where
  "sh_whitespace = [CHR '' '', CHR 0x09, CHR 0x0D, CHR 0x0A, CHR 0x0B]"

definition sh_symbols :: string where
  "sh_symbols = ''<|>&;()''"

definition char_at :: "string \<Rightarrow> nat \<Rightarrow> char" where
  "char_at s i = (if i < length s then s ! i else CHR 0x00)"

function skip_ws :: "string \<Rightarrow> nat \<Rightarrow> nat" where
  "skip_ws s i = (if i < length s \<and> s ! i \<in> set sh_whitespace then skip_ws s (Suc i) else i)"
  by pat_completeness auto
termination
  by (relation "measure (\<lambda>(s, i). length s - i)") auto

declare skip_ws.simps [simp del]

function skip_word :: "string \<Rightarrow> nat \<Rightarrow> nat" where
  "skip_word s i =
     (if i < length s \<and> s ! i \<notin> set sh_whitespace \<and> s ! i \<notin> set sh_symbols then skip_word s (Suc i) else i)"
  by pat_completeness auto
termination
  by (relation "measure (\<lambda>(s, i). length s - i)") auto

declare skip_word.simps [simp del]

text \<open>The switch of \<open>gettoken\<close>: the code of the token that starts at \<open>q\<close>, and its end.\<close>

definition sh_single :: string where
  "sh_single = ''|();&<''"

definition token_at :: "string \<Rightarrow> nat \<Rightarrow> char \<times> nat" where
  "token_at s q =
     (let c = char_at s q in
      if c = CHR 0x00 then (c, q)
      else if c \<in> set sh_single then (c, Suc q)
      else if c = CHR ''>'' then
        if char_at s (Suc q) = CHR ''>'' then (CHR ''+'', Suc (Suc q)) else (c, Suc q)
      else (CHR ''a'', skip_word s q))"

text \<open>The token's code, its start and end, and the position after it.\<close>

definition gettoken :: "string \<Rightarrow> nat \<Rightarrow> char \<times> nat \<times> nat \<times> nat" where
  "gettoken s ps = (let q = skip_ws s ps; (ret, eq) = token_at s q in (ret, q, eq, skip_ws s eq))"

definition peek :: "string \<Rightarrow> nat \<Rightarrow> string \<Rightarrow> bool \<times> nat" where
  "peek s ps toks = (let i = skip_ws s ps in (char_at s i \<noteq> CHR 0x00 \<and> char_at s i \<in> set toks, i))"

definition next_pos :: "string \<Rightarrow> nat \<Rightarrow> nat" where
  "next_pos s ps = snd (snd (snd (gettoken s ps)))"

section \<open>The parser\<close>

definition sh_redir :: "char \<Rightarrow> nat \<times> nat \<Rightarrow> redir" where
  "sh_redir tok f =
     (if tok = CHR ''<'' then (f, 0, 0)
      else if tok = CHR ''>'' then (f, 0x001 OR 0x200 OR 0x400, 1)
      else (f, 0x001 OR 0x200, 1))"

fun parseredirs :: "nat \<Rightarrow> string \<Rightarrow> redir list \<Rightarrow> nat \<Rightarrow> (redir list \<times> nat) outcome" where
  "parseredirs 0 s rs ps = NoFuel"
| "parseredirs (Suc k) s rs ps =
     (let (more, ps) = peek s ps ''<>'' in
      if more then
        let (tok, _, _, ps) = gettoken s ps; (t2, q, eq, ps) = gettoken s ps in
        if t2 \<noteq> CHR ''a'' then Panic ''missing file for redirection''
        else parseredirs k s (rs @ [sh_redir tok (q, eq)]) ps
      else Ok (rs, ps))"

text \<open>The loop of \<open>parseexec\<close> over the words of a simple command.\<close>

fun parseexec_args :: "nat \<Rightarrow> string \<Rightarrow> (nat \<times> nat) list \<Rightarrow> redir list \<Rightarrow> nat \<Rightarrow> (cmd \<times> nat) outcome" where
  "parseexec_args 0 s argv rs ps = NoFuel"
| "parseexec_args (Suc k) s argv rs ps =
     (let (stop, ps) = peek s ps ''|)&;'' in
      if stop then Ok (foldl redircmd (EXEC argv) rs, ps)
      else let (tok, q, eq, ps) = gettoken s ps in
      if tok = CHR 0x00 then Ok (foldl redircmd (EXEC argv) rs, ps)
      else if tok \<noteq> CHR ''a'' then Panic ''syntax''
      else let argv = argv @ [(q, eq)] in
      if length argv \<ge> MAXARGS then Panic ''too many args''
      else bindO (parseredirs k s rs ps) (\<lambda>(rs, ps). parseexec_args k s argv rs ps))"

fun parseline_back :: "nat \<Rightarrow> string \<Rightarrow> cmd \<Rightarrow> nat \<Rightarrow> (cmd \<times> nat) outcome" where
  "parseline_back 0 s c ps = NoFuel"
| "parseline_back (Suc k) s c ps =
     (let (more, ps) = peek s ps ''&'' in
      if more then parseline_back k s (BACK c) (next_pos s ps) else Ok (c, ps))"

fun parseline :: "nat \<Rightarrow> string \<Rightarrow> nat \<Rightarrow> (cmd \<times> nat) outcome"
  and parsepipe :: "nat \<Rightarrow> string \<Rightarrow> nat \<Rightarrow> (cmd \<times> nat) outcome"
  and parseexec :: "nat \<Rightarrow> string \<Rightarrow> nat \<Rightarrow> (cmd \<times> nat) outcome"
  and parseblock :: "nat \<Rightarrow> string \<Rightarrow> nat \<Rightarrow> (cmd \<times> nat) outcome" where
  "parseline 0 s ps = NoFuel"
| "parseline (Suc k) s ps =
     bindO (parsepipe k s ps) (\<lambda>(c, ps).
     bindO (parseline_back k s c ps) (\<lambda>(c, ps).
     let (more, ps) = peek s ps '';'' in
     if more then bindO (parseline k s (next_pos s ps)) (\<lambda>(c2, ps). Ok (LIST c c2, ps))
     else Ok (c, ps)))"
| "parsepipe 0 s ps = NoFuel"
| "parsepipe (Suc k) s ps =
     bindO (parseexec k s ps) (\<lambda>(c, ps).
     let (more, ps) = peek s ps ''|'' in
     if more then bindO (parsepipe k s (next_pos s ps)) (\<lambda>(c2, ps). Ok (PIPE c c2, ps))
     else Ok (c, ps))"
| "parseexec 0 s ps = NoFuel"
| "parseexec (Suc k) s ps =
     (let (block, ps) = peek s ps ''('' in
      if block then parseblock k s ps
      else bindO (parseredirs k s [] ps) (\<lambda>(rs, ps). parseexec_args k s [] rs ps))"
| "parseblock 0 s ps = NoFuel"
| "parseblock (Suc k) s ps =
     (let (open_paren, ps) = peek s ps ''('' in
      if \<not> open_paren then Panic ''parseblock''
      else bindO (parseline k s (next_pos s ps)) (\<lambda>(c, ps).
      let (close_paren, ps) = peek s ps '')'' in
      if \<not> close_paren then Panic ''syntax - missing )''
      else bindO (parseredirs k s [] (next_pos s ps)) (\<lambda>(rs, ps). Ok (foldl redircmd c rs, ps))))"

section \<open>Termination of the words\<close>

definition put_nul :: "nat \<Rightarrow> string \<Rightarrow> string" where
  "put_nul i s = s[i := CHR 0x00]"

fun nulterminate :: "cmd \<Rightarrow> string \<Rightarrow> string" where
  "nulterminate (EXEC argv) s = foldl (\<lambda>s (q, eq). put_nul eq s) s argv"
| "nulterminate (REDIR c f mode fd) s = put_nul (snd f) (nulterminate c s)"
| "nulterminate (PIPE l r) s = nulterminate r (nulterminate l s)"
| "nulterminate (LIST l r) s = nulterminate r (nulterminate l s)"
| "nulterminate (BACK c) s = nulterminate c s"

definition sh_fuel :: "string \<Rightarrow> nat" where
  "sh_fuel s = 4 * length s + 8"

definition parsecmd :: "string \<Rightarrow> (cmd \<times> string) outcome" where
  "parsecmd s =
     bindO (parseline (sh_fuel s) s 0) (\<lambda>(c, ps).
     let (_, ps) = peek s ps [] in
     if ps \<noteq> length s then Panic ''syntax'' else Ok (c, nulterminate c s))"

text \<open>The string that a C program sees at index \<open>q\<close> of the line.\<close>

definition cstr_at :: "string \<Rightarrow> nat \<Rightarrow> string" where
  "cstr_at s q = takeWhile (\<lambda>c. c \<noteq> CHR 0x00) (drop q s)"

section \<open>Positions only move forward\<close>

lemma skip_ws_ge: "i \<le> skip_ws s i"
  by (induction s i rule: skip_ws.induct) (subst skip_ws.simps, auto)

lemma skip_word_ge: "i \<le> skip_word s i"
  by (induction s i rule: skip_word.induct) (subst skip_word.simps, auto)

lemma skip_ws_stop: "skip_ws s i < length s \<Longrightarrow> s ! skip_ws s i \<notin> set sh_whitespace"
proof (induction s i rule: skip_ws.induct)
  case (1 s i)
  show ?case
  proof (cases "i < length s \<and> s ! i \<in> set sh_whitespace")
    case True
    then have "skip_ws s i = skip_ws s (Suc i)" by (subst skip_ws.simps) simp
    then show ?thesis using 1 True by simp
  next
    case False
    then have "skip_ws s i = i" by (subst skip_ws.simps) auto
    then show ?thesis using 1(2) False by auto
  qed
qed

text \<open>A character that can be part of a word, and the words of a command.\<close>

definition word_char :: "char \<Rightarrow> bool" where
  "word_char c \<longleftrightarrow> c \<notin> set sh_whitespace \<and> c \<notin> set sh_symbols"

definition is_word :: "string \<Rightarrow> nat \<times> nat \<Rightarrow> bool" where
  "is_word s w \<longleftrightarrow> (case w of (q, eq) \<Rightarrow> q < eq \<and> eq \<le> length s \<and> (\<forall>i. q \<le> i \<longrightarrow> i < eq \<longrightarrow> word_char (s ! i)) \<and>
     (eq < length s \<longrightarrow> \<not> word_char (s ! eq)))"

primrec cmd_words :: "cmd \<Rightarrow> (nat \<times> nat) list" where
  "cmd_words (EXEC argv) = argv"
| "cmd_words (REDIR c f mode fd) = f # cmd_words c"
| "cmd_words (PIPE l r) = cmd_words l @ cmd_words r"
| "cmd_words (LIST l r) = cmd_words l @ cmd_words r"
| "cmd_words (BACK c) = cmd_words c"

lemma skip_word_word:
  "i \<le> length s \<Longrightarrow> skip_word s i \<le> length s \<and> (\<forall>j. i \<le> j \<longrightarrow> j < skip_word s i \<longrightarrow> word_char (s ! j)) \<and>
   (skip_word s i < length s \<longrightarrow> \<not> word_char (s ! skip_word s i))"
proof (induction s i rule: skip_word.induct)
  case (1 s i)
  show ?case
  proof (cases "i < length s \<and> word_char (s ! i)")
    case True
    then have c: "i < length s \<and> s ! i \<notin> set sh_whitespace \<and> s ! i \<notin> set sh_symbols" unfolding word_char_def by blast
    then have e: "skip_word s i = skip_word s (Suc i)" by (subst skip_word.simps) (simp only: simp_thms if_True)
    have ih: "skip_word s (Suc i) \<le> length s" "\<forall>j. Suc i \<le> j \<longrightarrow> j < skip_word s (Suc i) \<longrightarrow> word_char (s ! j)"
      "skip_word s (Suc i) < length s \<longrightarrow> \<not> word_char (s ! skip_word s (Suc i))"
      using 1(1) [OF c] c by auto
    have "\<forall>j. i \<le> j \<longrightarrow> j < skip_word s (Suc i) \<longrightarrow> word_char (s ! j)"
      using ih(2) True by (metis Suc_leI le_neq_implies_less)
    then show ?thesis using ih(1,3) unfolding e by blast
  next
    case False
    then have "skip_word s i = i" by (subst skip_word.simps) (auto simp: word_char_def)
    then show ?thesis using 1(2) False by auto
  qed
qed

lemma symbols_cases: "c \<notin> set sh_single \<Longrightarrow> c \<noteq> CHR ''>'' \<Longrightarrow> c \<notin> set sh_symbols"
  by (simp add: sh_symbols_def sh_single_def)

lemma word_start:
  assumes "char_at s q \<noteq> CHR 0x00" "char_at s q \<notin> set sh_single" "char_at s q \<noteq> CHR ''>''" "q = skip_ws s ps"
  shows "q < skip_word s q"
proof -
  have len: "q < length s" using assms(1) by (auto simp: char_at_def split: if_splits)
  then have "s ! q \<notin> set sh_symbols" using symbols_cases assms(2,3) by (simp add: char_at_def)
  moreover have "s ! q \<notin> set sh_whitespace" using skip_ws_stop [of s ps] len assms(4) by simp
  ultimately have "skip_word s q = skip_word s (Suc q)" using len by (subst skip_word.simps) simp
  then show ?thesis using skip_word_ge [of "Suc q" s] by simp
qed

lemma token_at_cases:
  assumes "token_at s q = (t, eq)" "q = skip_ws s ps"
  shows "t = CHR 0x00 \<and> eq = q \<and> char_at s q = CHR 0x00 \<or> t \<noteq> CHR 0x00 \<and> q < eq \<and> q < length s \<and> char_at s q \<noteq> CHR 0x00"
proof -
  have "char_at s q \<noteq> CHR 0x00 \<Longrightarrow> q < length s" by (auto simp: char_at_def split: if_splits)
  then show ?thesis using assms(1) word_start [OF _ _ _ assms(2)] unfolding token_at_def Let_def by (auto split: if_splits)
qed

lemma gettoken_pos: "gettoken s ps = (t, q, eq, ps') \<Longrightarrow> ps \<le> ps' \<and> (t \<noteq> CHR 0x00 \<longrightarrow> q < eq \<and> eq \<le> ps' \<and> ps \<le> q \<and> q < length s)"
proof -
  assume g: "gettoken s ps = (t, q, eq, ps')"
  have q: "q = skip_ws s ps" and p: "ps' = skip_ws s eq" and t: "token_at s q = (t, eq)"
    using g by (auto simp: gettoken_def Let_def split: prod.splits)
  have "ps \<le> q" unfolding q by (rule skip_ws_ge)
  moreover have "eq \<le> ps'" unfolding p by (rule skip_ws_ge)
  ultimately show ?thesis using token_at_cases [OF t q] by auto
qed

lemma sh_single_no_a: "CHR ''a'' \<notin> set sh_single"
  by (simp add: sh_single_def)

lemma gettoken_word: "gettoken s ps = (CHR ''a'', q, eq, ps') \<Longrightarrow> is_word s (q, eq)"
proof -
  assume g: "gettoken s ps = (CHR ''a'', q, eq, ps')"
  have "q < length s" "q < eq" using gettoken_pos [OF g] by auto
  moreover have "token_at s q = (CHR ''a'', eq)" using g by (auto simp: gettoken_def Let_def split: prod.splits)
  then have "eq = skip_word s q"
    using sh_single_no_a unfolding token_at_def Let_def by (auto split: if_splits)
  ultimately show ?thesis using skip_word_word [of q s] by (simp add: is_word_def)
qed

lemma peek_pos: "peek s ps toks = (b, ps') \<Longrightarrow> ps \<le> ps' \<and> (b \<longrightarrow> ps' < length s \<and> char_at s ps' \<noteq> CHR 0x00 \<and> skip_ws s ps' = ps')"
proof -
  assume p: "peek s ps toks = (b, ps')"
  then have e: "ps' = skip_ws s ps" by (auto simp: peek_def Let_def)
  have "skip_ws s ps' = ps'" if "ps' < length s"
    using skip_ws_stop [of s ps] that unfolding e by (subst skip_ws.simps) simp
  then show ?thesis using p skip_ws_ge [of ps s] by (auto simp: peek_def Let_def char_at_def e split: if_splits)
qed

text \<open>After a successful \<open>peek\<close>, \<open>gettoken\<close> takes a token.\<close>

lemma peek_token:
  "peek s ps toks = (True, ps') \<Longrightarrow> gettoken s ps' = (t, q, eq, p2) \<Longrightarrow> ps' < p2"
proof -
  assume p: "peek s ps toks = (True, ps')" and g: "gettoken s ps' = (t, q, eq, p2)"
  have "char_at s ps' \<noteq> CHR 0x00" "skip_ws s ps' = ps'" using peek_pos [OF p] by auto
  moreover have "token_at s (skip_ws s ps') = (t, eq)" using g by (auto simp: gettoken_def Let_def split: prod.splits)
  ultimately have "t \<noteq> CHR 0x00" using token_at_cases [of s "skip_ws s ps'" t eq ps'] by auto
  then show ?thesis using gettoken_pos [OF g] by auto
qed

lemma peek_next: "peek s ps toks = (True, ps') \<Longrightarrow> ps < next_pos s ps' \<and> ps' < length s"
proof -
  assume p: "peek s ps toks = (True, ps')"
  obtain t q eq p2 where g: "gettoken s ps' = (t, q, eq, p2)" by (metis prod_cases4)
  show ?thesis using peek_pos [OF p] peek_token [OF p g] g by (auto simp: next_pos_def)
qed
section \<open>The parser ends and finds words\<close>

text \<open>A result of the parser from position \<open>ps\<close>: an error, or a command made of words of the line.\<close>

definition parsed :: "string \<Rightarrow> nat \<Rightarrow> (cmd \<times> nat) outcome \<Rightarrow> bool" where
  "parsed s ps m \<longleftrightarrow> (\<exists>msg. m = Panic msg) \<or>
     (\<exists>c ps'. m = Ok (c, ps') \<and> ps \<le> ps' \<and> (\<forall>w\<in>set (cmd_words c). is_word s w))"

definition parsed_redirs :: "string \<Rightarrow> nat \<Rightarrow> (redir list \<times> nat) outcome \<Rightarrow> bool" where
  "parsed_redirs s ps m \<longleftrightarrow> (\<exists>msg. m = Panic msg) \<or>
     (\<exists>rs ps'. m = Ok (rs, ps') \<and> ps \<le> ps' \<and> (\<forall>r\<in>set rs. is_word s (fst r)))"

lemma parsed_Panic [simp]: "parsed s ps (Panic msg)" "parsed_redirs s ps (Panic msg)"
  by (auto simp: parsed_def parsed_redirs_def)

lemma parsed_later: "ps \<le> ps' \<Longrightarrow> parsed s ps' m \<Longrightarrow> parsed s ps m"
  by (auto simp: parsed_def dest: order_trans)

lemma parsed_redirs_later: "ps \<le> ps' \<Longrightarrow> parsed_redirs s ps' m \<Longrightarrow> parsed_redirs s ps m"
  by (auto simp: parsed_redirs_def dest: order_trans)

lemma parsed_bind:
  assumes "parsed s ps m"
    and f: "\<And>c ps'. ps \<le> ps' \<Longrightarrow> \<forall>w\<in>set (cmd_words c). is_word s w \<Longrightarrow> parsed s ps' (f (c, ps'))"
  shows "parsed s ps (bindO m f)"
  using assms(1) unfolding parsed_def [of s ps m]
proof (elim disjE exE conjE)
  fix c ps' assume "m = Ok (c, ps')" "ps \<le> ps'" "\<forall>w\<in>set (cmd_words c). is_word s w"
  then show ?thesis using f [of ps' c] parsed_later [of ps ps'] by simp
qed simp

lemma parsed_bind_redirs:
  assumes "parsed_redirs s ps m"
    and f: "\<And>(rs :: redir list) ps'. ps \<le> ps' \<Longrightarrow> \<forall>r\<in>set rs. is_word s (fst r) \<Longrightarrow> parsed s ps' (f (rs, ps'))"
  shows "parsed s ps (bindO m f)"
  using assms(1) unfolding parsed_redirs_def
proof (elim disjE exE conjE)
  fix rs ps' assume "m = Ok (rs, ps')" "ps \<le> ps'" "\<forall>r\<in>set rs. is_word s (fst r)"
  then show ?thesis using f [of ps' rs] parsed_later [of ps ps'] by simp
qed simp

lemma words_redirs:
  "\<forall>w\<in>set (cmd_words c). is_word s w \<Longrightarrow> \<forall>r\<in>set rs. is_word s (fst r) \<Longrightarrow>
   \<forall>w\<in>set (cmd_words (foldl redircmd c rs)). is_word s w"
proof (induction rs arbitrary: c)
  case (Cons r rs)
  have "\<forall>w\<in>set (cmd_words (redircmd c r)). is_word s w" using Cons.prems by (cases r) (auto simp: redircmd_def)
  then show ?case using Cons.IH [of "redircmd c r"] Cons.prems by simp
qed simp

lemma fst_sh_redir [simp]: "fst (sh_redir tok f) = f"
  by (simp add: sh_redir_def)

lemma parseredirs_parsed:
  "length s - ps < k \<Longrightarrow> \<forall>r\<in>set rs. is_word s (fst r) \<Longrightarrow> parsed_redirs s ps (parseredirs k s rs ps)"
proof (induction k arbitrary: rs ps)
  case (Suc k)
  obtain b p1 where p: "peek s ps ''<>'' = (b, p1)" by fastforce
  obtain t q0 e0 p2 where g1: "gettoken s p1 = (t, q0, e0, p2)" by (metis prod_cases4)
  obtain t2 q eq p3 where g2: "gettoken s p2 = (t2, q, eq, p3)" by (metis prod_cases4)
  have le: "ps \<le> p1" "p2 \<le> p3" using peek_pos [OF p] gettoken_pos [OF g2] by auto
  show ?case
  proof (cases "b \<and> t2 = CHR ''a''")
    case True
    then have p': "peek s ps ''<>'' = (True, p1)" using p by simp
    have lt: "p1 < p2" "p1 < length s" using peek_token [OF p' g1] peek_pos [OF p'] by auto
    then have "length s - p3 < k" using Suc.prems(1) le by linarith
    moreover have "is_word s (q, eq)" using gettoken_word g2 True by simp
    ultimately have "parsed_redirs s p3 (parseredirs k s (rs @ [sh_redir t (q, eq)]) p3)"
      using Suc.prems(2) by (intro Suc.IH) auto
    then have "parsed_redirs s ps (parseredirs k s (rs @ [sh_redir t (q, eq)]) p3)"
      using lt le by (intro parsed_redirs_later [of ps p3]) auto
    then show ?thesis using True by (simp add: p g1 g2)
  next
    case False
    then show ?thesis using Suc.prems(2) le by (auto simp: p g1 g2 parsed_redirs_def)
  qed
qed simp

lemma parseexec_args_parsed:
  "length s - ps + 1 < k \<Longrightarrow> \<forall>w\<in>set argv. is_word s w \<Longrightarrow> \<forall>r\<in>set rs. is_word s (fst r) \<Longrightarrow>
   parsed s ps (parseexec_args k s argv rs ps)"
proof (induction k arbitrary: argv rs ps)
  case (Suc k)
  obtain b p1 where p: "peek s ps ''|)&;'' = (b, p1)" by fastforce
  obtain t q eq p2 where g: "gettoken s p1 = (t, q, eq, p2)" by (metis prod_cases4)
  have finished: "parsed s ps (Ok (foldl redircmd (EXEC argv) rs, p))" if "ps \<le> p" for p
    using that words_redirs [of "EXEC argv" s rs] Suc.prems by (simp add: parsed_def)
  have le: "ps \<le> p1" "p1 \<le> p2" using peek_pos [OF p] gettoken_pos [OF g] by auto
  show ?case
  proof (cases "b \<or> t \<noteq> CHR ''a'' \<or> length argv + 1 \<ge> MAXARGS")
    case True
    then show ?thesis using finished [of p1] finished [of p2] le by (auto simp: p g Let_def)
  next
    case False
    then have w: "is_word s (q, eq)" using gettoken_word g by simp
    have "p1 < p2" "p1 < length s" using gettoken_pos [OF g] False by auto
    then have k: "length s - p2 + 1 < k" using Suc.prems(1) le by linarith
    have "parsed s p2 (bindO (parseredirs k s rs p2) (\<lambda>(rs, ps). parseexec_args k s (argv @ [(q, eq)]) rs ps))"
    proof (rule parsed_bind_redirs)
      show "parsed_redirs s p2 (parseredirs k s rs p2)" using k Suc.prems(3) by (intro parseredirs_parsed) auto
      fix rs' :: "redir list" and p' assume "p2 \<le> p'" "\<forall>r\<in>set rs'. is_word s (fst r)"
      then show "parsed s p' ((\<lambda>(rs, ps). parseexec_args k s (argv @ [(q, eq)]) rs ps) (rs', p'))"
        using k w Suc.prems(2) by (simp, intro Suc.IH) auto
    qed
    then show ?thesis using False le parsed_later [of ps p2] by (auto simp: p g Let_def)
  qed
qed simp

lemma parseline_back_parsed:
  "length s - ps < k \<Longrightarrow> \<forall>w\<in>set (cmd_words c). is_word s w \<Longrightarrow> parsed s ps (parseline_back k s c ps)"
proof (induction k arbitrary: c ps)
  case (Suc k)
  obtain b p1 where p: "peek s ps ''&'' = (b, p1)" by fastforce
  show ?case
  proof (cases b)
    case True
    then have n: "ps < next_pos s p1" "p1 < length s" "ps \<le> p1" using peek_next peek_pos p by auto
    then have "parsed s (next_pos s p1) (parseline_back k s (BACK c) (next_pos s p1))"
      using Suc.prems by (intro Suc.IH) auto
    then show ?thesis using True n parsed_later [of ps "next_pos s p1"] by (simp add: p)
  next
    case False
    then show ?thesis using Suc.prems(2) peek_pos [OF p] by (auto simp: p parsed_def)
  qed
qed simp
text \<open>
  With \<open>r\<close> characters left, fuel \<open>4 * r + 6\<close> is enough for a line, and one less for each level
  below it.
\<close>

lemma parse_parsed:
  "(4 * (length s - ps) + 6 \<le> k \<longrightarrow> parsed s ps (parseline k s ps)) \<and>
   (4 * (length s - ps) + 5 \<le> k \<longrightarrow> parsed s ps (parsepipe k s ps)) \<and>
   (4 * (length s - ps) + 4 \<le> k \<longrightarrow> parsed s ps (parseexec k s ps)) \<and>
   (4 * (length s - ps) + 3 \<le> k \<longrightarrow> parsed s ps (parseblock k s ps))"
proof (induction k arbitrary: ps)
  case (Suc k)
  have line: "4 * (length s - p) + 6 \<le> k \<Longrightarrow> parsed s p (parseline k s p)"
    and pip: "4 * (length s - p) + 5 \<le> k \<Longrightarrow> parsed s p (parsepipe k s p)"
    and exe: "4 * (length s - p) + 4 \<le> k \<Longrightarrow> parsed s p (parseexec k s p)"
    and blk: "4 * (length s - p) + 3 \<le> k \<Longrightarrow> parsed s p (parseblock k s p)" for p
    using Suc.IH [of p] by auto
  have "parsed s ps (parseline (Suc k) s ps)" if k: "4 * (length s - ps) + 6 \<le> Suc k"
    unfolding parseline.simps
  proof (rule parsed_bind, goal_cases)
    case 1 show ?case using k by (intro pip) simp
  next
    case (2 c p)
    show ?case unfolding prod.case
    proof (rule parsed_bind, goal_cases)
      case 1 show ?case using k 2 by (intro parseline_back_parsed) auto
    next
      case (2 c1 p1)
      obtain b p2 where pk: "peek s p1 '';'' = (b, p2)" by fastforce
      note le = peek_pos [OF pk] peek_next [of s p1 "'';''" p2]
      have "parsed s (next_pos s p2) (bindO (parseline k s (next_pos s p2)) (\<lambda>(c2, ps). Ok (LIST c1 c2, ps)))" if b
        using that pk le k \<open>ps \<le> p\<close> 2 by (intro parsed_bind line) (auto simp: parsed_def)
      then show ?case using pk le 2 parsed_later [of p1 "next_pos s p2"] by (cases b) (auto simp: parsed_def)
    qed
  qed
  moreover have "parsed s ps (parsepipe (Suc k) s ps)" if k: "4 * (length s - ps) + 5 \<le> Suc k"
    unfolding parsepipe.simps
  proof (rule parsed_bind, goal_cases)
    case 1 show ?case using k by (intro exe) simp
  next
    case (2 c p1)
    obtain b p2 where pk: "peek s p1 ''|'' = (b, p2)" by fastforce
    note le = peek_pos [OF pk] peek_next [of s p1 "''|''" p2]
    have "parsed s (next_pos s p2) (bindO (parsepipe k s (next_pos s p2)) (\<lambda>(c2, ps). Ok (PIPE c c2, ps)))" if b
      using that pk le k 2 by (intro parsed_bind pip) (auto simp: parsed_def)
    then show ?case using pk le 2 parsed_later [of p1 "next_pos s p2"] by (cases b) (auto simp: parsed_def)
  qed
  moreover have "parsed s ps (parseexec (Suc k) s ps)" if k: "4 * (length s - ps) + 4 \<le> Suc k"
  proof -
    obtain b p1 where pk: "peek s ps ''('' = (b, p1)" by fastforce
    note le = peek_pos [OF pk]
    have "parsed s p1 (parseblock k s p1)" using le k by (intro blk) auto
    moreover have "parsed s p1 (bindO (parseredirs k s [] p1) (\<lambda>(rs, ps). parseexec_args k s [] rs ps))"
      using le k by (intro parsed_bind_redirs parseredirs_parsed) (auto intro!: parseexec_args_parsed)
    ultimately show ?thesis using pk le parsed_later [of ps p1] by auto
  qed
  moreover have "parsed s ps (parseblock (Suc k) s ps)" if k: "4 * (length s - ps) + 3 \<le> Suc k"
  proof -
    obtain b p1 where pk: "peek s ps ''('' = (b, p1)" by fastforce
    note le = peek_pos [OF pk] peek_next [of s ps "''(''" p1]
    have "parsed s (next_pos s p1) (bindO (parseline k s (next_pos s p1)) (\<lambda>(c, ps).
        let (close_paren, ps) = peek s ps '')'' in
        if \<not> close_paren then Panic ''syntax - missing )''
        else bindO (parseredirs k s [] (next_pos s ps)) (\<lambda>(rs, ps). Ok (foldl redircmd c rs, ps))))" if b: b
    proof (rule parsed_bind, goal_cases)
      case 1 show ?case using b pk le k by (intro line) auto
    next
      case (2 c p2)
      obtain b2 p3 where pk2: "peek s p2 '')'' = (b2, p3)" by fastforce
      note le2 = peek_next [of s p2 "'')''" p3]
      have "parsed s (next_pos s p3) (bindO (parseredirs k s [] (next_pos s p3)) (\<lambda>(rs, ps). Ok (foldl redircmd c rs, ps)))" if b2
        using that b pk2 le2 pk le k 2 words_redirs [of c s]
        by (intro parsed_bind_redirs parseredirs_parsed) (auto simp: parsed_def)
      then show ?case using pk2 le2 parsed_later [of p2 "next_pos s p3"] by (cases b2) auto
    qed
    then show ?thesis using pk le parsed_later [of ps "next_pos s p1"] by (cases b) auto
  qed
  ultimately show ?case by blast
qed simp

lemma parsecmd_parsed:
  "(\<exists>msg. parsecmd s = Panic msg) \<or> (\<exists>c. parsecmd s = Ok (c, nulterminate c s) \<and> (\<forall>w\<in>set (cmd_words c). is_word s w))"
proof -
  have "parsed s 0 (parseline (sh_fuel s) s 0)" using parse_parsed [of s 0 "sh_fuel s"] by (simp add: sh_fuel_def)
  then show ?thesis by (auto simp: parsed_def parsecmd_def Let_def split: prod.splits)
qed

text \<open>
C29: The shell's parser always comes back: on every line the recursive descent ends, with fuel
proportional to the length of the line, in a command or in one of its error messages.
\<close>

theorem parsecmd_terminates:
  "(\<exists>msg. parsecmd s = Panic msg) \<or> (\<exists>c s'. parsecmd s = Ok (c, s'))"
  using parsecmd_parsed [of s] by blast

section \<open>What the commands see\<close>

definition nul_at :: "nat set \<Rightarrow> string \<Rightarrow> string" where
  "nul_at A s = map (\<lambda>i. if i \<in> A then CHR 0x00 else s ! i) [0..<length s]"

lemma put_nul_at: "put_nul e (nul_at A s) = nul_at (insert e A) s"
proof (cases "e < length s")
  case True
  then show ?thesis by (intro nth_equalityI) (auto simp: put_nul_def nul_at_def nth_list_update)
next
  case False
  then show ?thesis by (intro nth_equalityI) (auto simp: put_nul_def nul_at_def list_update_beyond)
qed

lemma put_nuls_at: "foldl (\<lambda>s (q, eq). put_nul eq s) (nul_at A s) argv = nul_at (A \<union> snd ` set argv) s"
proof (induction argv arbitrary: A)
  case (Cons w argv)
  have "insert (snd w) A \<union> snd ` set argv = A \<union> snd ` set (w # argv)" by auto
  then show ?case using Cons.IH [of "insert (snd w) A"] by (simp add: case_prod_beta put_nul_at)
qed simp

lemma nulterminate_at: "nulterminate c (nul_at A s) = nul_at (A \<union> snd ` set (cmd_words c)) s"
proof (induction c arbitrary: A)
  case (REDIR c f mode fd)
  have "insert (snd f) (A \<union> snd ` set (cmd_words c)) = A \<union> snd ` set (cmd_words (REDIR c f mode fd))" by auto
  then show ?case using REDIR by (simp add: put_nul_at)
qed (simp_all add: put_nuls_at image_Un Un_assoc)

lemma nul_positions: "nulterminate c s = nul_at (snd ` set (cmd_words c)) s"
  using nulterminate_at [of c "{}" s] by (simp add: nul_at_def map_nth)

lemma nth_nul_at: "i < length s \<Longrightarrow> nul_at A s ! i = (if i \<in> A then CHR 0x00 else s ! i)"
  by (simp add: nul_at_def)

lemma length_nul_at [simp]: "length (nul_at A s) = length s"
  by (simp add: nul_at_def)

lemma words_survive:
  assumes "is_word s (q, eq)" "\<forall>w\<in>set (cmd_words c). is_word s w" "(q, eq) \<in> set (cmd_words c)" "CHR 0x00 \<notin> set s"
  shows "cstr_at (nulterminate c s) q = take (eq - q) (drop q s)"
proof -
  let ?t = "nulterminate c s"
  have w: "q < eq" "eq \<le> length s" "\<forall>i. q \<le> i \<longrightarrow> i < eq \<longrightarrow> word_char (s ! i)" using assms(1) by (auto simp: is_word_def)
  have len: "length ?t = length s" by (simp add: nul_positions)
  have "i \<notin> snd ` set (cmd_words c)" if "q \<le> i" "i < eq" for i
  proof
    assume "i \<in> snd ` set (cmd_words c)"
    then obtain q' where "is_word s (q', i)" using assms(2) by auto
    then show False using w that by (auto simp: is_word_def)
  qed
  then have inside: "?t ! i = s ! i" if "q \<le> i" "i < eq" for i
    using that w(2) by (simp add: nul_positions nth_nul_at)
  have nz: "?t ! i \<noteq> CHR 0x00" if "q \<le> i" "i < eq" for i
    using inside [OF that] assms(4) that w(2) by (metis nth_mem order_less_le_trans)
  have "drop q ?t = take (eq - q) (drop q s) @ drop eq ?t"
    by (rule nth_equalityI) (use w len inside in \<open>auto simp: nth_append add.commute\<close>)
  moreover have "takeWhile (\<lambda>c. c \<noteq> CHR 0x00) (drop eq ?t) = []"
  proof (cases "eq < length s")
    case True
    moreover have "eq \<in> snd ` set (cmd_words c)" using assms(3) by force
    ultimately have "?t ! eq = CHR 0x00" by (simp add: nul_positions nth_nul_at)
    moreover have "drop eq ?t = ?t ! eq # drop (Suc eq) ?t" using True len by (simp add: Cons_nth_drop_Suc)
    ultimately show ?thesis by simp
  qed (simp add: len)
  moreover have "\<forall>c\<in>set (take (eq - q) (drop q s)). c \<noteq> CHR 0x00" using assms(4) by (auto dest: in_set_takeD in_set_dropD)
  ultimately show ?thesis by (simp add: cstr_at_def takeWhile_append2)
qed



end
