(* ===== verification/Spec2Isabelle.thy ===== *)
theory Spec2Isabelle
  imports FileSpec ConsoleProof Asm Spinlock Trap Ulib UserProgs Grep Umalloc Shell
begin

text \<open>
  A verification library for the xv6 teaching kernel for RISC-V in \<open>src/\<close>, with the extensions of
  this repository: an EEVDF scheduler with nice values, reference-counted pages, \<open>mmap\<close>,
  \<open>meminfo\<close>, \<open>waitpid\<close> and \<open>ps\<close>; with the program \<open>mkfs\<close> that builds its file system image and
  the parts of the user library that compute.

  \<^bold>\<open>Conventions.\<close> Every C function is one definition, a loop of it another one. The state of the kernel
  is a chain of extended records, each adding the globals of one component: \<open>kmem\<close> (memory and page
  allocator), \<open>kproc\<close> (process table), \<open>kpipe\<close>, \<open>kdisk\<close> (buffer cache, disk and the trace of disk
  writes), \<open>klog\<close>, \<open>kfs\<close> (superblock, inode table), \<open>kfile\<close> (file table, mappings), \<open>kvd\<close> (disk driver) and
  \<open>kcons\<close> (console). Memory is a function from 64-bit addresses to bytes; \<open>uint64\<close>, \<open>uint\<close> and \<open>char\<close>
  are words of their width, a C \<open>int\<close> is an \<open>int\<close>. A pointer into a table is an index, a null pointer is
  \<open>None\<close>. A fallible function returns an \<open>outcome\<close>: \<open>Ok\<close>, \<open>Panic\<close> with the message, \<open>Sleeps\<close> when
  the caller would block inside it, \<open>Undef\<close> for an access out of bounds and \<open>NoFuel\<close>. A system call
  returns a value, blocks or ends the process (\<open>sysresult\<close>).

  \<^bold>\<open>Theories and the code they model.\<close>
  \<^item> \<open>Prelude\<close>, \<open>Riscv\<close>: outcomes, words and memory; \<open>kernel/riscv.h\<close>, \<open>kernel/memlayout.h\<close>.
  \<^item> \<open>CString\<close>: \<open>kernel/string.c\<close>. \<open>Ring\<close>: ring buffers and the interface of a queue.
  \<^item> \<open>Kalloc\<close>: \<open>kernel/kalloc.c\<close>. \<open>VM\<close>, \<open>PageTable\<close>: \<open>kernel/vm.c\<close> and its refinement of a map.
  \<^item> \<open>Proc\<close>, \<open>Sched\<close>: the scheduler of \<open>kernel/proc.c\<close> and the timer tick. \<open>ProcMem\<close>, \<open>Lifecycle\<close>:
    creation, fork, exit and wait. \<open>Ps\<close>: the process listing.
  \<^item> \<open>Spinlock\<close>: \<open>kernel/spinlock.c\<close> as an interleaving of atomic steps on any number of CPUs.
  \<^item> \<open>Pipe\<close>: \<open>kernel/pipe.c\<close>. \<open>Bio\<close>: \<open>kernel/bio.c\<close> and \<open>kernel/sleeplock.c\<close>.
  \<^item> \<open>Log\<close>, \<open>LogProof\<close>, \<open>Recovery\<close>: \<open>kernel/log.c\<close>, its disk writes, crashes and recovery.
  \<^item> \<open>Fs\<close>: \<open>kernel/fs.c\<close>. \<open>FsProof\<close>: inodes on disk and path names. \<open>TxProof\<close>: what a transaction may rely on,
    and its end. \<open>BlockProof\<close>: the block allocator. \<open>FileProof\<close>, \<open>WriteProof\<close>: the blocks of a file, reading and
    writing. \<open>FileSpec\<close>: the contract of the file system, on contents as lists of bytes.
  \<^item> \<open>File\<close>, \<open>FileIO\<close>: \<open>kernel/file.c\<close>. \<open>Mmap\<close>: \<open>kernel/mmap.c\<close>. \<open>Copy\<close>: copies between user and kernel.
  \<^item> \<open>Exec\<close>: \<open>kernel/exec.c\<close>. \<open>SysFile\<close>, \<open>Syscall\<close>: the system calls and their dispatch. \<open>Trap\<close>: \<open>kernel/trap.c\<close>.
  \<^item> \<open>Asm\<close>: \<open>kernel/entry.S\<close>, \<open>kernel/swtch.S\<close>, \<open>kernel/trampoline.S\<close>, \<open>kernel/kernelvec.S\<close> as programs of the
    instructions they use, and \<open>kernel/start.c\<close>.
  \<^item> \<open>Console\<close>, \<open>ConsoleProof\<close>: \<open>kernel/console.c\<close>, \<open>kernel/uart.c\<close> and its line discipline. \<open>Virtio\<close>: \<open>kernel/virtio_disk.c\<close>.
  \<^item> \<open>Printf\<close>: \<open>kernel/printf.c\<close>, \<open>user/printf.c\<close>. \<open>Ulib\<close>, \<open>Umalloc\<close>, \<open>Grep\<close>, \<open>Shell\<close>, \<open>UserProgs\<close>
    (\<open>cat\<close>, \<open>wc\<close>, \<open>echo\<close> and parts of \<open>ls\<close> and \<open>grind\<close>): programs under \<open>user/\<close>.
  \<^item> \<open>Mkfs\<close>: \<open>mkfs/mkfs.c\<close>.

  \<^bold>\<open>How the parts interact.\<close> A system call enters through \<open>uservec\<close> and \<open>usertrap\<close>, is dispatched by
  \<open>syscall\<close> to \<open>sys_*\<close>, which reads its arguments through the page table (\<open>Copy\<close>) and calls the file layer or
  the process layer. The file layer wraps every change in \<open>begin_op\<close> and \<open>end_op\<close>; \<open>fs.c\<close> changes blocks in the
  buffer cache and hands them to \<open>log_write\<close>; \<open>commit\<close> writes them to the log and then home. Pages for processes, page
  tables and pipes come from \<open>kalloc\<close>, which counts references. The timer tick charges the
  running process, and \<open>scheduler\<close> chooses the next by virtual deadline.

  \<^bold>\<open>What the theorems show.\<close>
  \<^item> Storage, from the bottom up. \<open>Bio\<close>: a block read through the cache is the disk's or its latest
    cached version, whatever is evicted. \<open>Recovery\<close>: a commit cut off after any number of disk writes, and recoveries cut off
    in turn, leave all of the transaction's blocks old or all new. \<open>BlockProof\<close>, \<open>FileProof\<close>, \<open>WriteProof\<close>: allocation, the
    mapping of file blocks, reads and writes, inside a transaction with a bound on the blocks it may still touch.
    \<open>FileSpec\<close> puts these together: a write splices bytes into the contents and touches no other
    file, fits the transaction \<open>begin_op\<close> has reserved, is read back after the commit, and is atomic under crashes.
  \<^item> Memory. \<open>Kalloc\<close>: the free list holds each free page once, and a shared page is freed with its
    last reference. \<open>PageTable\<close>: the page table in memory is a finite map, \<open>mappages\<close> extends it,
    \<open>uvmunmap\<close> restricts it, with every error outcome.
  \<^item> Processes. \<open>Sched\<close>: the scheduler runs an eligible process with the earliest deadline and finds one whenever
    one is runnable; wakeups reach exactly the sleepers on a channel. \<open>Spinlock\<close>: mutual exclusion in every interleaving.
    \<open>Asm\<close>: context switches and traps lose no register.
  \<^item> Streams. \<open>Pipe\<close>: first in, first out, across the wrap-around of the counters. \<open>ConsoleProof\<close>: the console is a line editor.
  \<^item> User programs. The parser of the shell ends on every input, \<open>grep\<close> prints the lines its pattern matches in the sense of
    a declarative meaning of patterns, \<open>wc\<close> counts independently of how the input is cut into pieces, both versions of \<open>printf\<close> agree.

  \<^bold>\<open>Bounds and fuel.\<close> Loops end by a measure wherever the code ends by itself. Fuel is used for the
  recursion over page tables (three levels), for \<open>mmap_cleanup\<close> (one more than the number of mappings)
  and for the retry loops of \<open>malloc\<close>.

  \<^bold>\<open>Not modelled.\<close> Device registers beyond the protocol of the disk and the serial line, the set-up of
  the interrupt controller, the order of initialisation in \<open>kernel/main.c\<close>, and under \<open>user/\<close> the test programs and the
  programs that are a few system calls in a row. A function that would sleep returns \<open>Sleeps\<close> or \<open>Blk\<close> at that point; except for the
  spin locks the interleaving of processes is not followed.
\<close>

end
